(* ===== verification/HFT_Prelude.thy ===== *)
theory HFT_Prelude
  imports Main "HOL-Library.Word"
begin

text \<open>
  Shared vocabulary of the development: the machine integers of \<^verbatim>\<open>src/src/common/types.h\<close>,
  the collections of rewrite rules the components feed, and the generic facts on lists and
  maps that more than one component uses.

  Unsigned types (\<^verbatim>\<open>std::uint64_t\<close>, \<^verbatim>\<open>std::uint32_t\<close>, \<^verbatim>\<open>std::size_t\<close>) are words of their
  width, so they wrap around as in the source.  Signed 64-bit values (\<^verbatim>\<open>Price\<close>, \<^verbatim>\<open>Quantity\<close>)
  are integers; every addition or subtraction of the source goes through \<open>i64\<close>, which writes
  the two's complement wrap-around out.  C++ leaves signed overflow undefined; the theorems
  either bound the operands so that \<open>i64\<close> is the identity or state what the wrap-around does.
\<close>

type_synonym u64 = "64 word"
type_synonym u32 = "32 word"
type_synonym OrderId = u64
type_synonym TraderId = u64
type_synonym Timestamp = u64
type_synonym Price = int
type_synonym Quantity = int

text \<open>Rules that evaluate 64-bit signed arithmetic inside its range.\<close>

named_theorems i64_simps
named_theorems book_simps
named_theorems inv_intros

section \<open>Signed 64-bit arithmetic\<close>

definition i64_max :: int where
  "i64_max = 9223372036854775807"

definition i64_min :: int where
  "i64_min = - 9223372036854775808"

definition in_i64 :: "int \<Rightarrow> bool" where
  "in_i64 x \<longleftrightarrow> i64_min \<le> x \<and> x \<le> i64_max"

definition i64 :: "int \<Rightarrow> int" where
  "i64 x = (x + 9223372036854775808) mod 18446744073709551616 - 9223372036854775808"

lemma i64_id [i64_simps]: "in_i64 x \<Longrightarrow> i64 x = x"
  by (simp add: in_i64_def i64_def i64_min_def i64_max_def)

lemma in_i64_i64 [simp]: "in_i64 (i64 x)"
proof -
  have "0 \<le> (x + 9223372036854775808) mod 18446744073709551616"
    and "(x + 9223372036854775808) mod 18446744073709551616 < 18446744073709551616"
    by simp_all
  then show ?thesis
    by (simp add: in_i64_def i64_def i64_min_def i64_max_def)
qed

lemma mod_shift_eq_iff:
  fixes x y c m :: int
  shows "(x + c) mod m - d = (y + c) mod m - d \<longleftrightarrow> x mod m = y mod m"
  by (simp add: mod_eq_dvd_iff)

lemma i64_eq_iff: "i64 x = i64 y \<longleftrightarrow> x mod 18446744073709551616 = y mod 18446744073709551616"
  unfolding i64_def by (rule mod_shift_eq_iff)

lemma i64_mod: "i64 x mod 18446744073709551616 = x mod 18446744073709551616"
proof -
  have "i64 (i64 x) = i64 x" by (rule i64_id) simp
  then show ?thesis by (simp only: i64_eq_iff)
qed

lemma i64_add_left: "i64 (i64 x + y) = i64 (x + y)"
  unfolding i64_eq_iff by (rule mod_add_cong [OF i64_mod refl])

lemma word_of_i64 [simp]: "word_of_int (i64 x) = (word_of_int x :: 64 word)"
  by (simp add: word_of_int_eq_iff take_bit_eq_mod i64_mod)

lemma in_i64_zero [simp]: "in_i64 0"
  by (simp add: in_i64_def i64_min_def i64_max_def)

lemma in_i64_between: "in_i64 a \<Longrightarrow> in_i64 b \<Longrightarrow> a \<le> x \<Longrightarrow> x \<le> b \<Longrightarrow> in_i64 x"
  by (simp add: in_i64_def)

lemma in_i64_nonneg: "0 \<le> x \<Longrightarrow> x \<le> y \<Longrightarrow> in_i64 y \<Longrightarrow> in_i64 x"
  by (rule in_i64_between [of 0 y]) simp_all

text \<open>C++ integer division truncates towards zero.\<close>

definition tdiv :: "int \<Rightarrow> int \<Rightarrow> int" where
  "tdiv a b = sgn a * sgn b * (\<bar>a\<bar> div \<bar>b\<bar>)"

lemma tdiv_nonneg: "0 \<le> a \<Longrightarrow> 0 \<le> b \<Longrightarrow> tdiv a b = a div b"
  by (cases "a = 0"; cases "b = 0") (auto simp: tdiv_def)

section \<open>Lists\<close>

lemma sum_list_nonneg_member:
  fixes xs :: "int list"
  assumes "\<forall>x \<in> set xs. 0 \<le> x" and "x \<in> set xs"
  shows "x \<le> sum_list xs"
  using assms by (induction xs) (auto simp: add_increasing add_increasing2 sum_list_nonneg)

lemma filter_neq_distinct:
  "distinct (map f xs) \<Longrightarrow> x \<in> set xs \<Longrightarrow>
    length (filter (\<lambda>y. f y \<noteq> f x) xs) = length xs - 1"
proof (induction xs)
  case Nil
  then show ?case by simp
next
  case (Cons a xs)
  show ?case
  proof (cases "x = a")
    case True
    with Cons.prems have "filter (\<lambda>y. f y \<noteq> f x) xs = xs"
      by (intro filter_True) (auto simp: image_iff)
    with True show ?thesis by simp
  next
    case False
    with Cons.prems have mem: "x \<in> set xs" and "f a \<noteq> f x" by auto
    with Cons have "length (filter (\<lambda>y. f y \<noteq> f x) xs) = length xs - 1" by simp
    moreover from mem have "0 < length xs" by (cases xs) auto
    ultimately show ?thesis using \<open>f a \<noteq> f x\<close> by simp
  qed
qed

lemma distinct_map_eqD:
  "distinct (map f xs) \<Longrightarrow> x \<in> set xs \<Longrightarrow> y \<in> set xs \<Longrightarrow> f x = f y \<Longrightarrow> x = y"
  by (auto simp: distinct_map dest: inj_onD)

end
