(* ===== verification/HFT_Types.thy ===== *)
theory HFT_Types
  imports HFT_Prelude
begin

unbundle bit_operations_syntax

text \<open>
  The core types of \<^verbatim>\<open>src/src/common/types.h\<close>: enumerations as datatypes, plain structs as
  records with their default member initialisers, the fixed-size \<open>Symbol\<close> with its hash, and
  the defaults of \<^verbatim>\<open>src/src/common/constants.h\<close> that the other components use.  The
  20-byte client order ids are carried as strings; the code only copies them.
\<close>

section \<open>Enumerations\<close>

datatype OrderStatus = New | PartiallyFilled | Filled | Canceled | Rejected
  | PendingCancel | PendingReplace

datatype RejectReason = NoReject | UnknownSymbol | InvalidPrice | InvalidQuantity
  | PositionLimit | RateLimit | SelfTradePrevention | KillSwitchActive
  | DuplicateOrderId | InsufficientLiquidity

datatype Side = Buy | Sell

datatype OrderType = Limit | Market

datatype TimeInForce = Day | IOC | FOK | GTC

section \<open>Symbols\<close>

text \<open>Eight characters, padded with NUL; a C string ends at its first NUL.\<close>

datatype Symbol = Symbol (sym_data: "char list")

definition SYMBOL_MAX_LEN :: nat where
  "SYMBOL_MAX_LEN = 8"

definition NUL :: char where
  "NUL = CHR 0x00"

definition c_strlen :: "char list \<Rightarrow> nat" where
  "c_strlen s = length (takeWhile (\<lambda>c. c \<noteq> NUL) s)"

definition default_symbol :: Symbol where
  "default_symbol = Symbol (replicate SYMBOL_MAX_LEN NUL)"

definition symbol_of_cstr :: "char list \<Rightarrow> Symbol" where
  "symbol_of_cstr s =
     (let len = c_strlen s;
          len = (if len > SYMBOL_MAX_LEN then SYMBOL_MAX_LEN else len)
      in Symbol (take len s @ replicate (SYMBOL_MAX_LEN - len) NUL))"

definition symbol_to_string :: "Symbol \<Rightarrow> char list" where
  "symbol_to_string s = takeWhile (\<lambda>c. c \<noteq> NUL) (sym_data s)"

definition symbol_wf :: "Symbol \<Rightarrow> bool" where
  "symbol_wf s \<longleftrightarrow> length (sym_data s) = SYMBOL_MAX_LEN"

text \<open>The bytes of a symbol read as a little-endian 64-bit value, and the mixing of its hash.\<close>

fun bytes_le :: "char list \<Rightarrow> nat" where
  "bytes_le [] = 0"
| "bytes_le (c # cs) = of_char c + 256 * bytes_le cs"

definition hash_mix :: "u64 \<Rightarrow> u64" where
  "hash_mix v0 =
     (let v1 = v0 XOR drop_bit 33 v0;
          v2 = v1 * 0xff51afd7ed558ccd;
          v3 = v2 XOR drop_bit 33 v2
      in v3)"

definition symbol_hash :: "Symbol \<Rightarrow> u64" where
  "symbol_hash s = hash_mix (word_of_nat (bytes_le (sym_data s)))"

section \<open>Constants\<close>

definition INVALID_ORDER_ID :: OrderId where
  "INVALID_ORDER_ID = 0"

definition MAX_DEPTH_LEVELS :: nat where
  "MAX_DEPTH_LEVELS = 20"

definition DEFAULT_L2_DEPTH :: nat where
  "DEFAULT_L2_DEPTH = 10"

definition MAX_L2_DEPTH :: nat where
  "MAX_L2_DEPTH = 20"

definition DEFAULT_POSITION_LIMIT :: int where
  "DEFAULT_POSITION_LIMIT = 10000"

definition DEFAULT_ORDER_RATE_LIMIT :: u32 where
  "DEFAULT_ORDER_RATE_LIMIT = 1000"

definition DEFAULT_RATE_LIMIT_WINDOW_MS :: u32 where
  "DEFAULT_RATE_LIMIT_WINDOW_MS = 1000"

section \<open>Orders, requests, trades and reports\<close>

record Order =
  ord_id :: OrderId
  ord_trader_id :: TraderId
  ord_symbol :: Symbol
  ord_side :: Side
  ord_type :: OrderType
  ord_tif :: TimeInForce
  ord_price :: Price
  ord_quantity :: Quantity
  ord_filled_qty :: Quantity
  ord_status :: OrderStatus
  ord_submit_time :: Timestamp
  ord_accept_time :: Timestamp
  ord_queue_position :: u32
  ord_cl_ord_id :: string

definition default_order :: Order where
  "default_order = \<lparr>ord_id = INVALID_ORDER_ID, ord_trader_id = 0, ord_symbol = default_symbol,
     ord_side = Buy, ord_type = Limit, ord_tif = Day, ord_price = 0, ord_quantity = 0,
     ord_filled_qty = 0, ord_status = New, ord_submit_time = 0, ord_accept_time = 0,
     ord_queue_position = 0, ord_cl_ord_id = []\<rparr>"

record CancelRequest =
  cxl_order_id :: OrderId
  cxl_trader_id :: TraderId
  cxl_symbol :: Symbol
  cxl_submit_time :: Timestamp
  cxl_cl_ord_id :: string

record ReplaceRequest =
  rep_order_id :: OrderId
  rep_trader_id :: TraderId
  rep_symbol :: Symbol
  rep_new_price :: Price
  rep_new_qty :: Quantity
  rep_submit_time :: Timestamp
  rep_cl_ord_id :: string
  rep_orig_cl_ord_id :: string

record Trade =
  trd_trade_id :: u64
  trd_resting_id :: OrderId
  trd_incoming_id :: OrderId
  trd_resting_trader :: TraderId
  trd_incoming_trader :: TraderId
  trd_symbol :: Symbol
  trd_aggressor_side :: Side
  trd_price :: Price
  trd_qty :: Quantity
  trd_match_timestamp_ns :: Timestamp

record BookLevel =
  lvl_price :: Price
  lvl_qty :: Quantity
  lvl_order_count :: u32

definition zero_level :: BookLevel where
  "zero_level = \<lparr>lvl_price = 0, lvl_qty = 0, lvl_order_count = 0\<rparr>"

record TopOfBook =
  tob_symbol :: Symbol
  tob_best_bid :: BookLevel
  tob_best_ask :: BookLevel
  tob_mid_price :: Price
  tob_micro_price :: Price
  tob_spread :: Price
  tob_timestamp :: Timestamp
  tob_valid :: bool

definition default_tob :: TopOfBook where
  "default_tob = \<lparr>tob_symbol = default_symbol, tob_best_bid = zero_level,
     tob_best_ask = zero_level, tob_mid_price = 0, tob_micro_price = 0, tob_spread = 0,
     tob_timestamp = 0, tob_valid = False\<rparr>"

record ExecutionReport =
  rpt_order_id :: OrderId
  rpt_trader_id :: TraderId
  rpt_symbol :: Symbol
  rpt_side :: Side
  rpt_type :: OrderType
  rpt_status :: OrderStatus
  rpt_price :: Price
  rpt_order_qty :: Quantity
  rpt_filled_qty :: Quantity
  rpt_last_qty :: Quantity
  rpt_last_price :: Price
  rpt_leaves_qty :: Quantity
  rpt_transact_time :: Timestamp
  rpt_reject_reason :: RejectReason
  rpt_cl_ord_id :: string
  rpt_exec_id :: string

definition default_report :: ExecutionReport where
  "default_report = \<lparr>rpt_order_id = INVALID_ORDER_ID, rpt_trader_id = 0,
     rpt_symbol = default_symbol, rpt_side = Buy, rpt_type = Limit, rpt_status = New,
     rpt_price = 0, rpt_order_qty = 0, rpt_filled_qty = 0, rpt_last_qty = 0,
     rpt_last_price = 0, rpt_leaves_qty = 0, rpt_transact_time = 0,
     rpt_reject_reason = NoReject, rpt_cl_ord_id = [], rpt_exec_id = []\<rparr>"

record DepthSnapshot =
  dep_symbol :: Symbol
  dep_bids :: "BookLevel list"
  dep_asks :: "BookLevel list"
  dep_bid_levels :: u32
  dep_ask_levels :: u32
  dep_timestamp :: Timestamp

definition default_depth :: DepthSnapshot where
  "default_depth = \<lparr>dep_symbol = default_symbol,
     dep_bids = replicate MAX_DEPTH_LEVELS zero_level,
     dep_asks = replicate MAX_DEPTH_LEVELS zero_level,
     dep_bid_levels = 0, dep_ask_levels = 0, dep_timestamp = 0\<rparr>"

section \<open>Round trip of symbols, and a hash without collisions\<close>

lemma symbol_of_cstr_wf: "symbol_wf (symbol_of_cstr s)"
proof -
  have "c_strlen s \<le> length s"
    by (simp add: c_strlen_def length_takeWhile_le)
  then show ?thesis
    by (auto simp: symbol_wf_def symbol_of_cstr_def Let_def SYMBOL_MAX_LEN_def)
qed

lemma takeWhile_take_pad:
  "takeWhile P (take n (takeWhile P s) @ replicate k x) = take n (takeWhile P s)" if "\<not> P x"
proof -
  have all: "\<forall>c \<in> set (take n (takeWhile P s)). P c"
    by (meson in_set_takeD set_takeWhileD)
  have "takeWhile P (replicate k x) = []"
    using that by (cases k) simp_all
  with all show ?thesis by simp
qed

lemma take_c_strlen: "n \<le> c_strlen s \<Longrightarrow> take n s = take n (takeWhile (\<lambda>c. c \<noteq> NUL) s)"
proof -
  assume "n \<le> c_strlen s"
  then have "n \<le> length (takeWhile (\<lambda>c. c \<noteq> NUL) s)" by (simp add: c_strlen_def)
  then show ?thesis
    by (metis (lifting) append_eq_conv_conj append_take_drop_id take_append take_all_iff
        takeWhile_dropWhile_id diff_is_0_eq take0 append_Nil2)
qed

text \<open>C40. Building a symbol from a C string and printing it back gives the string up to its
  terminating NUL, cut to eight characters.\<close>

theorem symbol_roundtrip:
  "symbol_to_string (symbol_of_cstr s) = take SYMBOL_MAX_LEN (takeWhile (\<lambda>c. c \<noteq> NUL) s)"
proof -
  let ?n = "if c_strlen s > SYMBOL_MAX_LEN then SYMBOL_MAX_LEN else c_strlen s"
  have eq: "take ?n s = take ?n (takeWhile (\<lambda>c. c \<noteq> NUL) s)"
    by (rule take_c_strlen) simp
  have "symbol_to_string (symbol_of_cstr s) = take ?n (takeWhile (\<lambda>c. c \<noteq> NUL) s)"
    unfolding symbol_to_string_def symbol_of_cstr_def Let_def eq
    by (simp add: takeWhile_take_pad)
  then show ?thesis by (simp add: c_strlen_def)
qed

lemma bytes_le_bound: "bytes_le cs < 256 ^ length cs"
proof (induction cs)
  case Nil
  then show ?case by simp
next
  case (Cons c cs)
  have "of_char c < (256 :: nat)" by simp
  moreover from Cons.IH have "256 * (bytes_le cs + 1) \<le> 256 * 256 ^ length cs" by simp
  ultimately have "of_char c + 256 * bytes_le cs < 256 * 256 ^ length cs"
    unfolding distrib_left by linarith
  then show ?case by simp
qed

lemma bytes_le_inj: "length cs = length ds \<Longrightarrow> bytes_le cs = bytes_le ds \<Longrightarrow> cs = ds"
proof (induction cs ds rule: list_induct2)
  case Nil
  then show ?case by simp
next
  case (Cons c cs d ds)
  have c: "of_char c < (256 :: nat)" and d: "of_char d < (256 :: nat)" by simp_all
  from Cons.prems have eq: "of_char c + 256 * bytes_le cs = of_char d + 256 * bytes_le ds"
    by simp
  from arg_cong [OF eq, of "\<lambda>n. n mod 256"] c d have cd: "of_char c = (of_char d :: nat)"
    by simp
  with eq have "bytes_le cs = bytes_le ds" by simp
  with Cons.IH cd show ?case by simp
qed

lemma xor_shift_33_involution:
  fixes x :: u64
  shows "(x XOR drop_bit 33 x) XOR drop_bit 33 (x XOR drop_bit 33 x) = x"
proof -
  have "drop_bit 33 (drop_bit 33 x) = 0"
    by (rule bit_eqI) (auto simp: bit_simps dest: bit_imp_le_length)
  then show ?thesis by (simp add: xor.assoc)
qed

lemma hash_mix_inj: "hash_mix v = hash_mix w \<Longrightarrow> v = w"
proof -
  let ?f = "\<lambda>x :: u64. x XOR drop_bit 33 x"
  let ?c = "0xff51afd7ed558ccd :: u64"
  have f: "?f (?f x) = x" for x by (rule xor_shift_33_involution)
  have inv: "?c * 5725274745694666757 = 1" by simp
  assume "hash_mix v = hash_mix w"
  then have "?f (?f v * ?c) = ?f (?f w * ?c)" by (simp add: hash_mix_def Let_def)
  then have "?f v * ?c = ?f w * ?c" by (metis f)
  then have "?f v * ?c * 5725274745694666757 = ?f w * ?c * 5725274745694666757"
    by (rule arg_cong)
  then have "?f v = ?f w" unfolding mult.assoc inv by (simp only: mult_1_right)
  then show "v = w" by (metis f)
qed

text \<open>The symbol hash is injective on well-formed symbols: two different symbols never share
  a hash value, so the mixing loses no information.\<close>

theorem symbol_hash_injective:
  assumes "symbol_wf s" and "symbol_wf t" and "symbol_hash s = symbol_hash t"
  shows "s = t"
proof -
  from assms have len: "length (sym_data s) = 8" "length (sym_data t) = 8"
    by (simp_all add: symbol_wf_def SYMBOL_MAX_LEN_def)
  have bound: "bytes_le (sym_data u) < 2 ^ 64" if "length (sym_data u) = 8" for u
    using bytes_le_bound [of "sym_data u"] that by simp
  from assms(3) have "(word_of_nat (bytes_le (sym_data s)) :: u64)
      = word_of_nat (bytes_le (sym_data t))"
    unfolding symbol_hash_def by (rule hash_mix_inj)
  then have "unat (word_of_nat (bytes_le (sym_data s)) :: u64)
      = unat (word_of_nat (bytes_le (sym_data t)) :: u64)" by simp
  then have "bytes_le (sym_data s) = bytes_le (sym_data t)"
    using bound [OF len(1)] bound [OF len(2)] by (simp add: unat_of_nat)
  with len have "sym_data s = sym_data t" by (intro bytes_le_inj) simp_all
  then show ?thesis by (rule Symbol.expand)
qed

theorem symbol_hash_injective_witness:
  "symbol_of_cstr ''AAPL'' = symbol_of_cstr [CHR ''A'', CHR ''A'', CHR ''P'', CHR ''L'', NUL, CHR ''X'']"
  by (rule symbol_hash_injective [OF symbol_of_cstr_wf symbol_of_cstr_wf])
    (simp add: symbol_of_cstr_def c_strlen_def NUL_def SYMBOL_MAX_LEN_def)

end
