(* ===== verification/Price_Levels.thy ===== *)
theory Price_Levels
  imports HFT_Types "HOL-Library.Multiset"
begin

text \<open>
  The container both order books are built on: \<^verbatim>\<open>std::map<Price, std::list<Order>, Cmp>\<close>.
  A map is a list of price and queue pairs in the order of its comparator \<open>before\<close>; a queue
  lists its nodes front to back.  Each node carries the handle that stands for its address:
  a list iterator of the source is such a handle, it stays valid until its node is erased,
  whatever happens to the other nodes.

  \<open>lv_flat\<close> lists all entries in the iteration order of the source, best price first and
  oldest first within a price.  The locale \<open>price_order\<close> is the contract of the comparator;
  it is interpreted on the two comparators of the source, \<^verbatim>\<open>std::greater\<close> for bids and
  \<^verbatim>\<open>std::less\<close> for asks.
\<close>

type_synonym node = nat
type_synonym 'o queue = "(node \<times> 'o) list"
type_synonym 'o levels = "(Price \<times> 'o queue) list"

section \<open>Operations\<close>

text \<open>\<^verbatim>\<open>levels[p].push_back(o)\<close>: the level is created at its place when it is missing.\<close>

fun lv_append :: "(Price \<Rightarrow> Price \<Rightarrow> bool) \<Rightarrow> Price \<Rightarrow> node \<times> 'o \<Rightarrow> 'o levels \<Rightarrow> 'o levels" where
  "lv_append before p x [] = [(p, [x])]"
| "lv_append before p x ((q, ys) # L) =
     (if p = q then (q, ys @ [x]) # L
      else if before p q then (p, [x]) # (q, ys) # L
      else (q, ys) # lv_append before p x L)"

text \<open>Writing through a reference to an existing level, and \<^verbatim>\<open>levels.erase\<close>.\<close>

definition lv_set :: "Price \<Rightarrow> 'o queue \<Rightarrow> 'o levels \<Rightarrow> 'o levels" where
  "lv_set p ys L = map (\<lambda>(q, zs). (q, if q = p then ys else zs)) L"

definition lv_erase :: "Price \<Rightarrow> 'o levels \<Rightarrow> 'o levels" where
  "lv_erase p L = filter (\<lambda>(q, _). q \<noteq> p) L"

text \<open>\<^verbatim>\<open>queue.erase(it)\<close>, and reading through an iterator; \<open>None\<close> when it dangles.\<close>

definition q_erase :: "node \<Rightarrow> 'o queue \<Rightarrow> 'o queue" where
  "q_erase h ys = filter (\<lambda>(k, _). k \<noteq> h) ys"

definition lv_deref :: "'o levels \<Rightarrow> Price \<Rightarrow> node \<Rightarrow> 'o option" where
  "lv_deref L p h = (case map_of L p of None \<Rightarrow> None | Some ys \<Rightarrow> map_of ys h)"

definition lv_flat :: "'o levels \<Rightarrow> (Price \<times> node \<times> 'o) list" where
  "lv_flat L = concat (map (\<lambda>(p, ys). map (Pair p) ys) L)"

section \<open>Shape\<close>

definition lv_ok :: "(Price \<Rightarrow> Price \<Rightarrow> bool) \<Rightarrow> 'o levels \<Rightarrow> bool" where
  "lv_ok before L \<longleftrightarrow> sorted_wrt before (map fst L) \<and> (\<forall>(p, ys) \<in> set L. ys \<noteq> [])"

definition nodes_of :: "'o levels \<Rightarrow> node list" where
  "nodes_of L = map (\<lambda>(p, h, r). h) (lv_flat L)"

lemma lv_flat_Nil [simp]: "lv_flat [] = []"
  by (simp add: lv_flat_def)

lemma lv_flat_Cons [simp]: "lv_flat ((p, ys) # L) = map (Pair p) ys @ lv_flat L"
  by (simp add: lv_flat_def)

lemma in_set_lv_flat:
  "(p, h, r) \<in> set (lv_flat L) \<longleftrightarrow> (\<exists>ys. (p, ys) \<in> set L \<and> (h, r) \<in> set ys)"
  by (induction L) auto

lemma lv_ok_Nil [simp]: "lv_ok before []"
  by (simp add: lv_ok_def)

lemma lv_ok_Cons:
  "lv_ok before ((p, ys) # L) \<longleftrightarrow> ys \<noteq> [] \<and> (\<forall>q \<in> fst ` set L. before p q) \<and> lv_ok before L"
  by (auto simp: lv_ok_def)

lemma fst_lv_flat: "lv_ok before L \<Longrightarrow> fst ` set (lv_flat L) = fst ` set L"
proof (induction L)
  case (Cons l L)
  obtain q ys where l: "l = (q, ys)" by (cases l)
  with Cons.prems have "ys \<noteq> []" by (simp add: lv_ok_Cons)
  then have "fst ` Pair q ` set ys = {q}" by (simp add: image_image image_constant_conv)
  with Cons show ?case by (simp add: l lv_ok_Cons image_Un)
qed simp

lemma lv_ok_flat_empty: "lv_ok before L \<Longrightarrow> lv_flat L = [] \<longleftrightarrow> L = []"
  by (cases L) (auto simp: lv_ok_Cons)

lemma mset_lv_append:
  "mset (lv_flat (lv_append before p x L)) = add_mset (p, x) (mset (lv_flat L))"
  by (induction before p x L rule: lv_append.induct) auto

lemma set_lv_append [simp]:
  "set (lv_flat (lv_append before p x L)) = insert (p, x) (set (lv_flat L))"
  by (metis mset_lv_append set_mset_add_mset_insert set_mset_mset)

lemma length_lv_append [simp]:
  "length (lv_flat (lv_append before p x L)) = Suc (length (lv_flat L))"
  by (metis mset_lv_append size_add_mset size_mset)

lemma mset_nodes_lv_append:
  "mset (nodes_of (lv_append before p (h, r) L)) = add_mset h (mset (nodes_of L))"
  by (simp add: nodes_of_def mset_lv_append)

lemma distinct_mset_eq: "mset xs = mset ys \<Longrightarrow> distinct xs = distinct ys"
  by (metis mset_eq_imp_distinct_iff)

lemma fst_set_lv_append: "fst ` set (lv_append before p x L) = insert p (fst ` set L)"
  by (induction before p x L rule: lv_append.induct) auto

lemma map_fst_lv_set [simp]: "map fst (lv_set p ys L) = map fst L"
  by (simp add: lv_set_def comp_def case_prod_beta)

lemma lv_flat_append [simp]: "lv_flat (L @ K) = lv_flat L @ lv_flat K"
  by (simp add: lv_flat_def)

lemma nodes_of_Cons [simp]: "nodes_of ((p, ys) # L) = map fst ys @ nodes_of L"
  by (simp add: nodes_of_def comp_def case_prod_beta)

lemma nodes_of_append [simp]: "nodes_of (L @ K) = nodes_of L @ nodes_of K"
  by (simp add: nodes_of_def)

lemma distinct_queue: "(p, ys) \<in> set L \<Longrightarrow> distinct (nodes_of L) \<Longrightarrow> distinct (map fst ys)"
  by (auto dest!: split_list)

section \<open>The comparator contract\<close>

locale price_order =
  fixes before :: "Price \<Rightarrow> Price \<Rightarrow> bool"
  assumes before_irrefl: "\<not> before p p"
    and before_trans: "before p q \<Longrightarrow> before q r \<Longrightarrow> before p r"
    and before_total: "p \<noteq> q \<Longrightarrow> before p q \<or> before q p"
begin

lemma before_asym: "before p q \<Longrightarrow> \<not> before q p"
  using before_irrefl before_trans by blast

lemma keys_distinct: "lv_ok before L \<Longrightarrow> distinct (map fst L)"
  by (induction L) (use before_irrefl in \<open>fastforce simp: lv_ok_Cons\<close>)+

lemma append_ok: "lv_ok before L \<Longrightarrow> lv_ok before (lv_append before p x L)"
proof (induction L)
  case Nil
  then show ?case by (simp add: lv_ok_Cons)
next
  case (Cons l L)
  obtain q ys where l: "l = (q, ys)" by (cases l)
  from Cons.prems have ok: "ys \<noteq> []" "lv_ok before L" and worse: "\<forall>r \<in> fst ` set L. before q r"
    by (simp_all add: l lv_ok_Cons)
  consider "p = q" | "before p q" "p \<noteq> q" | "before q p" "p \<noteq> q" "\<not> before p q"
    using before_total before_asym by blast
  then show ?case
  proof cases
    case 1
    with ok worse show ?thesis by (simp add: l lv_ok_Cons)
  next
    case 2
    with worse have "\<forall>r \<in> fst ` set L. before p r" using before_trans by blast
    with 2 ok worse show ?thesis by (simp add: l lv_ok_Cons)
  next
    case 3
    with Cons.IH ok worse show ?thesis by (simp add: l lv_ok_Cons fst_set_lv_append)
  qed
qed

lemma erase_ok: "lv_ok before L \<Longrightarrow> lv_ok before (lv_erase p L)"
  by (induction L) (auto simp: lv_ok_Cons lv_erase_def)

lemma set_ok: "lv_ok before L \<Longrightarrow> ys \<noteq> [] \<Longrightarrow> lv_ok before (lv_set p ys L)"
  unfolding lv_ok_def by (auto simp: map_fst_lv_set) (auto simp: lv_set_def split: if_splits)

lemma level_split:
  assumes "lv_ok before L" and "map_of L p = Some ys"
  obtains L1 L2 where "L = L1 @ (p, ys) # L2" "lv_erase p L = L1 @ L2"
    "\<And>zs. lv_set p zs L = L1 @ (p, zs) # L2"
proof -
  from assms(2) have "(p, ys) \<in> set L" by (rule map_of_SomeD)
  then obtain L1 L2 where L: "L = L1 @ (p, ys) # L2" by (auto dest: split_list)
  with keys_distinct [OF assms(1)] have fresh: "p \<notin> fst ` set L1" "p \<notin> fst ` set L2" by auto
  have filt: "filter (\<lambda>(q, _). q \<noteq> p) K = K" if "p \<notin> fst ` set K" for K :: "'c levels"
    using that by (force simp: filter_id_conv)
  have keep: "map (\<lambda>(q, zs'). (q, if q = p then zs else zs')) K = K" if "p \<notin> fst ` set K"
    for zs and K :: "'c levels"
    using that by (intro map_idI) force
  show thesis
    by (rule that [OF L]) (simp_all add: L lv_erase_def lv_set_def filt keep fresh)
qed

lemma map_of_level: "lv_ok before L \<Longrightarrow> map_of L p = Some ys \<longleftrightarrow> (p, ys) \<in> set L"
  by (auto dest: map_of_SomeD simp: keys_distinct)

text \<open>A new order queues behind every order of the same or a better price and in front of
  every order of a worse one.\<close>

lemma append_priority:
  "lv_ok before L \<Longrightarrow>
    lv_flat (lv_append before p x L) =
      filter (\<lambda>(q, _). \<not> before p q) (lv_flat L) @ (p, x) # filter (\<lambda>(q, _). before p q) (lv_flat L)"
proof (induction L)
  case Nil
  then show ?case by simp
next
  case (Cons l L)
  obtain q ys where l: "l = (q, ys)" by (cases l)
  have worse: "\<forall>(q', x) \<in> set (lv_flat L). before q q'"
    using Cons.prems fst_lv_flat [of before L] by (force simp: l lv_ok_Cons)
  have map_t: "filter (\<lambda>(q', _). P q') (map (Pair q) ys) = (if P q then map (Pair q) ys else [])" for P
    by (auto simp: filter_map comp_def)
  consider "p = q" | "before p q" "p \<noteq> q" | "before q p" "p \<noteq> q"
    using before_total by blast
  then show ?case
  proof cases
    case 1
    have "filter (\<lambda>(q', _). \<not> before p q') (lv_flat L) = []"
      using worse 1 by (auto simp: filter_empty_conv)
    moreover have "filter (\<lambda>(q', _). before p q') (lv_flat L) = lv_flat L"
      using worse 1 by (auto simp: filter_id_conv)
    ultimately show ?thesis using 1 by (simp add: l map_t before_irrefl)
  next
    case 2
    then have "\<forall>(q', x) \<in> set (lv_flat L). before p q'"
      using worse before_trans by fastforce
    then have "filter (\<lambda>(q', _). before p q') (lv_flat L) = lv_flat L"
      and "filter (\<lambda>(q', _). \<not> before p q') (lv_flat L) = []"
      by (auto simp: filter_id_conv filter_empty_conv)
    with 2 show ?thesis by (simp add: l map_t)
  next
    case 3
    then have "\<not> before p q" using before_asym by blast
    with 3 Cons show ?thesis by (simp add: l map_t lv_ok_Cons)
  qed
qed

text \<open>Reading through an iterator whose node is in the map.\<close>

lemma deref_iff:
  assumes ok: "lv_ok before L" and dist: "distinct (nodes_of L)"
  shows "lv_deref L p h = Some r \<longleftrightarrow> (p, h, r) \<in> set (lv_flat L)"
proof (cases "map_of L p")
  case None
  then have "p \<notin> fst ` set L" by (simp add: map_of_eq_None_iff)
  then have "(p, h, r) \<notin> set (lv_flat L)" by (force simp: in_set_lv_flat)
  with None show ?thesis by (simp add: lv_deref_def)
next
  case (Some ys)
  then have mem: "(p, ys') \<in> set L \<longleftrightarrow> ys' = ys" for ys'
    using map_of_level [OF ok] by (metis option.inject)
  have "distinct (map fst ys)"
    using mem dist distinct_queue [of p ys L] by blast
  then show ?thesis by (simp add: lv_deref_def Some in_set_lv_flat mem)
qed

end

interpretation bid_order: price_order "(>)"
  by unfold_locales auto

interpretation ask_order: price_order "(<)"
  by unfold_locales auto

end
