(* ===== verification/L3_Book.thy ===== *)
theory L3_Book
  imports Price_Levels
begin

text \<open>
  The L3 order book of \<^verbatim>\<open>src/src/orderbook/l3_order_book.h\<close> and \<^verbatim>\<open>.cpp\<close>: its state and every
  operation, in the order of the source.  The two maps of price levels are the \<open>levels\<close> of
  \<^verbatim>\<open>Price_Levels\<close>; \<open>order_index\<close> holds side, price and list iterator (the node handle).

  The two branches of the source on the side of an order differ only in the map, the
  comparator and the counter they use, which \<open>levels_of\<close>, \<open>before_of\<close> and \<open>bump_count\<close> select.
  Installed callbacks are invoked synchronously and never call back into the book; the model
  appends each invocation to \<open>bk_log\<close>, in the order of the source.  \<open>next_node\<close> supplies the
  address of the next list node.  An operation that reads through a list iterator returns
  \<open>None\<close> when the iterator dangles, which is undefined behaviour in the source.
\<close>

section \<open>State\<close>

record L3Order =
  l3_id :: OrderId
  l3_trader_id :: TraderId
  l3_side :: Side
  l3_price :: Price
  l3_visible_qty :: Quantity
  l3_hidden_qty :: Quantity
  l3_filled_qty :: Quantity
  l3_entry_time :: Timestamp
  l3_queue_pos :: u32
  l3_is_iceberg :: bool
  l3_cl_ord_id :: string

record OrderLocation =
  loc_side :: Side
  loc_price :: Price
  loc_it :: node

datatype BookEvent = TradeEvent Trade | TobEvent TopOfBook

record L3OrderBook =
  bk_symbol :: Symbol
  bids :: "L3Order levels"
  asks :: "L3Order levels"
  order_index :: "OrderId \<Rightarrow> OrderLocation option"
  trade_count :: u64
  next_trade_id :: u64
  total_volume :: Quantity
  last_trade_price :: Price
  bid_order_count :: u64
  ask_order_count :: u64
  trade_cb :: bool
  tob_cb :: bool
  depth_cb :: bool
  next_node :: node
  bk_log :: "BookEvent list"

definition new_book :: "Symbol \<Rightarrow> L3OrderBook" where
  "new_book symbol = \<lparr>bk_symbol = symbol, bids = [], asks = [], order_index = (\<lambda>_. None),
     trade_count = 0, next_trade_id = 1, total_volume = 0, last_trade_price = 0,
     bid_order_count = 0, ask_order_count = 0, trade_cb = False, tob_cb = False,
     depth_cb = False, next_node = 0, bk_log = []\<rparr>"

definition on_trade :: "L3OrderBook \<Rightarrow> L3OrderBook" where
  "on_trade b = b\<lparr>trade_cb := True\<rparr>"

definition on_top_of_book :: "L3OrderBook \<Rightarrow> L3OrderBook" where
  "on_top_of_book b = b\<lparr>tob_cb := True\<rparr>"

text \<open>The depth callback can be installed, but no operation invokes it.\<close>

definition on_depth :: "L3OrderBook \<Rightarrow> L3OrderBook" where
  "on_depth b = b\<lparr>depth_cb := True\<rparr>"

fun before_of :: "Side \<Rightarrow> Price \<Rightarrow> Price \<Rightarrow> bool" where
  "before_of Buy = (\<lambda>p q. p > q)"
| "before_of Sell = (\<lambda>p q. p < q)"

fun levels_of :: "Side \<Rightarrow> L3OrderBook \<Rightarrow> L3Order levels" where
  "levels_of Buy b = bids b"
| "levels_of Sell b = asks b"

fun set_levels :: "Side \<Rightarrow> L3Order levels \<Rightarrow> L3OrderBook \<Rightarrow> L3OrderBook" where
  "set_levels Buy L b = b\<lparr>bids := L\<rparr>"
| "set_levels Sell L b = b\<lparr>asks := L\<rparr>"

fun count_of :: "Side \<Rightarrow> L3OrderBook \<Rightarrow> u64" where
  "count_of Buy b = bid_order_count b"
| "count_of Sell b = ask_order_count b"

fun bump_count :: "Side \<Rightarrow> u64 \<Rightarrow> L3OrderBook \<Rightarrow> L3OrderBook" where
  "bump_count Buy d b = b\<lparr>bid_order_count := bid_order_count b + d\<rparr>"
| "bump_count Sell d b = b\<lparr>ask_order_count := ask_order_count b + d\<rparr>"

fun opposite :: "Side \<Rightarrow> Side" where
  "opposite Buy = Sell"
| "opposite Sell = Buy"

section \<open>Queries\<close>

text \<open>The loop over one queue that sums visible quantity and counts orders.\<close>

definition level_total :: "L3Order queue \<Rightarrow> Quantity \<times> u32" where
  "level_total q = foldl (\<lambda>(total, count) (h, r). (i64 (total + l3_visible_qty r), count + 1)) (0, 0) q"

definition book_level :: "Price \<times> L3Order queue \<Rightarrow> BookLevel" where
  "book_level pq = (case pq of (p, q) \<Rightarrow>
     \<lparr>lvl_price = p, lvl_qty = fst (level_total q), lvl_order_count = snd (level_total q)\<rparr>)"

definition best_level :: "L3Order levels \<Rightarrow> BookLevel option" where
  "best_level L = (case L of [] \<Rightarrow> None | pq # _ \<Rightarrow> Some (book_level pq))"

definition best_bid :: "L3OrderBook \<Rightarrow> BookLevel option" where
  "best_bid b = best_level (bids b)"

definition best_ask :: "L3OrderBook \<Rightarrow> BookLevel option" where
  "best_ask b = best_level (asks b)"

definition top_of_book :: "Timestamp \<Rightarrow> L3OrderBook \<Rightarrow> TopOfBook" where
  "top_of_book ts b =
     (let tob = default_tob\<lparr>tob_symbol := bk_symbol b, tob_timestamp := ts\<rparr>
      in case (best_bid b, best_ask b) of
        (Some bb, Some ba) \<Rightarrow>
          (let mid = tdiv (i64 (lvl_price bb + lvl_price ba)) 2;
               total_qty = i64 (lvl_qty bb + lvl_qty ba);
               micro = (if total_qty > 0
                 then tdiv (i64 (i64 (lvl_price bb * lvl_qty ba) + i64 (lvl_price ba * lvl_qty bb)))
                        total_qty
                 else mid)
           in tob\<lparr>tob_valid := True, tob_best_bid := bb, tob_best_ask := ba,
                tob_mid_price := mid, tob_spread := i64 (lvl_price ba - lvl_price bb),
                tob_micro_price := micro\<rparr>)
      | (Some bb, None) \<Rightarrow>
          tob\<lparr>tob_valid := True, tob_best_bid := bb, tob_mid_price := lvl_price bb\<rparr>
      | (None, Some ba) \<Rightarrow>
          tob\<lparr>tob_valid := True, tob_best_ask := ba, tob_mid_price := lvl_price ba\<rparr>
      | (None, None) \<Rightarrow> tob)"

text \<open>The depth loops stop after \<open>levels\<close> entries.\<close>

fun depth_loop :: "nat \<Rightarrow> nat \<Rightarrow> L3Order levels \<Rightarrow> BookLevel list" where
  "depth_loop n levels [] = []"
| "depth_loop n levels (pq # L) =
     (if n \<ge> levels then [] else book_level pq # depth_loop (Suc n) levels L)"

definition bid_depth :: "nat \<Rightarrow> L3OrderBook \<Rightarrow> BookLevel list" where
  "bid_depth levels b = depth_loop 0 levels (bids b)"

definition ask_depth :: "nat \<Rightarrow> L3OrderBook \<Rightarrow> BookLevel list" where
  "ask_depth levels b = depth_loop 0 levels (asks b)"

definition orders_at_price :: "Side \<Rightarrow> Price \<Rightarrow> L3OrderBook \<Rightarrow> L3Order list" where
  "orders_at_price sd p b =
     (case map_of (levels_of sd b) p of None \<Rightarrow> [] | Some q \<Rightarrow> map snd q)"

definition deref :: "L3OrderBook \<Rightarrow> OrderLocation \<Rightarrow> L3Order option" where
  "deref b loc = lv_deref (levels_of (loc_side loc) b) (loc_price loc) (loc_it loc)"

definition queue_position :: "OrderId \<Rightarrow> L3OrderBook \<Rightarrow> u32 option" where
  "queue_position oid b =
     (case order_index b oid of None \<Rightarrow> Some (- 1)
      | Some loc \<Rightarrow> map_option l3_queue_pos (deref b loc))"

fun ahead_loop :: "OrderId \<Rightarrow> Quantity \<Rightarrow> L3Order queue \<Rightarrow> Quantity" where
  "ahead_loop oid ahead [] = ahead"
| "ahead_loop oid ahead ((h, r) # q) =
     (if l3_id r = oid then ahead else ahead_loop oid (i64 (ahead + l3_visible_qty r)) q)"

definition quantity_ahead :: "OrderId \<Rightarrow> L3OrderBook \<Rightarrow> Quantity" where
  "quantity_ahead oid b =
     (case order_index b oid of None \<Rightarrow> 0
      | Some loc \<Rightarrow>
          (case map_of (levels_of (loc_side loc) b) (loc_price loc) of None \<Rightarrow> 0
           | Some q \<Rightarrow> ahead_loop oid 0 q))"

definition publish_tob :: "Timestamp \<Rightarrow> L3OrderBook \<Rightarrow> L3OrderBook" where
  "publish_tob ts b =
     (if tob_cb b then b\<lparr>bk_log := bk_log b @ [TobEvent (top_of_book ts b)]\<rparr> else b)"

section \<open>Matching\<close>

record match_state =
  ms_remaining :: Quantity
  ms_trades :: "Trade list"
  ms_book :: L3OrderBook

text \<open>Reducing the resting order and replenishing an iceberg.\<close>

definition reduce_resting :: "Quantity \<Rightarrow> L3Order \<Rightarrow> L3Order" where
  "reduce_resting match_qty r0 =
     (let r = r0\<lparr>l3_filled_qty := i64 (l3_filled_qty r0 + match_qty)\<rparr>;
          r = (if match_qty \<le> l3_visible_qty r
               then r\<lparr>l3_visible_qty := i64 (l3_visible_qty r - match_qty)\<rparr>
               else let from_hidden = i64 (match_qty - l3_visible_qty r)
                    in r\<lparr>l3_visible_qty := 0, l3_hidden_qty := i64 (l3_hidden_qty r - from_hidden)\<rparr>)
      in if l3_visible_qty r = 0 \<and> l3_hidden_qty r > 0 \<and> l3_is_iceberg r
         then let replenish = min (l3_hidden_qty r) 100
              in r\<lparr>l3_visible_qty := replenish, l3_hidden_qty := i64 (l3_hidden_qty r - replenish)\<rparr>
         else r)"

text \<open>One round of the inner loop up to the removal test: the trade, the counters, the callback.\<close>

definition match_one ::
  "Order \<Rightarrow> Price \<Rightarrow> Timestamp \<Rightarrow> L3Order \<Rightarrow> match_state \<Rightarrow> L3Order \<times> match_state" where
  "match_one incoming level_price ts resting s =
     (let b = ms_book s;
          resting_available = i64 (l3_visible_qty resting + l3_hidden_qty resting);
          match_qty = min (ms_remaining s) resting_available;
          trade = \<lparr>trd_trade_id = next_trade_id b, trd_resting_id = l3_id resting,
            trd_incoming_id = ord_id incoming, trd_resting_trader = l3_trader_id resting,
            trd_incoming_trader = ord_trader_id incoming, trd_symbol = bk_symbol b,
            trd_aggressor_side = ord_side incoming, trd_price = level_price,
            trd_qty = match_qty, trd_match_timestamp_ns = ts\<rparr>;
          b1 = b\<lparr>next_trade_id := next_trade_id b + 1, trade_count := trade_count b + 1,
            total_volume := i64 (total_volume b + match_qty), last_trade_price := level_price\<rparr>;
          b2 = (if trade_cb b1 then b1\<lparr>bk_log := bk_log b1 @ [TradeEvent trade]\<rparr> else b1)
      in (reduce_resting match_qty resting,
          \<lparr>ms_remaining = i64 (ms_remaining s - match_qty),
           ms_trades = ms_trades s @ [trade], ms_book = b2\<rparr>))"

text \<open>The fully filled order leaves the index and its side's counter.\<close>

definition drop_filled :: "L3Order \<Rightarrow> match_state \<Rightarrow> match_state" where
  "drop_filled resting s =
     (let b = ms_book s;
          b1 = b\<lparr>order_index := (order_index b)(l3_id resting := None)\<rparr>
      in s\<lparr>ms_book := bump_count (l3_side resting) (- 1) b1\<rparr>)"

fun match_queue ::
  "Order \<Rightarrow> Price \<Rightarrow> Timestamp \<Rightarrow> L3Order queue \<Rightarrow> match_state \<Rightarrow> L3Order queue \<times> match_state" where
  "match_queue incoming level_price ts [] s = ([], s)"
| "match_queue incoming level_price ts ((h, resting) # q) s =
     (if \<not> ms_remaining s > 0 then ((h, resting) # q, s)
      else let (resting', s1) = match_one incoming level_price ts resting s
           in if i64 (l3_visible_qty resting' + l3_hidden_qty resting') = 0
              then match_queue incoming level_price ts q (drop_filled resting' s1)
              else let (q', s2) = match_queue incoming level_price ts q s1
                   in ((h, resting') # q', s2))"

text \<open>The price check of a limit order that ends the outer loop.\<close>

definition price_break :: "Order \<Rightarrow> Price \<Rightarrow> bool" where
  "price_break incoming level_price \<longleftrightarrow>
     ord_type incoming = Limit \<and>
     (ord_side incoming = Buy \<and> level_price > ord_price incoming \<or>
      ord_side incoming = Sell \<and> level_price < ord_price incoming)"

fun match_against ::
  "Order \<Rightarrow> Timestamp \<Rightarrow> L3Order levels \<Rightarrow> match_state \<Rightarrow> L3Order levels \<times> match_state" where
  "match_against incoming ts [] s = ([], s)"
| "match_against incoming ts ((p, q) # L) s =
     (if \<not> ms_remaining s > 0 then ((p, q) # L, s)
      else if price_break incoming p then ((p, q) # L, s)
      else let (q', s1) = match_queue incoming p ts q s;
               (L', s2) = match_against incoming ts L s1
           in (if q' = [] then L' else (p, q') # L', s2))"

text \<open>The fill-or-kill test: available quantity up to the price limit, stopping when enough.\<close>

fun fok_available :: "Order \<Rightarrow> Quantity \<Rightarrow> L3Order levels \<Rightarrow> Quantity" where
  "fok_available order available [] = available"
| "fok_available order available ((p, q) # L) =
     (if price_break order p then available
      else let available' = foldl (\<lambda>a (h, r). i64 (a + i64 (l3_visible_qty r + l3_hidden_qty r)))
                 available q
           in if available' \<ge> ord_quantity order then available'
              else fok_available order available' L)"

record MatchResult =
  res_trades :: "Trade list"
  res_remaining_qty :: Quantity
  res_fully_filled :: bool

definition match_incoming :: "Order \<Rightarrow> Timestamp \<Rightarrow> L3OrderBook \<Rightarrow> MatchResult \<times> L3OrderBook" where
  "match_incoming order ts b =
     (let opp = opposite (ord_side order) in
      if ord_tif order = FOK \<and> fok_available order 0 (levels_of opp b) < ord_quantity order
      then (\<lparr>res_trades = [], res_remaining_qty = ord_quantity order, res_fully_filled = False\<rparr>, b)
      else let (L, s) = match_against order ts (levels_of opp b)
                 \<lparr>ms_remaining = ord_quantity order, ms_trades = [], ms_book = b\<rparr>
           in (\<lparr>res_trades = ms_trades s, res_remaining_qty = ms_remaining s,
                res_fully_filled = (ms_remaining s = 0)\<rparr>, set_levels opp L (ms_book s)))"

section \<open>Resting, adding, cancelling, replacing\<close>

definition resting_order :: "Order \<Rightarrow> Quantity \<Rightarrow> Timestamp \<Rightarrow> L3Order" where
  "resting_order order remaining ts =
     \<lparr>l3_id = ord_id order, l3_trader_id = ord_trader_id order, l3_side = ord_side order,
      l3_price = ord_price order, l3_visible_qty = remaining, l3_hidden_qty = 0,
      l3_filled_qty = i64 (ord_quantity order - remaining), l3_entry_time = ts,
      l3_queue_pos = 0, l3_is_iceberg = False, l3_cl_ord_id = ord_cl_ord_id order\<rparr>"

definition add_resting_order :: "Order \<Rightarrow> Quantity \<Rightarrow> Timestamp \<Rightarrow> L3OrderBook \<Rightarrow> L3OrderBook" where
  "add_resting_order order remaining ts b =
     (let sd = ord_side order; p = ord_price order; L = levels_of sd b;
          size = (case map_of L p of None \<Rightarrow> 0 | Some q \<Rightarrow> length q) + 1;
          l3 = (resting_order order remaining ts)\<lparr>l3_queue_pos := word_of_nat (size - 1)\<rparr>;
          h = next_node b;
          b1 = set_levels sd (lv_append (before_of sd) p (h, l3) L) (b\<lparr>next_node := h + 1\<rparr>);
          b2 = b1\<lparr>order_index := (order_index b1)(ord_id order \<mapsto>
                 \<lparr>loc_side = sd, loc_price = p, loc_it = h\<rparr>)\<rparr>
      in bump_count sd 1 b2)"

definition add_order :: "Order \<Rightarrow> Timestamp \<Rightarrow> L3OrderBook \<Rightarrow> ExecutionReport \<times> L3OrderBook" where
  "add_order order ts b =
     (let rpt = default_report\<lparr>rpt_order_id := ord_id order, rpt_trader_id := ord_trader_id order,
            rpt_symbol := ord_symbol order, rpt_side := ord_side order, rpt_type := ord_type order,
            rpt_price := ord_price order, rpt_order_qty := ord_quantity order,
            rpt_transact_time := ts, rpt_cl_ord_id := ord_cl_ord_id order\<rparr>
      in if order_index b (ord_id order) \<noteq> None
      then (rpt\<lparr>rpt_status := Rejected, rpt_reject_reason := DuplicateOrderId,
              rpt_leaves_qty := 0\<rparr>, b)
      else let (result, b1) = match_incoming order ts b;
             remaining = res_remaining_qty result; trades = res_trades result;
             filled = i64 (ord_quantity order - remaining);
             rpt = rpt\<lparr>rpt_filled_qty := filled, rpt_leaves_qty := remaining\<rparr>;
             rpt = (if remaining = 0 then rpt\<lparr>rpt_status := Filled\<rparr>
               else if filled > 0 then
                 (if trades \<noteq> []
                  then rpt\<lparr>rpt_status := PartiallyFilled, rpt_last_qty := trd_qty (last trades),
                         rpt_last_price := trd_price (last trades)\<rparr>
                  else rpt\<lparr>rpt_status := PartiallyFilled\<rparr>)
               else rpt\<lparr>rpt_status := New\<rparr>);
             (rpt, b2) =
               (if remaining > 0 \<and> ord_type order = Limit then
                  (case ord_tif order of
                     Day \<Rightarrow> (rpt, add_resting_order order remaining ts b1)
                   | GTC \<Rightarrow> (rpt, add_resting_order order remaining ts b1)
                   | IOC \<Rightarrow> (rpt\<lparr>rpt_status := (if filled > 0 then PartiallyFilled else Canceled),
                              rpt_leaves_qty := 0\<rparr>, b1)
                   | FOK \<Rightarrow> (rpt\<lparr>rpt_status := Rejected,
                              rpt_reject_reason := InsufficientLiquidity,
                              rpt_filled_qty := 0, rpt_leaves_qty := 0\<rparr>, b1))
                else (rpt, b1))
           in (rpt, if trades \<noteq> [] \<or> rpt_status rpt = New then publish_tob ts b2 else b2))"

text \<open>Renumbering the positions of one queue.\<close>

fun renumber :: "u32 \<Rightarrow> L3Order queue \<Rightarrow> L3Order queue" where
  "renumber pos [] = []"
| "renumber pos ((h, r) # q) = (h, r\<lparr>l3_queue_pos := pos\<rparr>) # renumber (pos + 1) q"

definition update_queue_positions :: "Side \<Rightarrow> Price \<Rightarrow> L3OrderBook \<Rightarrow> L3OrderBook" where
  "update_queue_positions sd p b =
     (case map_of (levels_of sd b) p of None \<Rightarrow> b
      | Some q \<Rightarrow> set_levels sd (lv_set p (renumber 0 q) (levels_of sd b)) b)"

definition remove_from_book :: "OrderLocation \<Rightarrow> L3OrderBook \<Rightarrow> L3OrderBook" where
  "remove_from_book loc b =
     (let sd = loc_side loc; p = loc_price loc; L = levels_of sd b;
          b1 = (case map_of L p of None \<Rightarrow> b
            | Some q \<Rightarrow>
                (let q' = q_erase (loc_it loc) q in
                 if q' = [] then set_levels sd (lv_erase p L) b
                 else update_queue_positions sd p (set_levels sd (lv_set p q' L) b)))
      in bump_count sd (- 1) b1)"

definition cancel_order ::
  "OrderId \<Rightarrow> Timestamp \<Rightarrow> L3OrderBook \<Rightarrow> (ExecutionReport \<times> L3OrderBook) option" where
  "cancel_order oid ts b =
     (let rpt = default_report\<lparr>rpt_order_id := oid, rpt_transact_time := ts\<rparr>
      in case order_index b oid of
        None \<Rightarrow> Some (rpt\<lparr>rpt_status := Rejected, rpt_reject_reason := NoReject\<rparr>, b)
      | Some loc \<Rightarrow>
          (case deref b loc of
             None \<Rightarrow> None
           | Some l3 \<Rightarrow>
               (let rpt = rpt\<lparr>rpt_trader_id := l3_trader_id l3, rpt_symbol := bk_symbol b,
                      rpt_side := l3_side l3, rpt_price := l3_price l3,
                      rpt_order_qty :=
                        i64 (i64 (l3_visible_qty l3 + l3_hidden_qty l3) + l3_filled_qty l3),
                      rpt_filled_qty := l3_filled_qty l3, rpt_leaves_qty := 0,
                      rpt_status := Canceled, rpt_cl_ord_id := l3_cl_ord_id l3\<rparr>;
                    b1 = remove_from_book loc b;
                    b2 = b1\<lparr>order_index := (order_index b1)(oid := None)\<rparr>
                in Some (rpt, publish_tob ts b2))))"

definition replacement :: "ReplaceRequest \<Rightarrow> Side \<Rightarrow> Timestamp \<Rightarrow> Order" where
  "replacement req sd ts =
     default_order\<lparr>ord_id := rep_order_id req, ord_trader_id := rep_trader_id req,
       ord_symbol := rep_symbol req, ord_side := sd, ord_type := Limit, ord_tif := Day,
       ord_price := rep_new_price req, ord_quantity := rep_new_qty req,
       ord_submit_time := ts, ord_cl_ord_id := rep_cl_ord_id req\<rparr>"

definition replace_order ::
  "ReplaceRequest \<Rightarrow> Timestamp \<Rightarrow> L3OrderBook \<Rightarrow> (ExecutionReport \<times> L3OrderBook) option" where
  "replace_order req ts b =
     (case cancel_order (rep_order_id req) ts b of
        None \<Rightarrow> None
      | Some (cancel_rpt, b1) \<Rightarrow>
          if rpt_status cancel_rpt \<noteq> Canceled
          then Some (cancel_rpt\<lparr>rpt_status := Rejected\<rparr>, b1)
          else Some (add_order (replacement req (rpt_side cancel_rpt) ts) ts b1))"

end
