(* ===== verification/L3_Match.thy ===== *)
theory L3_Match
  imports L3_Book
begin

text \<open>
  What the matching loops of the L3 book do.  The nested loops over levels and queues are
  first shown equal to one loop \<open>match_flat\<close> over the entries in priority order
  (\<open>match_against_flat\<close>); that loop is then computed in closed form (\<open>match_flat_spec\<close>): the
  fills are the greedy allocation \<open>fills_of\<close> of the incoming quantity over the eligible
  entries, best price first and oldest first within a price.
\<close>

section \<open>Well-formed resting orders\<close>

definition open_qty :: "L3Order \<Rightarrow> Quantity" where
  "open_qty r = l3_visible_qty r + l3_hidden_qty r"

definition l3_ok :: "L3Order \<Rightarrow> bool" where
  "l3_ok r \<longleftrightarrow> 0 \<le> l3_visible_qty r \<and> 0 \<le> l3_hidden_qty r \<and> 0 < open_qty r \<and>
     0 \<le> l3_filled_qty r \<and> in_i64 (open_qty r + l3_filled_qty r)"

lemma l3_ok_range:
  assumes "l3_ok r"
  shows "in_i64 (open_qty r)" "in_i64 (l3_visible_qty r)" "in_i64 (l3_hidden_qty r)"
  using assms by (auto simp: l3_ok_def open_qty_def in_i64_def i64_max_def i64_min_def)

text \<open>Reducing keeps the order's identity and moves the quantity from open to filled.\<close>

lemma reduce_resting_frame [simp]:
  "l3_id (reduce_resting m r) = l3_id r"
  "l3_trader_id (reduce_resting m r) = l3_trader_id r"
  "l3_side (reduce_resting m r) = l3_side r"
  "l3_price (reduce_resting m r) = l3_price r"
  "l3_is_iceberg (reduce_resting m r) = l3_is_iceberg r"
  "l3_entry_time (reduce_resting m r) = l3_entry_time r"
  "l3_queue_pos (reduce_resting m r) = l3_queue_pos r"
  by (simp_all add: reduce_resting_def Let_def)

lemma reduce_resting_amounts:
  assumes ok: "l3_ok r" and m: "0 \<le> m" "m \<le> open_qty r"
  shows "open_qty (reduce_resting m r) = open_qty r - m"
    and "l3_filled_qty (reduce_resting m r) = l3_filled_qty r + m"
    and "0 \<le> l3_visible_qty (reduce_resting m r)"
    and "0 \<le> l3_hidden_qty (reduce_resting m r)"
proof -
  from ok m have i: "i64 (l3_filled_qty r + m) = l3_filled_qty r + m"
      "m \<le> l3_visible_qty r \<Longrightarrow> i64 (l3_visible_qty r - m) = l3_visible_qty r - m"
      "\<not> m \<le> l3_visible_qty r \<Longrightarrow> i64 (m - l3_visible_qty r) = m - l3_visible_qty r"
      "\<not> m \<le> l3_visible_qty r \<Longrightarrow>
        i64 (l3_hidden_qty r - (m - l3_visible_qty r)) = l3_hidden_qty r - (m - l3_visible_qty r)"
      "\<And>h. 0 \<le> h \<Longrightarrow> h \<le> open_qty r \<Longrightarrow> i64 (h - min h 100) = h - min h 100"
    by (auto intro!: i64_id simp: l3_ok_def open_qty_def in_i64_def i64_max_def i64_min_def)
  from ok m i(5) [of "l3_hidden_qty r"] i(5) [of "l3_hidden_qty r - (m - l3_visible_qty r)"]
  show "open_qty (reduce_resting m r) = open_qty r - m"
    and "l3_filled_qty (reduce_resting m r) = l3_filled_qty r + m"
    and "0 \<le> l3_visible_qty (reduce_resting m r)"
    and "0 \<le> l3_hidden_qty (reduce_resting m r)"
    by (auto simp: reduce_resting_def Let_def i(1-4) open_qty_def l3_ok_def)
qed

lemma reduce_resting_plain: "l3_hidden_qty r = 0 \<Longrightarrow> m \<le> open_qty r \<Longrightarrow> l3_hidden_qty (reduce_resting m r) = 0"
  by (simp add: reduce_resting_def Let_def open_qty_def)

lemma reduce_resting_ok:
  assumes "l3_ok r" "0 \<le> m" "m < open_qty r"
  shows "l3_ok (reduce_resting m r)"
  using assms reduce_resting_amounts [of r m] by (simp add: l3_ok_def)

section \<open>One loop over the entries in priority order\<close>

fun match_flat ::
  "Order \<Rightarrow> Timestamp \<Rightarrow> (Price \<times> node \<times> L3Order) list \<Rightarrow> match_state
    \<Rightarrow> (Price \<times> node \<times> L3Order) list \<times> match_state" where
  "match_flat incoming ts [] s = ([], s)"
| "match_flat incoming ts ((p, h, resting) # xs) s =
     (if \<not> ms_remaining s > 0 \<or> price_break incoming p then ((p, h, resting) # xs, s)
      else let (resting', s1) = match_one incoming p ts resting s
           in if i64 (l3_visible_qty resting' + l3_hidden_qty resting') = 0
              then match_flat incoming ts xs (drop_filled resting' s1)
              else let (xs', s2) = match_flat incoming ts xs s1
                   in ((p, h, resting') # xs', s2))"

lemma match_flat_stop: "\<not> ms_remaining s > 0 \<Longrightarrow> match_flat incoming ts xs s = (xs, s)"
  by (cases xs) auto

lemma match_queue_stop: "\<not> ms_remaining s > 0 \<Longrightarrow> match_queue incoming p ts q s = (q, s)"
  by (cases q) auto

lemma match_queue_flat:
  assumes "\<not> price_break incoming p"
  shows "match_flat incoming ts (map (Pair p) q @ xs) s =
    (let (q', s1) = match_queue incoming p ts q s; (xs', s2) = match_flat incoming ts xs s1
     in (map (Pair p) q' @ xs', s2))"
proof (induction q arbitrary: s)
  case Nil
  then show ?case by simp
next
  case (Cons a q)
  then show ?case
    using assms
    by (cases a) (auto simp: match_flat_stop Let_def split: prod.splits)
qed

lemma match_against_flat:
  assumes "\<forall>(p, q) \<in> set L. q \<noteq> []"
  shows "(lv_flat (fst (match_against incoming ts L s)), snd (match_against incoming ts L s))
    = match_flat incoming ts (lv_flat L) s"
  using assms
proof (induction L arbitrary: s)
  case Nil
  then show ?case by simp
next
  case (Cons l L)
  obtain p q where l: "l = (p, q)" by (cases l)
  with Cons.prems obtain x q0 where q: "q = x # q0" by (cases q) auto
  show ?case
  proof (cases "\<not> ms_remaining s > 0 \<or> price_break incoming p")
    case True
    then show ?thesis by (cases x) (auto simp: l q)
  next
    case False
    obtain q' s1 where q': "match_queue incoming p ts q s = (q', s1)" by fastforce
    obtain L' s2 where L': "match_against incoming ts L s1 = (L', s2)" by fastforce
    from Cons.IH [of s1] Cons.prems L' have "match_flat incoming ts (lv_flat L) s1 = (lv_flat L', s2)"
      by simp
    with False q' L' show ?thesis
      by (simp add: l match_queue_flat)
  qed
qed

lemma match_against_keys: "fst ` set (fst (match_against incoming ts L s)) \<subseteq> fst ` set L"
proof (induction L arbitrary: s)
  case (Cons l L)
  obtain p q where l: "l = (p, q)" by (cases l)
  obtain q' s1 where q': "match_queue incoming p ts q s = (q', s1)" by fastforce
  obtain L' s2 where L': "match_against incoming ts L s1 = (L', s2)" by fastforce
  from Cons.IH [of s1] have "fst ` set L' \<subseteq> fst ` set L" by (simp add: L')
  then show ?case by (auto simp: l q' L')
qed simp

lemma match_against_ok: "lv_ok before L \<Longrightarrow> lv_ok before (fst (match_against incoming ts L s))"
proof (induction incoming ts L s rule: match_against.induct)
  case (2 incoming ts p q L s)
  show ?case
  proof (cases "\<not> ms_remaining s > 0 \<or> price_break incoming p")
    case True
    with "2.prems" show ?thesis by auto
  next
    case False
    obtain q' s1 where q': "match_queue incoming p ts q s = (q', s1)" by fastforce
    obtain L' s2 where L': "match_against incoming ts L s1 = (L', s2)" by fastforce
    have "fst ` set L' \<subseteq> fst ` set L"
      using match_against_keys [of incoming ts L s1] by (simp add: L')
    moreover have "lv_ok before L'"
      using "2.IH" [OF _ _ q' [symmetric]] False "2.prems" by (simp add: L' lv_ok_Cons)
    moreover from calculation have "\<forall>k \<in> fst ` set L'. before p k"
      using "2.prems" unfolding lv_ok_Cons by blast
    ultimately show ?thesis
      using False by (simp add: q' L' lv_ok_Cons)
  qed
qed simp

section \<open>The closed form\<close>

text \<open>Greedy allocation of \<open>n\<close> units over entries in the given order.\<close>

fun fills_of :: "Quantity \<Rightarrow> (Price \<times> node \<times> L3Order) list \<Rightarrow> (Price \<times> L3Order \<times> Quantity) list" where
  "fills_of n [] = []"
| "fills_of n ((p, h, r) # xs) =
     (if n \<le> 0 then []
      else (p, r, min n (open_qty r)) # fills_of (n - min n (open_qty r)) xs)"

text \<open>The entries the allocation leaves, and the orders it fills completely.\<close>

fun left_of :: "Quantity \<Rightarrow> (Price \<times> node \<times> L3Order) list \<Rightarrow> (Price \<times> node \<times> L3Order) list" where
  "left_of n [] = []"
| "left_of n ((p, h, r) # xs) =
     (if n \<le> 0 then (p, h, r) # xs
      else if open_qty r \<le> n then left_of (n - open_qty r) xs
      else (p, h, reduce_resting n r) # xs)"

fun gone_of :: "Quantity \<Rightarrow> (Price \<times> node \<times> L3Order) list \<Rightarrow> (Price \<times> node \<times> L3Order) list" where
  "gone_of n [] = []"
| "gone_of n ((p, h, r) # xs) =
     (if n \<le> 0 \<or> \<not> open_qty r \<le> n then [] else (p, h, r) # gone_of (n - open_qty r) xs)"

definition eligible :: "Order \<Rightarrow> (Price \<times> node \<times> L3Order) list \<Rightarrow> (Price \<times> node \<times> L3Order) list" where
  "eligible incoming xs = takeWhile (\<lambda>(p, _). \<not> price_break incoming p) xs"

definition ineligible :: "Order \<Rightarrow> (Price \<times> node \<times> L3Order) list \<Rightarrow> (Price \<times> node \<times> L3Order) list" where
  "ineligible incoming xs = dropWhile (\<lambda>(p, _). \<not> price_break incoming p) xs"

definition fill_total :: "(Price \<times> L3Order \<times> Quantity) list \<Rightarrow> Quantity" where
  "fill_total fs = sum_list (map (\<lambda>(p, r, q). q) fs)"

definition trade_for :: "Order \<Rightarrow> Timestamp \<Rightarrow> Symbol \<Rightarrow> u64 \<Rightarrow> Price \<times> L3Order \<times> Quantity \<Rightarrow> Trade" where
  "trade_for incoming ts symbol tid f = (case f of (p, r, q) \<Rightarrow>
     \<lparr>trd_trade_id = tid, trd_resting_id = l3_id r, trd_incoming_id = ord_id incoming,
      trd_resting_trader = l3_trader_id r, trd_incoming_trader = ord_trader_id incoming,
      trd_symbol = symbol, trd_aggressor_side = ord_side incoming, trd_price = p, trd_qty = q,
      trd_match_timestamp_ns = ts\<rparr>)"

fun trades_for :: "Order \<Rightarrow> Timestamp \<Rightarrow> Symbol \<Rightarrow> u64 \<Rightarrow> (Price \<times> L3Order \<times> Quantity) list \<Rightarrow> Trade list" where
  "trades_for incoming ts symbol tid [] = []"
| "trades_for incoming ts symbol tid (f # fs) =
     trade_for incoming ts symbol tid f # trades_for incoming ts symbol (tid + 1) fs"

text \<open>The index without the given orders.\<close>

fun drop_ids :: "L3Order list \<Rightarrow> (OrderId \<Rightarrow> OrderLocation option) \<Rightarrow> OrderId \<Rightarrow> OrderLocation option" where
  "drop_ids [] m = m"
| "drop_ids (r # gone) m = drop_ids gone (m(l3_id r := None))"

lemma drop_ids_apply: "drop_ids gone m i = (if i \<in> l3_id ` set gone then None else m i)"
  by (induction gone arbitrary: m) auto

text \<open>The book after the given trades, with the given orders completely filled.\<close>

definition traded_book :: "Trade list \<Rightarrow> L3Order list \<Rightarrow> L3OrderBook \<Rightarrow> L3OrderBook" where
  "traded_book trs gone b = b\<lparr>
     order_index := drop_ids gone (order_index b),
     trade_count := trade_count b + word_of_nat (length trs),
     next_trade_id := next_trade_id b + word_of_nat (length trs),
     total_volume := foldl (\<lambda>v t. i64 (v + trd_qty t)) (total_volume b) trs,
     last_trade_price := (if trs = [] then last_trade_price b else trd_price (last trs)),
     bid_order_count := bid_order_count b
       - word_of_nat (length (filter (\<lambda>r. l3_side r = Buy) gone)),
     ask_order_count := ask_order_count b
       - word_of_nat (length (filter (\<lambda>r. l3_side r = Sell) gone)),
     bk_log := bk_log b @ (if trade_cb b then map TradeEvent trs else [])\<rparr>"

definition one_trade :: "Trade \<Rightarrow> L3OrderBook \<Rightarrow> L3OrderBook" where
  "one_trade t b = b\<lparr>
     trade_count := trade_count b + 1,
     next_trade_id := next_trade_id b + 1,
     total_volume := i64 (total_volume b + trd_qty t),
     last_trade_price := trd_price t,
     bk_log := bk_log b @ (if trade_cb b then [TradeEvent t] else [])\<rparr>"

lemma one_trade_frame [simp]:
  "bk_symbol (one_trade t b) = bk_symbol b"
  "next_trade_id (one_trade t b) = next_trade_id b + 1"
  by (simp_all add: one_trade_def)

lemma traded_book_Nil [simp]: "traded_book [] [] b = b"
  by (simp add: traded_book_def)

lemma traded_book_trade:
  "traded_book trs gone (one_trade t b) = traded_book (t # trs) gone b"
  by (simp add: traded_book_def one_trade_def add.assoc)

lemma traded_book_gone:
  "traded_book trs gone (bump_count (l3_side r) (- 1)
      (b\<lparr>order_index := (order_index b)(l3_id r := None)\<rparr>)) = traded_book trs (r # gone) b"
  by (cases "l3_side r") (simp_all add: traded_book_def diff_diff_eq)

lemma drop_filled_frame [simp]:
  "ms_remaining (drop_filled r s) = ms_remaining s"
  "ms_trades (drop_filled r s) = ms_trades s"
  "bk_symbol (ms_book (drop_filled r s)) = bk_symbol (ms_book s)"
  "next_trade_id (ms_book (drop_filled r s)) = next_trade_id (ms_book s)"
  by (cases "l3_side r"; simp add: drop_filled_def Let_def)+

lemma traded_book_reduced:
  "traded_book trs (reduce_resting m r # gone) b = traded_book trs (r # gone) b"
  by (simp add: traded_book_def)

lemma traded_book_drop:
  "traded_book trs gone (ms_book (drop_filled (reduce_resting m r) s))
    = traded_book trs (r # gone) (ms_book s)"
  using traded_book_gone [of trs gone "reduce_resting m r" "ms_book s"]
  by (simp add: drop_filled_def Let_def traded_book_reduced)

lemma match_one_spec:
  assumes "l3_ok r" and "0 < ms_remaining s" and "in_i64 (ms_remaining s)"
  shows "match_one incoming p ts r s =
    (let m = min (ms_remaining s) (open_qty r);
         t = trade_for incoming ts (bk_symbol (ms_book s)) (next_trade_id (ms_book s)) (p, r, m)
     in (reduce_resting m r,
         \<lparr>ms_remaining = ms_remaining s - m, ms_trades = ms_trades s @ [t],
          ms_book = one_trade t (ms_book s)\<rparr>))"
proof -
  have avail: "i64 (l3_visible_qty r + l3_hidden_qty r) = open_qty r"
    using l3_ok_range [OF assms(1)] by (simp add: open_qty_def i64_simps)
  have rem: "i64 (ms_remaining s - min (ms_remaining s) (open_qty r))
      = ms_remaining s - min (ms_remaining s) (open_qty r)"
    using assms(1,2) by (intro i64_id in_i64_nonneg [OF _ _ assms(3)]) (auto simp: l3_ok_def)
  show ?thesis
    unfolding match_one_def Let_def avail rem
    by (simp add: trade_for_def one_trade_def)
qed

lemma fully_filled_iff:
  assumes "l3_ok r" "0 < n"
  shows "i64 (l3_visible_qty (reduce_resting (min n (open_qty r)) r)
      + l3_hidden_qty (reduce_resting (min n (open_qty r)) r)) = 0 \<longleftrightarrow> open_qty r \<le> n"
proof -
  let ?r = "reduce_resting (min n (open_qty r)) r"
  have m: "0 \<le> min n (open_qty r)" "min n (open_qty r) \<le> open_qty r"
    using assms by (auto simp: l3_ok_def)
  have eq: "open_qty ?r = open_qty r - min n (open_qty r)"
    using reduce_resting_amounts(1) [OF assms(1) m] .
  have "in_i64 (open_qty ?r)"
    unfolding eq using m by (intro in_i64_nonneg [OF _ _ l3_ok_range(1) [OF assms(1)]]) auto
  then have "i64 (l3_visible_qty ?r + l3_hidden_qty ?r) = open_qty ?r"
    unfolding open_qty_def by (rule i64_id)
  then show ?thesis unfolding eq by auto
qed

lemma match_flat_spec:
  assumes "\<forall>(p, h, r) \<in> set xs. l3_ok r" and "in_i64 (ms_remaining s)"
  shows "match_flat incoming ts xs s =
    (let n = ms_remaining s; es = eligible incoming xs; fs = fills_of n es; b = ms_book s;
         trs = trades_for incoming ts (bk_symbol b) (next_trade_id b) fs
     in (left_of n es @ ineligible incoming xs,
         \<lparr>ms_remaining = n - fill_total fs, ms_trades = ms_trades s @ trs,
          ms_book = traded_book trs (map (\<lambda>(p, h, r). r) (gone_of n es)) b\<rparr>))"
  using assms
proof (induction xs arbitrary: s)
  case Nil
  then show ?case by (simp add: eligible_def ineligible_def fill_total_def)
next
  case (Cons x xs)
  obtain p h r where x: "x = (p, h, r)" by (cases x)
  from Cons.prems x have ok: "l3_ok r" and oks: "\<forall>(p, h, r) \<in> set xs. l3_ok r" by auto
  let ?n = "ms_remaining s" and ?b = "ms_book s"
  let ?m = "min ?n (open_qty r)"
  let ?t = "trade_for incoming ts (bk_symbol ?b) (next_trade_id ?b) (p, r, ?m)"
  show ?case
  proof (cases "?n > 0 \<and> \<not> price_break incoming p")
    case False
    then show ?thesis
      by (cases "price_break incoming p")
        (auto simp: x eligible_def ineligible_def fill_total_def)
  next
    case True
    then have one: "match_one incoming p ts r s =
        (reduce_resting ?m r, \<lparr>ms_remaining = ?n - ?m, ms_trades = ms_trades s @ [?t],
           ms_book = one_trade ?t ?b\<rparr>)"
      using match_one_spec [OF ok _ Cons.prems(2)] by (simp add: Let_def)
    have range: "in_i64 (?n - ?m)"
      using ok True by (intro in_i64_nonneg [OF _ _ Cons.prems(2)]) (auto simp: l3_ok_def)
    show ?thesis
    proof (cases "open_qty r \<le> ?n")
      case full: True
      let ?s1 = "\<lparr>ms_remaining = ?n - ?m, ms_trades = ms_trades s @ [?t], ms_book = one_trade ?t ?b\<rparr>"
      let ?s = "drop_filled (reduce_resting ?m r) ?s1"
      from full have m: "?m = open_qty r" by simp
      have step: "match_flat incoming ts (x # xs) s = match_flat incoming ts xs ?s"
        using True full fully_filled_iff [OF ok, of ?n] by (simp add: x one Let_def)
      show ?thesis
        unfolding step using Cons.IH [OF oks, of ?s] range True full
        by (simp add: x m traded_book_drop traded_book_trade eligible_def ineligible_def
            fill_total_def Let_def)
    next
      case partial: False
      with True have m: "?m = ?n" by simp
      have none: "fills_of 0 ys = []" for ys by (cases ys) auto
      have step: "match_flat incoming ts (x # xs) s = ((p, h, reduce_resting ?m r) # xs,
          \<lparr>ms_remaining = ?n - ?m, ms_trades = ms_trades s @ [?t], ms_book = one_trade ?t ?b\<rparr>)"
        using True partial fully_filled_iff [OF ok, of ?n]
        by (simp add: x one Let_def match_flat_stop)
      show ?thesis
        unfolding step using True partial traded_book_trade [of "[]" "[]" ?t ?b]
        by (simp add: x m none eligible_def ineligible_def fill_total_def Let_def)
    qed
  qed
qed

end
