(* ===== verification/L3_Invariant.thy ===== *)
theory L3_Invariant
  imports L3_Match
begin

text \<open>
  The invariant of the L3 book and its preservation by the parts of the operations: sorted
  non-empty levels, well-formed entries, an index that holds exactly the resting orders and
  whose iterators never dangle, counters that agree with the entries, and a book that is
  never crossed.  \<open>ekey\<close> is what the index knows of an entry: price, node and order id.
\<close>

section \<open>The invariant\<close>

definition entries :: "Side \<Rightarrow> L3OrderBook \<Rightarrow> (Price \<times> node \<times> L3Order) list" where
  "entries sd b = lv_flat (levels_of sd b)"

definition ekey :: "Price \<times> node \<times> L3Order \<Rightarrow> Price \<times> node \<times> OrderId" where
  "ekey e = (case e of (p, h, r) \<Rightarrow> (p, h, l3_id r))"

definition keys :: "Side \<Rightarrow> L3OrderBook \<Rightarrow> (Price \<times> node \<times> OrderId) list" where
  "keys sd b = map ekey (entries sd b)"

definition key_node :: "Price \<times> node \<times> OrderId \<Rightarrow> node" where
  "key_node k = fst (snd k)"

definition entry_ok :: "Side \<Rightarrow> Price \<times> node \<times> L3Order \<Rightarrow> bool" where
  "entry_ok sd e = (case e of (p, h, r) \<Rightarrow> l3_ok r \<and> l3_side r = sd \<and> l3_price r = p \<and>
     l3_hidden_qty r = 0 \<and> \<not> l3_is_iceberg r)"

definition shape_inv :: "L3OrderBook \<Rightarrow> bool" where
  "shape_inv b \<longleftrightarrow> (\<forall>sd. lv_ok (before_of sd) (levels_of sd b) \<and>
     (\<forall>e \<in> set (entries sd b). entry_ok sd e))"

definition node_inv :: "L3OrderBook \<Rightarrow> bool" where
  "node_inv b \<longleftrightarrow> distinct (map key_node (keys Buy b @ keys Sell b)) \<and>
     (\<forall>k \<in> set (keys Buy b @ keys Sell b). key_node k < next_node b)"

definition index_inv :: "L3OrderBook \<Rightarrow> bool" where
  "index_inv b \<longleftrightarrow> (\<forall>oid loc. order_index b oid = Some loc \<longleftrightarrow>
     (loc_price loc, loc_it loc, oid) \<in> set (keys (loc_side loc) b))"

definition count_inv :: "L3OrderBook \<Rightarrow> bool" where
  "count_inv b \<longleftrightarrow> (\<forall>sd. count_of sd b = word_of_nat (length (entries sd b)))"

definition uncrossed :: "L3OrderBook \<Rightarrow> bool" where
  "uncrossed b \<longleftrightarrow> (\<forall>(p, x) \<in> set (entries Buy b). \<forall>(q, y) \<in> set (entries Sell b). p < q)"

definition book_inv :: "L3OrderBook \<Rightarrow> bool" where
  "book_inv b \<longleftrightarrow> shape_inv b \<and> node_inv b \<and> index_inv b \<and> count_inv b \<and> uncrossed b"

section \<open>Frames\<close>

lemma levels_of_set_levels [simp]:
  "levels_of sd (set_levels sd' L b) = (if sd = sd' then L else levels_of sd b)"
  by (cases sd; cases sd') simp_all

lemma set_levels_frame [simp]:
  "bk_symbol (set_levels sd L b) = bk_symbol b"
  "order_index (set_levels sd L b) = order_index b"
  "next_node (set_levels sd L b) = next_node b"
  "tob_cb (set_levels sd L b) = tob_cb b"
  "trade_cb (set_levels sd L b) = trade_cb b"
  "bk_log (set_levels sd L b) = bk_log b"
  "trade_count (set_levels sd L b) = trade_count b"
  "total_volume (set_levels sd L b) = total_volume b"
  "next_trade_id (set_levels sd L b) = next_trade_id b"
  "count_of sd' (set_levels sd L b) = count_of sd' b"
  by (cases sd; cases sd'; simp)+

lemma bump_count_frame [simp]:
  "bk_symbol (bump_count sd d b) = bk_symbol b"
  "order_index (bump_count sd d b) = order_index b"
  "next_node (bump_count sd d b) = next_node b"
  "tob_cb (bump_count sd d b) = tob_cb b"
  "trade_cb (bump_count sd d b) = trade_cb b"
  "bk_log (bump_count sd d b) = bk_log b"
  "trade_count (bump_count sd d b) = trade_count b"
  "total_volume (bump_count sd d b) = total_volume b"
  "next_trade_id (bump_count sd d b) = next_trade_id b"
  "levels_of sd' (bump_count sd d b) = levels_of sd' b"
  "count_of sd' (bump_count sd d b) = count_of sd' b + (if sd' = sd then d else 0)"
  by (cases sd; cases sd'; simp)+

lemma traded_book_frame [simp]:
  "bk_symbol (traded_book trs gone b) = bk_symbol b"
  "next_node (traded_book trs gone b) = next_node b"
  "tob_cb (traded_book trs gone b) = tob_cb b"
  "trade_cb (traded_book trs gone b) = trade_cb b"
  "order_index (traded_book trs gone b) = drop_ids gone (order_index b)"
  "levels_of sd (traded_book trs gone b) = levels_of sd b"
  "count_of sd (traded_book trs gone b) =
     count_of sd b - word_of_nat (length (filter (\<lambda>r. l3_side r = sd) gone))"
  by (cases sd; simp add: traded_book_def)+

text \<open>The invariant reads the levels, the index, the counters and the node supply only.\<close>

lemma levels_update_frame [simp]:
  "levels_of sd (b\<lparr>order_index := m\<rparr>) = levels_of sd b"
  "levels_of sd (b\<lparr>next_node := h\<rparr>) = levels_of sd b"
  "levels_of sd (b\<lparr>bk_log := l\<rparr>) = levels_of sd b"
  "levels_of sd (b\<lparr>trade_cb := c\<rparr>) = levels_of sd b"
  "levels_of sd (b\<lparr>tob_cb := c\<rparr>) = levels_of sd b"
  "levels_of sd (b\<lparr>depth_cb := c\<rparr>) = levels_of sd b"
  "count_of sd (b\<lparr>order_index := m\<rparr>) = count_of sd b"
  "count_of sd (b\<lparr>next_node := h\<rparr>) = count_of sd b"
  "count_of sd (b\<lparr>bk_log := l\<rparr>) = count_of sd b"
  "count_of sd (b\<lparr>trade_cb := c\<rparr>) = count_of sd b"
  "count_of sd (b\<lparr>tob_cb := c\<rparr>) = count_of sd b"
  "count_of sd (b\<lparr>depth_cb := c\<rparr>) = count_of sd b"
  by (cases sd; simp)+

lemma book_inv_cong:
  assumes "\<And>sd. levels_of sd b' = levels_of sd b" "order_index b' = order_index b"
    "\<And>sd. count_of sd b' = count_of sd b" "next_node b' = next_node b"
  shows "book_inv b' = book_inv b"
  using assms
  by (simp add: book_inv_def shape_inv_def node_inv_def index_inv_def count_inv_def
      uncrossed_def keys_def entries_def)

lemma publish_tob_frame [simp]:
  "levels_of sd (publish_tob ts b) = levels_of sd b"
  "order_index (publish_tob ts b) = order_index b"
  "count_of sd (publish_tob ts b) = count_of sd b"
  "next_node (publish_tob ts b) = next_node b"
  "bk_symbol (publish_tob ts b) = bk_symbol b"
  "trade_cb (publish_tob ts b) = trade_cb b"
  "tob_cb (publish_tob ts b) = tob_cb b"
  "trade_count (publish_tob ts b) = trade_count b"
  "total_volume (publish_tob ts b) = total_volume b"
  by (simp_all add: publish_tob_def)

lemma book_inv_publish [simp]: "book_inv (publish_tob ts b) = book_inv b"
  by (rule book_inv_cong) simp_all

lemma book_inv_callbacks:
  "book_inv (on_trade b) = book_inv b" "book_inv (on_top_of_book b) = book_inv b"
  "book_inv (on_depth b) = book_inv b"
  by (rule book_inv_cong; simp add: on_trade_def on_top_of_book_def on_depth_def)+

lemma book_inv_new: "book_inv (new_book s)"
proof -
  have empty: "levels_of sd (new_book s) = []" "count_of sd (new_book s) = 0" for sd
    by (cases sd; simp add: new_book_def)+
  show ?thesis
    by (simp add: book_inv_def shape_inv_def node_inv_def index_inv_def count_inv_def
        uncrossed_def keys_def entries_def empty)
      (simp add: new_book_def)
qed

section \<open>What the invariant gives\<close>

lemma inv_levels: "book_inv b \<Longrightarrow> lv_ok (before_of sd) (levels_of sd b)"
  by (simp add: book_inv_def shape_inv_def)

lemma inv_entry: "book_inv b \<Longrightarrow> e \<in> set (entries sd b) \<Longrightarrow> entry_ok sd e"
  by (simp add: book_inv_def shape_inv_def)

lemma inv_l3_ok: "book_inv b \<Longrightarrow> \<forall>(p, h, r) \<in> set (entries sd b). l3_ok r"
  by (force dest: inv_entry simp: entry_ok_def)

lemma inv_index:
  "book_inv b \<Longrightarrow> order_index b oid = Some loc \<longleftrightarrow>
    (loc_price loc, loc_it loc, oid) \<in> set (keys (loc_side loc) b)"
  by (simp add: book_inv_def index_inv_def)

lemma nodes_of_keys: "nodes_of (levels_of sd b) = map key_node (keys sd b)"
  by (simp add: nodes_of_def keys_def entries_def key_node_def ekey_def comp_def case_prod_beta)

lemma inv_distinct_nodes: "book_inv b \<Longrightarrow> distinct (map key_node (keys sd b))"
  by (cases sd) (auto simp: book_inv_def node_inv_def)

lemma before_of_order: "price_order (before_of sd)"
  by (cases sd) (simp_all add: bid_order.price_order_axioms ask_order.price_order_axioms)

interpretation side_order: price_order "before_of sd" for sd
  by (rule before_of_order)

lemma inv_deref:
  assumes "book_inv b"
  shows "deref b loc = Some r \<longleftrightarrow> (loc_price loc, loc_it loc, r) \<in> set (entries (loc_side loc) b)"
  unfolding deref_def entries_def
  by (rule side_order.deref_iff [OF inv_levels [OF assms]])
    (simp add: nodes_of_keys inv_distinct_nodes [OF assms])

text \<open>An indexed order's iterator reads that order.\<close>

lemma inv_index_deref:
  assumes "book_inv b" and "order_index b oid = Some loc"
  obtains r where "deref b loc = Some r" "l3_id r = oid" "entry_ok (loc_side loc) (loc_price loc, loc_it loc, r)"
    "(loc_price loc, loc_it loc, r) \<in> set (entries (loc_side loc) b)"
proof -
  from assms have "(loc_price loc, loc_it loc, oid) \<in> set (keys (loc_side loc) b)"
    by (simp add: inv_index)
  then obtain r where r: "(loc_price loc, loc_it loc, r) \<in> set (entries (loc_side loc) b)" "l3_id r = oid"
    by (auto simp: keys_def ekey_def)
  show thesis
    by (rule that [of r]) (use r assms(1) in \<open>simp_all add: inv_deref inv_entry\<close>)
qed

text \<open>The entries of one order id: there is at most one in the whole book.\<close>

lemma inv_id_unique:
  assumes "book_inv b" "(p, h, oid) \<in> set (keys sd b)" "(p', h', oid) \<in> set (keys sd' b)"
  shows "p = p'" "h = h'" "sd = sd'"
proof -
  have "order_index b oid = Some \<lparr>loc_side = sd, loc_price = p, loc_it = h\<rparr>"
    and "order_index b oid = Some \<lparr>loc_side = sd', loc_price = p', loc_it = h'\<rparr>"
    using assms by (simp_all add: inv_index)
  then show "p = p'" "h = h'" "sd = sd'" by simp_all
qed

section \<open>Matching keeps the invariant\<close>

lemma keys_split: "map ekey xs = map ekey (gone_of n xs) @ map ekey (left_of n xs)"
  by (induction n xs rule: left_of.induct) (auto simp: ekey_def)

lemma left_of_ok:
  "\<forall>e \<in> set xs. entry_ok sd e \<Longrightarrow> \<forall>e \<in> set (left_of n xs). entry_ok sd e"
  by (induction n xs rule: left_of.induct) (auto simp: entry_ok_def intro!: reduce_resting_ok reduce_resting_plain)

lemma gone_of_subset: "set (gone_of n xs) \<subseteq> set xs"
  by (induction n xs rule: gone_of.induct) auto

lemma eligible_split: "eligible incoming xs @ ineligible incoming xs = xs"
  by (simp add: eligible_def ineligible_def)

lemma eligible_subset: "set (eligible incoming xs) \<subseteq> set xs"
  by (auto simp: eligible_def dest: set_takeWhileD)

text \<open>The entries of the opposite side after matching \<open>n\<close> units.\<close>

definition matched_entries :: "Order \<Rightarrow> (Price \<times> node \<times> L3Order) list \<Rightarrow> (Price \<times> node \<times> L3Order) list" where
  "matched_entries order xs =
     left_of (ord_quantity order) (eligible order xs) @ ineligible order xs"

definition matched_gone :: "Order \<Rightarrow> (Price \<times> node \<times> L3Order) list \<Rightarrow> L3Order list" where
  "matched_gone order xs =
     map (\<lambda>(p, h, r). r) (gone_of (ord_quantity order) (eligible order xs))"

definition order_fills :: "Order \<Rightarrow> L3OrderBook \<Rightarrow> (Price \<times> L3Order \<times> Quantity) list" where
  "order_fills order b =
     fills_of (ord_quantity order) (eligible order (entries (opposite (ord_side order)) b))"

definition order_trades :: "Order \<Rightarrow> Timestamp \<Rightarrow> L3OrderBook \<Rightarrow> Trade list" where
  "order_trades order ts b =
     trades_for order ts (bk_symbol b) (next_trade_id b) (order_fills order b)"

definition fok_fails :: "Order \<Rightarrow> L3OrderBook \<Rightarrow> bool" where
  "fok_fails order b \<longleftrightarrow> ord_tif order = FOK \<and>
     fok_available order 0 (levels_of (opposite (ord_side order)) b) < ord_quantity order"

lemma matched_keys:
  "map ekey xs = map ekey (gone_of (ord_quantity order) (eligible order xs)) @
     map ekey (matched_entries order xs)"
proof -
  have "map ekey xs = map ekey (eligible order xs) @ map ekey (ineligible order xs)"
    by (metis eligible_split map_append)
  then show ?thesis
    unfolding matched_entries_def
    using keys_split [of "eligible order xs" "ord_quantity order"] by simp
qed

lemma match_incoming_killed:
  "fok_fails order b \<Longrightarrow> match_incoming order ts b =
    (\<lparr>res_trades = [], res_remaining_qty = ord_quantity order, res_fully_filled = False\<rparr>, b)"
  by (simp add: match_incoming_def fok_fails_def Let_def)

lemma match_incoming_spec:
  assumes inv: "book_inv b" and q: "in_i64 (ord_quantity order)" and run: "\<not> fok_fails order b"
  defines "opp \<equiv> opposite (ord_side order)"
  obtains L where "lv_ok (before_of opp) L" "lv_flat L = matched_entries order (entries opp b)"
    "match_incoming order ts b =
      (\<lparr>res_trades = order_trades order ts b,
        res_remaining_qty = ord_quantity order - fill_total (order_fills order b),
        res_fully_filled = (ord_quantity order - fill_total (order_fills order b) = 0)\<rparr>,
       set_levels opp L (traded_book (order_trades order ts b) (matched_gone order (entries opp b)) b))"
proof -
  let ?s = "\<lparr>ms_remaining = ord_quantity order, ms_trades = [], ms_book = b\<rparr>"
  let ?L = "levels_of opp b"
  obtain L s where L: "match_against order ts ?L ?s = (L, s)" by fastforce
  have "\<forall>(p, q) \<in> set ?L. q \<noteq> []"
    using inv_levels [OF inv] by (simp add: lv_ok_def)
  from match_against_flat [OF this, of order ts ?s]
  have "(lv_flat L, s) = match_flat order ts (entries opp b) ?s"
    by (simp add: L entries_def)
  also have "\<dots> = (matched_entries order (entries opp b),
      \<lparr>ms_remaining = ord_quantity order - fill_total (order_fills order b),
       ms_trades = order_trades order ts b,
       ms_book = traded_book (order_trades order ts b) (matched_gone order (entries opp b)) b\<rparr>)"
    using match_flat_spec [OF inv_l3_ok [OF inv, of opp], of ?s order ts] q
    by (simp add: Let_def matched_entries_def matched_gone_def order_trades_def order_fills_def opp_def)
  finally have flat: "lv_flat L = matched_entries order (entries opp b)"
    and s: "s = \<lparr>ms_remaining = ord_quantity order - fill_total (order_fills order b),
       ms_trades = order_trades order ts b,
       ms_book = traded_book (order_trades order ts b) (matched_gone order (entries opp b)) b\<rparr>"
    by simp_all
  have "lv_ok (before_of opp) L"
    using match_against_ok [OF inv_levels [OF inv, of opp], of order ts ?s] by (simp add: L)
  then show thesis
    by (rule that [OF _ flat])
      (use run L in \<open>auto simp: match_incoming_def fok_fails_def opp_def [symmetric] Let_def s\<close>)
qed

section \<open>Removing and adding entries\<close>

definition all_keys :: "L3OrderBook \<Rightarrow> (Price \<times> node \<times> OrderId) list" where
  "all_keys b = keys Buy b @ keys Sell b"

lemma keys_other: "(\<And>sd'. sd' \<noteq> sd \<Longrightarrow> levels_of sd' b' = levels_of sd' b) \<Longrightarrow>
    mset (keys sd b) = mset G + mset (keys sd b') \<Longrightarrow> mset (all_keys b) = mset G + mset (all_keys b')"
proof -
  assume same: "\<And>sd'. sd' \<noteq> sd \<Longrightarrow> levels_of sd' b' = levels_of sd' b"
    and gone: "mset (keys sd b) = mset G + mset (keys sd b')"
  have "keys (opposite sd) b' = keys (opposite sd) b"
    using same [of "opposite sd"] by (cases sd) (simp_all add: keys_def entries_def)
  with gone show ?thesis by (cases sd) (simp_all add: all_keys_def)
qed

lemma uncrossed_keys:
  "uncrossed b \<longleftrightarrow> (\<forall>k \<in> set (keys Buy b). \<forall>l \<in> set (keys Sell b). fst k < fst l)"
  by (auto simp: uncrossed_def keys_def ekey_def split: prod.splits)

lemma node_inv_all_keys:
  "node_inv b \<longleftrightarrow> distinct (map key_node (all_keys b)) \<and> (\<forall>k \<in> set (all_keys b). key_node k < next_node b)"
  by (simp add: node_inv_def all_keys_def)

lemma length_keys: "length (keys sd b) = length (entries sd b)"
  by (simp add: keys_def)

lemma book_inv_removed:
  assumes inv: "book_inv b"
    and gone: "mset (keys sd b) = mset G + mset (keys sd b')"
    and other: "\<And>sd'. sd' \<noteq> sd \<Longrightarrow> levels_of sd' b' = levels_of sd' b \<and> count_of sd' b' = count_of sd' b"
    and ok: "lv_ok (before_of sd) (levels_of sd b')"
    and ents: "\<forall>e \<in> set (entries sd b'). entry_ok sd e"
    and idx: "\<And>i. order_index b' i = (if i \<in> (\<lambda>k. snd (snd k)) ` set G then None else order_index b i)"
    and cnt: "count_of sd b' = count_of sd b - word_of_nat (length G)"
    and nn: "next_node b' = next_node b"
  shows "book_inv b'"
proof -
  have ent': "entries sd' b' = entries sd' b" "keys sd' b' = keys sd' b" if "sd' \<noteq> sd" for sd'
    using other [OF that] by (simp_all add: entries_def keys_def)
  have sets: "set (keys sd' b) = (if sd' = sd then set G else {}) \<union> set (keys sd' b')" for sd'
    using arg_cong [OF gone, of set_mset] ent'(2) [of sd'] by simp
  have all: "mset (all_keys b) = mset G + mset (all_keys b')"
    using keys_other [OF _ gone] other by blast
  have "mset (map key_node (all_keys b)) = mset (map key_node (G @ all_keys b'))"
    using all by simp
  moreover have nodes: "node_inv b" using inv by (simp add: book_inv_def)
  ultimately have dist: "distinct (map key_node (G @ all_keys b'))"
    unfolding node_inv_all_keys using distinct_mset_eq by blast
  have "set (all_keys b') \<subseteq> set (all_keys b)"
    using arg_cong [OF all, of set_mset] by simp
  with dist nodes have node: "node_inv b'"
    unfolding node_inv_all_keys by (auto simp: nn)
  have shape: "shape_inv b'"
    unfolding shape_inv_def using ok ents ent' other inv_levels [OF inv] inv_entry [OF inv] by metis
  have index: "index_inv b'"
    unfolding index_inv_def
  proof (intro allI)
    fix oid :: OrderId and loc :: OrderLocation
    let ?k = "(loc_price loc, loc_it loc, oid)" and ?sd = "loc_side loc"
    have old: "order_index b oid = Some loc \<longleftrightarrow> ?k \<in> set (keys ?sd b)" by (rule inv_index [OF inv])
    have disj: "key_node k \<noteq> key_node l" if "k \<in> set G" "l \<in> set (keys sd' b')" for k l sd'
      using dist that by (cases sd') (auto simp: all_keys_def)
    have "oid \<notin> (\<lambda>k. snd (snd k)) ` set G" if "?k \<in> set (keys ?sd b')"
    proof
      assume "oid \<in> (\<lambda>k. snd (snd k)) ` set G"
      then obtain p h where g: "(p, h, oid) \<in> set G" by auto
      then have "(p, h, oid) \<in> set (keys sd b)" and "?k \<in> set (keys ?sd b)"
        using that sets by auto
      then have "h = loc_it loc" using inv_id_unique(2) [OF inv] by blast
      with disj [OF g that] show False by (simp add: key_node_def)
    qed
    moreover have "?k \<in> set (keys ?sd b')" if "?k \<in> set (keys ?sd b)" "oid \<notin> (\<lambda>k. snd (snd k)) ` set G"
      using that sets [of ?sd] by (force split: if_splits)
    ultimately show "order_index b' oid = Some loc \<longleftrightarrow> ?k \<in> set (keys ?sd b')"
      unfolding idx using old sets [of ?sd] by auto
  qed
  have count: "count_inv b'"
    unfolding count_inv_def
  proof
    fix sd'
    have old: "count_of sd' b = word_of_nat (length (entries sd' b))"
      using inv by (simp add: book_inv_def count_inv_def)
    show "count_of sd' b' = word_of_nat (length (entries sd' b'))"
    proof (cases "sd' = sd")
      case True
      have "length (keys sd b) = length G + length (keys sd b')"
        using gone by (metis size_mset size_union)
      with True old cnt show ?thesis by (simp add: length_keys)
    qed (use other ent' old in simp)
  qed
  have "uncrossed b'"
    using inv sets unfolding book_inv_def uncrossed_keys by blast
  with node shape index count show ?thesis by (simp add: book_inv_def)
qed

lemma book_inv_added:
  assumes inv: "book_inv b"
    and added: "mset (keys sd b') = add_mset (p, next_node b, oid) (mset (keys sd b))"
    and other: "\<And>sd'. sd' \<noteq> sd \<Longrightarrow> levels_of sd' b' = levels_of sd' b \<and> count_of sd' b' = count_of sd' b"
    and ok: "lv_ok (before_of sd) (levels_of sd b')"
    and ents: "\<forall>e \<in> set (entries sd b'). entry_ok sd e"
    and fresh: "order_index b oid = None"
    and idx: "order_index b' = (order_index b)(oid \<mapsto> \<lparr>loc_side = sd, loc_price = p, loc_it = next_node b\<rparr>)"
    and cnt: "count_of sd b' = count_of sd b + 1"
    and nn: "next_node b' = next_node b + 1"
    and apart: "\<forall>k \<in> set (keys (opposite sd) b). before_of (opposite sd) p (fst k)"
  shows "book_inv b'"
proof -
  let ?new = "(p, next_node b, oid)"
  have ent': "entries sd' b' = entries sd' b" "keys sd' b' = keys sd' b" if "sd' \<noteq> sd" for sd'
    using other [OF that] by (simp_all add: entries_def keys_def)
  have sets: "set (keys sd' b') = (if sd' = sd then {?new} else {}) \<union> set (keys sd' b)" for sd'
    using arg_cong [OF added, of set_mset] ent'(2) [of sd'] by simp
  have all: "mset (all_keys b') = add_mset ?new (mset (all_keys b))"
    using keys_other [where sd = sd and b = b' and b' = b and G = "[?new]"] other added by simp
  have nodes: "node_inv b" using inv by (simp add: book_inv_def)
  have "mset (map key_node (all_keys b')) = mset (map key_node (?new # all_keys b))"
    using all by simp
  then have "distinct (map key_node (all_keys b')) = distinct (map key_node (?new # all_keys b))"
    by (rule distinct_mset_eq)
  moreover have "distinct (map key_node (?new # all_keys b))"
    using nodes unfolding node_inv_all_keys by (force simp: key_node_def)
  moreover have "set (all_keys b') = insert ?new (set (all_keys b))"
    using arg_cong [OF all, of set_mset] by simp
  ultimately have node: "node_inv b'"
    using nodes unfolding node_inv_all_keys by (auto simp: nn key_node_def)
  have shape: "shape_inv b'"
    unfolding shape_inv_def using ok ents ent' other inv_levels [OF inv] inv_entry [OF inv] by metis
  have index: "index_inv b'"
    unfolding index_inv_def
  proof (intro allI)
    fix oid' :: OrderId and loc :: OrderLocation
    let ?k = "(loc_price loc, loc_it loc, oid')" and ?sd = "loc_side loc"
    have old: "order_index b i = Some loc \<longleftrightarrow> (loc_price loc, loc_it loc, i) \<in> set (keys ?sd b)" for i
      by (rule inv_index [OF inv])
    show "order_index b' oid' = Some loc \<longleftrightarrow> ?k \<in> set (keys ?sd b')"
    proof (cases "oid' = oid")
      case True
      have "?k \<notin> set (keys ?sd b)" using old [of oid] fresh True by simp
      then show ?thesis using True sets [of ?sd] by (cases loc) (auto simp: idx)
    next
      case False
      then show ?thesis using old [of oid'] sets [of ?sd] by (auto simp: idx)
    qed
  qed
  have count: "count_inv b'"
    unfolding count_inv_def
  proof
    fix sd'
    have old: "count_of sd' b = word_of_nat (length (entries sd' b))"
      using inv by (simp add: book_inv_def count_inv_def)
    show "count_of sd' b' = word_of_nat (length (entries sd' b'))"
    proof (cases "sd' = sd")
      case True
      have "length (keys sd b') = Suc (length (keys sd b))"
        using added by (metis size_mset size_add_mset)
      with True old cnt show ?thesis by (simp add: length_keys)
    qed (use other ent' old in simp)
  qed
  have "uncrossed b'"
    using inv sets apart unfolding book_inv_def uncrossed_keys by (cases sd) auto
  with node shape index count show ?thesis by (simp add: book_inv_def)
qed

section \<open>The operations\<close>

lemma matched_gone_ids:
  "l3_id ` set (matched_gone order xs) =
    (\<lambda>k. snd (snd k)) ` set (map ekey (gone_of (ord_quantity order) (eligible order xs)))"
  by (force simp: matched_gone_def ekey_def image_image case_prod_beta)

lemma matched_gone_side:
  assumes "\<forall>e \<in> set xs. entry_ok sd e" "r \<in> set (matched_gone order xs)"
  shows "l3_side r = sd"
proof -
  from assms(2) obtain p h where "(p, h, r) \<in> set (gone_of (ord_quantity order) (eligible order xs))"
    by (auto simp: matched_gone_def)
  then have "(p, h, r) \<in> set xs" using gone_of_subset eligible_subset by blast
  with assms(1) show ?thesis by (auto simp: entry_ok_def)
qed

lemma matched_entries_ok:
  assumes "\<forall>e \<in> set xs. entry_ok sd e"
  shows "\<forall>e \<in> set (matched_entries order xs). entry_ok sd e"
proof -
  have "\<forall>e \<in> set (eligible order xs). entry_ok sd e" "\<forall>e \<in> set (ineligible order xs). entry_ok sd e"
    using assms eligible_subset by (auto simp: ineligible_def dest: set_dropWhileD)
  then show ?thesis using left_of_ok by (auto simp: matched_entries_def)
qed

lemma match_incoming_inv:
  assumes inv: "book_inv b" and q: "in_i64 (ord_quantity order)"
  shows "book_inv (snd (match_incoming order ts b))"
proof (cases "fok_fails order b")
  case True
  with inv show ?thesis by (simp add: match_incoming_killed)
next
  case False
  let ?opp = "opposite (ord_side order)"
  let ?xs = "entries ?opp b" and ?gone = "matched_gone order (entries ?opp b)"
  let ?G = "map ekey (gone_of (ord_quantity order) (eligible order ?xs))"
  from match_incoming_spec [OF inv q False, of ts] obtain L where L: "lv_ok (before_of ?opp) L"
      "lv_flat L = matched_entries order ?xs"
    and res: "snd (match_incoming order ts b) =
      set_levels ?opp L (traded_book (order_trades order ts b) ?gone b)" (is "_ = ?b'")
    by (metis snd_conv)
  have side: "filter (\<lambda>r. l3_side r = sd) ?gone = (if sd = ?opp then ?gone else [])" for sd
    using matched_gone_side [of ?xs ?opp _ order] inv_entry [OF inv]
    by (auto simp: filter_empty_conv filter_id_conv)
  have len: "length ?gone = length ?G" by (simp add: matched_gone_def)
  have ents: "entries ?opp ?b' = matched_entries order ?xs"
    by (simp add: entries_def [of ?opp ?b'] L)
  show ?thesis
    unfolding res
  proof (rule book_inv_removed [OF inv, where sd = ?opp and G = ?G])
    show "mset (keys ?opp b) = mset ?G + mset (keys ?opp ?b')"
      unfolding keys_def ents using matched_keys [of ?xs order] by (metis mset_append)
    show "\<forall>e \<in> set (entries ?opp ?b'). entry_ok ?opp e"
      unfolding ents using inv_entry [OF inv] by (intro matched_entries_ok) blast
    show "order_index ?b' i = (if i \<in> (\<lambda>k. snd (snd k)) ` set ?G then None else order_index b i)" for i
      unfolding matched_gone_ids [symmetric] by (simp add: drop_ids_apply)
  qed (simp_all add: L side len)
qed

text \<open>The price limit: what is left eligible after a partial fill is nothing, and the rest is
  beyond the limit.\<close>

lemma fills_of_zero [simp]: "fills_of 0 xs = []"
  by (cases xs) auto

lemma left_of_all_gone:
  "0 < n - fill_total (fills_of n xs) \<Longrightarrow> \<forall>(p, h, r) \<in> set xs. l3_ok r \<Longrightarrow> left_of n xs = []"
  by (induction n xs rule: fills_of.induct)
    (auto simp: fill_total_def min_def l3_ok_def split: if_splits)

lemma price_break_mono:
  "before_of (opposite (ord_side order)) p q \<Longrightarrow> price_break order p \<Longrightarrow> price_break order q"
  by (cases "ord_side order") (auto simp: price_break_def)

lemma flat_sorted:
  "lv_ok before L \<Longrightarrow> sorted_wrt (\<lambda>x y. fst x = fst y \<or> before (fst x) (fst y)) (lv_flat L)"
proof (induction L)
  case Nil
  then show ?case by simp
next
  case (Cons l L)
  obtain p ys where l: "l = (p, ys)" by (cases l)
  have "sorted_wrt (\<lambda>x y. fst x = fst y \<or> before (fst x) (fst y)) (map (Pair p) ys)"
    by (auto simp: sorted_wrt_map intro: sorted_wrt_mono_rel [of _ "\<lambda>_ _. True"])
  moreover have "\<forall>y \<in> set (lv_flat L). before p (fst y)"
    using Cons.prems fst_lv_flat [of before L] unfolding l lv_ok_Cons by blast
  ultimately show ?case
    using Cons by (auto simp: l sorted_wrt_append lv_ok_Cons)
qed

lemma ineligible_break:
  assumes "lv_ok (before_of (opposite (ord_side order))) L" "e \<in> set (ineligible order (lv_flat L))"
  shows "price_break order (fst e)"
proof -
  let ?R = "\<lambda>x y. fst x = fst y \<or> before_of (opposite (ord_side order)) (fst x) (fst y)"
  have "sorted_wrt ?R (eligible order (lv_flat L) @ ineligible order (lv_flat L))"
    unfolding eligible_split by (rule flat_sorted [OF assms(1)])
  then have sorted: "sorted_wrt ?R (ineligible order (lv_flat L))"
    by (simp only: sorted_wrt_append)
  obtain x xs where x: "ineligible order (lv_flat L) = x # xs"
    using assms(2) by (cases "ineligible order (lv_flat L)") auto
  then have "price_break order (fst x)"
    unfolding ineligible_def by (auto simp: dropWhile_eq_Cons_conv split: prod.splits)
  moreover have "e = x \<or> ?R x e" using sorted assms(2) unfolding x by auto
  ultimately show ?thesis using price_break_mono [of order "fst x" "fst e"] by auto
qed

end
