(* ===== verification/L3_Operations.thy ===== *)
theory L3_Operations
  imports L3_Invariant
begin

text \<open>
  Every operation of the L3 book keeps the invariant, and no operation on a reachable book
  reads through a dangling iterator.  \<open>book_reach\<close> is the set of books the public operations
  can produce from an empty one, with or without callbacks installed.
\<close>

section \<open>Adding\<close>

definition rests :: "Order \<Rightarrow> Quantity \<Rightarrow> bool" where
  "rests order remaining \<longleftrightarrow> remaining > 0 \<and> ord_type order = Limit \<and>
     (ord_tif order = Day \<or> ord_tif order = GTC)"

lemma add_order_duplicate:
  "order_index b (ord_id order) \<noteq> None \<Longrightarrow> snd (add_order order ts b) = b"
  by (simp add: add_order_def Let_def)

lemma add_order_book:
  assumes "order_index b (ord_id order) = None" and "match_incoming order ts b = (res, b1)"
  shows "\<exists>c. snd (add_order order ts b) =
    (let b2 = (if rests order (res_remaining_qty res)
               then add_resting_order order (res_remaining_qty res) ts b1 else b1)
     in if c then publish_tob ts b2 else b2)"
  using assms
  by (cases "ord_tif order") (auto simp: add_order_def Let_def rests_def split: prod.splits)

lemma resting_order_ok:
  assumes "0 < n" "n \<le> ord_quantity order" "in_i64 (ord_quantity order)"
  shows "l3_ok ((resting_order order n ts)\<lparr>l3_queue_pos := w\<rparr>)"
proof -
  have "in_i64 (ord_quantity order - n)"
    using assms by (intro in_i64_nonneg [OF _ _ assms(3)]) auto
  then show ?thesis
    using assms by (simp add: l3_ok_def open_qty_def resting_order_def i64_simps)
qed

lemma add_resting_order_levels:
  fixes order b ts n
  defines "sd \<equiv> ord_side order" and "b' \<equiv> add_resting_order order n ts b"
  shows "levels_of sd b' = lv_append (before_of sd) (ord_price order) (next_node b,
      (resting_order order n ts)\<lparr>l3_queue_pos := word_of_nat
        (case map_of (levels_of sd b) (ord_price order) of None \<Rightarrow> 0 | Some q \<Rightarrow> length q)\<rparr>)
      (levels_of sd b)"
    and "sd' \<noteq> sd \<Longrightarrow> levels_of sd' b' = levels_of sd' b"
    and "count_of sd' b' = count_of sd' b + (if sd' = sd then 1 else 0)"
    and "order_index b' = (order_index b)(ord_id order \<mapsto>
      \<lparr>loc_side = sd, loc_price = ord_price order, loc_it = next_node b\<rparr>)"
    and "next_node b' = next_node b + 1"
    and "bk_symbol b' = bk_symbol b"
  by (simp_all add: assms add_resting_order_def Let_def)

lemma add_resting_order_inv:
  assumes inv: "book_inv b" and fresh: "order_index b (ord_id order) = None"
    and n: "0 < n" "n \<le> ord_quantity order" "in_i64 (ord_quantity order)"
    and apart: "\<forall>k \<in> set (keys (opposite (ord_side order)) b).
      before_of (opposite (ord_side order)) (ord_price order) (fst k)"
  shows "book_inv (add_resting_order order n ts b)"
proof -
  let ?b' = "add_resting_order order n ts b" and ?sd = "ord_side order" and ?p = "ord_price order"
  note lv = add_resting_order_levels [where order = order and n = n and ts = ts and b = b]
  show ?thesis
  proof (rule book_inv_added [OF inv, where sd = ?sd and p = ?p and oid = "ord_id order"])
    show "mset (keys ?sd ?b') = add_mset (?p, next_node b, ord_id order) (mset (keys ?sd b))"
      by (simp add: keys_def entries_def lv mset_lv_append ekey_def resting_order_def)
    show "lv_ok (before_of ?sd) (levels_of ?sd ?b')"
      unfolding lv by (rule side_order.append_ok [OF inv_levels [OF inv]])
    show "\<forall>e \<in> set (entries ?sd ?b'). entry_ok ?sd e"
      using inv_entry [OF inv, of _ ?sd] resting_order_ok [OF n]
      by (auto simp: entries_def lv entry_ok_def resting_order_def)
  qed (use fresh apart in \<open>simp_all add: lv\<close>)
qed

lemma fill_total_bounds:
  assumes "\<forall>(p, h, r) \<in> set xs. l3_ok r"
  shows "0 \<le> fill_total (fills_of n xs)" "fill_total (fills_of n xs) \<le> max 0 n"
proof -
  have "0 \<le> fill_total (fills_of n xs) \<and> fill_total (fills_of n xs) \<le> max 0 n"
    using assms
    by (induction n xs rule: fills_of.induct)
      (auto simp: fill_total_def l3_ok_def min_def max_def split: if_splits)
  then show "0 \<le> fill_total (fills_of n xs)" "fill_total (fills_of n xs) \<le> max 0 n" by simp_all
qed

lemma order_fills_bounds:
  assumes "book_inv b"
  shows "0 \<le> fill_total (order_fills order b)"
    and "fill_total (order_fills order b) \<le> max 0 (ord_quantity order)"
  using fill_total_bounds [of "eligible order (entries (opposite (ord_side order)) b)" "ord_quantity order"]
    inv_l3_ok [OF assms, of "opposite (ord_side order)"] eligible_subset
  unfolding order_fills_def by blast+

text \<open>Matching never brings a new order id into the index.\<close>

lemma match_incoming_fresh:
  assumes "book_inv b" "in_i64 (ord_quantity order)" "order_index b i = None"
  shows "order_index (snd (match_incoming order ts b)) i = None"
proof (cases "fok_fails order b")
  case True
  with assms show ?thesis by (simp add: match_incoming_killed)
next
  case False
  from match_incoming_spec [OF assms(1,2) False, of ts] obtain L where
    "snd (match_incoming order ts b) = set_levels (opposite (ord_side order)) L
      (traded_book (order_trades order ts b)
        (matched_gone order (entries (opposite (ord_side order)) b)) b)"
    by (metis snd_conv)
  with assms(3) show ?thesis by (simp add: drop_ids_apply)
qed

text \<open>When a limit order has quantity left, every order left on the other side is beyond its
  limit.\<close>

lemma match_incoming_apart:
  assumes inv: "book_inv b" and q: "in_i64 (ord_quantity order)"
    and res: "match_incoming order ts b = (res, b1)"
    and left: "rests order (res_remaining_qty res)"
  shows "\<forall>k \<in> set (keys (opposite (ord_side order)) b1).
      before_of (opposite (ord_side order)) (ord_price order) (fst k)"
    and "res_remaining_qty res \<le> ord_quantity order"
proof -
  let ?opp = "opposite (ord_side order)"
  let ?xs = "entries ?opp b"
  have run: "\<not> fok_fails order b" using left by (auto simp: rests_def fok_fails_def)
  from match_incoming_spec [OF inv q run, of ts] obtain L where L:
      "lv_flat L = matched_entries order ?xs" "lv_ok (before_of ?opp) L"
    and rem: "res_remaining_qty res = ord_quantity order - fill_total (order_fills order b)"
    and b1: "b1 = set_levels ?opp L (traded_book (order_trades order ts b) (matched_gone order ?xs) b)"
    using res by (metis Pair_inject MatchResult.select_convs(2))
  have ok: "\<forall>(p, h, r) \<in> set (eligible order ?xs). l3_ok r"
    using inv_l3_ok [OF inv, of ?opp] eligible_subset by blast
  have "0 < ord_quantity order - fill_total (order_fills order b)"
    using left rem by (simp add: rests_def)
  then have "left_of (ord_quantity order) (eligible order ?xs) = []"
    unfolding order_fills_def by (rule left_of_all_gone [OF _ ok])
  moreover have "levels_of ?opp b1 = L" by (simp add: b1)
  ultimately have ents: "entries ?opp b1 = ineligible order ?xs"
    by (simp add: entries_def [of ?opp b1] L matched_entries_def)
  have "price_break order (fst k)" if "k \<in> set (keys ?opp b1)" for k
  proof -
    from that obtain e where e: "e \<in> set (ineligible order ?xs)" "fst k = fst e"
      by (auto simp: keys_def ents ekey_def split: prod.splits)
    then show ?thesis
      using ineligible_break [OF inv_levels [OF inv]] by (simp add: entries_def)
  qed
  then show "\<forall>k \<in> set (keys ?opp b1). before_of ?opp (ord_price order) (fst k)"
    by (cases "ord_side order") (auto simp: price_break_def)
  show "res_remaining_qty res \<le> ord_quantity order"
    using order_fills_bounds(1) [OF inv, of order] by (simp add: rem)
qed

lemma add_order_inv:
  assumes inv: "book_inv b" and q: "in_i64 (ord_quantity order)"
  shows "book_inv (snd (add_order order ts b))"
proof (cases "order_index b (ord_id order)")
  case (Some loc)
  with inv show ?thesis by (simp add: add_order_duplicate)
next
  case None
  obtain res b1 where res: "match_incoming order ts b = (res, b1)" by fastforce
  have inv1: "book_inv b1"
    using match_incoming_inv [OF inv q, of ts] by (simp add: res)
  have fresh: "order_index b1 (ord_id order) = None"
    using match_incoming_fresh [OF inv q None, of ts] by (simp add: res)
  have "book_inv (add_resting_order order (res_remaining_qty res) ts b1)"
    if "rests order (res_remaining_qty res)"
    using that match_incoming_apart [OF inv q res that]
    by (intro add_resting_order_inv [OF inv1 fresh _ _ q]) (simp_all add: rests_def)
  with add_order_book [OF None res] inv1 show ?thesis
    by (auto simp: Let_def split: if_splits)
qed

section \<open>Cancelling\<close>

lemma ekey_pos [simp]: "ekey (p, h, r\<lparr>l3_queue_pos := w\<rparr>) = ekey (p, h, r)"
  by (simp add: ekey_def)

lemma entry_ok_pos [simp]: "entry_ok sd (p, h, r\<lparr>l3_queue_pos := w\<rparr>) = entry_ok sd (p, h, r)"
  by (simp add: entry_ok_def l3_ok_def open_qty_def)

lemma renumber_map:
  assumes "\<And>p h r w. f (p, h, r\<lparr>l3_queue_pos := w\<rparr>) = f (p, h, r)"
  shows "map f (map (Pair p) (renumber w q)) = map f (map (Pair p) q)"
  by (induction w q rule: renumber.induct) (simp_all add: assms)

lemma renumber_ok: "(\<forall>e \<in> set (renumber w q). entry_ok sd (p, e)) = (\<forall>e \<in> set q. entry_ok sd (p, e))"
  by (induction w q rule: renumber.induct) simp_all

lemma renumber_Nil [simp]: "renumber w q = [] \<longleftrightarrow> q = []"
  by (induction w q rule: renumber.induct) simp_all

text \<open>The levels after an entry is erased: its level disappears with its last order, and is
  renumbered otherwise.\<close>

definition erased_levels :: "Price \<Rightarrow> node \<Rightarrow> L3Order levels \<Rightarrow> L3Order levels" where
  "erased_levels p h L =
     (case map_of L p of None \<Rightarrow> L
      | Some q \<Rightarrow> if q_erase h q = [] then lv_erase p L else lv_set p (renumber 0 (q_erase h q)) L)"

lemma map_of_lv_set: "map_of (lv_set p ys L) p = (case map_of L p of None \<Rightarrow> None | Some _ \<Rightarrow> Some ys)"
  by (induction L) (auto simp: lv_set_def split: option.splits)

lemma lv_set_twice [simp]: "lv_set p ys (lv_set p zs L) = lv_set p ys L"
  by (simp add: lv_set_def comp_def case_prod_beta)

lemma remove_from_book_frame:
  fixes loc b
  defines "b' \<equiv> remove_from_book loc b"
  shows "levels_of sd b' = (if sd = loc_side loc
      then erased_levels (loc_price loc) (loc_it loc) (levels_of sd b) else levels_of sd b)"
    and "count_of sd b' = count_of sd b + (if sd = loc_side loc then - 1 else 0)"
    and "order_index b' = order_index b" and "next_node b' = next_node b"
    and "bk_symbol b' = bk_symbol b" and "tob_cb b' = tob_cb b"
  by (simp_all add: assms remove_from_book_def Let_def update_queue_positions_def erased_levels_def
      map_of_lv_set split: option.splits)

lemma erased_levels_spec:
  assumes ok: "lv_ok (before_of sd) L" and mem: "(p, h, r) \<in> set (lv_flat L)"
    and dist: "distinct (nodes_of L)"
  shows "lv_ok (before_of sd) (erased_levels p h L)"
    and "(\<And>p h r w. f (p, h, r\<lparr>l3_queue_pos := w\<rparr>) = f (p, h, r)) \<Longrightarrow>
      map f (lv_flat (erased_levels p h L)) = map f (filter (\<lambda>(_, k, _). k \<noteq> h) (lv_flat L))"
    and "\<forall>e \<in> set (lv_flat L). entry_ok sd e \<Longrightarrow>
      \<forall>e \<in> set (lv_flat (erased_levels p h L)). entry_ok sd e"
proof -
  from mem obtain q where "(p, q) \<in> set L" and hq: "(h, r) \<in> set q" by (auto simp: in_set_lv_flat)
  then have q: "map_of L p = Some q" by (simp add: side_order.map_of_level [OF ok])
  obtain L1 L2 where L: "L = L1 @ (p, q) # L2" "lv_erase p L = L1 @ L2"
      "\<And>zs. lv_set p zs L = L1 @ (p, zs) # L2"
    by (rule side_order.level_split [OF ok q]) (rule that)
  show "lv_ok (before_of sd) (erased_levels p h L)"
    using side_order.erase_ok [OF ok] side_order.set_ok [OF ok] by (simp add: erased_levels_def q)
  have out: "filter (\<lambda>(_, k, _). k \<noteq> h) (lv_flat K) = lv_flat K"
    if "h \<notin> set (nodes_of K)" for K :: "L3Order levels"
    using that by (force simp: filter_id_conv nodes_of_def)
  have h: "h \<notin> set (nodes_of L1)" "h \<notin> set (nodes_of L2)"
    using dist hq by (force simp: L(1))+
  have inq: "filter (\<lambda>(_, k, _). k \<noteq> h) (map (Pair p) q) = map (Pair p) (q_erase h q)"
    by (simp add: filter_map q_erase_def comp_def case_prod_unfold)
  have kept: "filter (\<lambda>(_, k, _). k \<noteq> h) (lv_flat L) =
      lv_flat L1 @ map (Pair p) (q_erase h q) @ lv_flat L2"
    using inq out [OF h(1)] out [OF h(2)] by (simp add: L(1))
  {
    assume f: "\<And>p h r w. f (p, h, r\<lparr>l3_queue_pos := w\<rparr>) = f (p, h, r)"
    show "map f (lv_flat (erased_levels p h L)) = map f (filter (\<lambda>(_, k, _). k \<noteq> h) (lv_flat L))"
      unfolding kept using renumber_map [of f p 0 "q_erase h q", OF f]
      by (simp add: erased_levels_def q L(2,3))
  }
  assume ents: "\<forall>e \<in> set (lv_flat L). entry_ok sd e"
  then have "\<forall>e \<in> set (renumber 0 (q_erase h q)). entry_ok sd (p, e)"
    unfolding renumber_ok by (auto simp: L(1) q_erase_def)
  moreover have "\<forall>e \<in> set (lv_flat (L1 @ L2)). entry_ok sd e"
    using ents by (auto simp: L(1))
  ultimately show "\<forall>e \<in> set (lv_flat (erased_levels p h L)). entry_ok sd e"
    by (auto simp: erased_levels_def q L(2,3))
qed

text \<open>The book after a cancellation, before its market data goes out.\<close>

definition cancelled_book :: "OrderId \<Rightarrow> OrderLocation \<Rightarrow> L3OrderBook \<Rightarrow> L3OrderBook" where
  "cancelled_book oid loc b =
     (let b1 = remove_from_book loc b in b1\<lparr>order_index := (order_index b1)(oid := None)\<rparr>)"

lemma cancelled_book_frame [simp]:
  "levels_of sd (cancelled_book oid loc b) = (if sd = loc_side loc
      then erased_levels (loc_price loc) (loc_it loc) (levels_of sd b) else levels_of sd b)"
  "count_of sd (cancelled_book oid loc b) = count_of sd b + (if sd = loc_side loc then - 1 else 0)"
  "order_index (cancelled_book oid loc b) = (order_index b)(oid := None)"
  "next_node (cancelled_book oid loc b) = next_node b"
  "bk_symbol (cancelled_book oid loc b) = bk_symbol b"
  by (simp_all add: cancelled_book_def Let_def remove_from_book_frame)

lemma cancelled_book_entries:
  assumes inv: "book_inv b" and loc: "order_index b oid = Some loc"
  shows "keys (loc_side loc) (cancelled_book oid loc b) =
      filter (\<lambda>k. key_node k \<noteq> loc_it loc) (keys (loc_side loc) b)"
    and "lv_ok (before_of (loc_side loc)) (levels_of (loc_side loc) (cancelled_book oid loc b))"
    and "\<forall>e \<in> set (entries (loc_side loc) (cancelled_book oid loc b)). entry_ok (loc_side loc) e"
    and "(\<And>p h r w. f (p, h, r\<lparr>l3_queue_pos := w\<rparr>) = f (p, h, r)) \<Longrightarrow>
      map f (entries (loc_side loc) (cancelled_book oid loc b)) =
      map f (filter (\<lambda>(_, k, _). k \<noteq> loc_it loc) (entries (loc_side loc) b))"
proof -
  let ?sd = "loc_side loc"
  from inv_index_deref [OF inv loc] obtain r where
    r: "(loc_price loc, loc_it loc, r) \<in> set (lv_flat (levels_of ?sd b))"
    by (auto simp: entries_def)
  have "distinct (nodes_of (levels_of ?sd b))"
    by (simp add: nodes_of_keys inv_distinct_nodes [OF inv])
  note spec = erased_levels_spec [OF inv_levels [OF inv] r this]
  show "keys ?sd (cancelled_book oid loc b) = filter (\<lambda>k. key_node k \<noteq> loc_it loc) (keys ?sd b)"
    using spec(2) [of ekey]
    by (simp add: keys_def entries_def filter_map comp_def case_prod_unfold key_node_def ekey_def)
  show "(\<And>p h r w. f (p, h, r\<lparr>l3_queue_pos := w\<rparr>) = f (p, h, r)) \<Longrightarrow>
      map f (entries ?sd (cancelled_book oid loc b)) =
      map f (filter (\<lambda>(_, k, _). k \<noteq> loc_it loc) (entries ?sd b))"
    using spec(2) [of f] by (simp add: entries_def)
  show "lv_ok (before_of ?sd) (levels_of ?sd (cancelled_book oid loc b))"
    using spec(1) by simp
  show "\<forall>e \<in> set (entries ?sd (cancelled_book oid loc b)). entry_ok ?sd e"
    using spec(3) inv_entry [OF inv, of _ ?sd] by (simp add: entries_def)
qed

lemma mset_filter_distinct:
  "distinct (map f xs) \<Longrightarrow> x \<in> set xs \<Longrightarrow>
    mset xs = mset [x] + mset (filter (\<lambda>y. f y \<noteq> f x) xs)"
proof (induction xs)
  case (Cons a xs)
  show ?case
  proof (cases "a = x")
    case True
    with Cons.prems have "filter (\<lambda>y. f y \<noteq> f x) xs = xs"
      by (intro filter_True) (auto simp: image_iff)
    with True show ?thesis by simp
  next
    case False
    with Cons.prems have "x \<in> set xs" "f a \<noteq> f x" by auto
    with Cons show ?thesis by simp
  qed
qed simp

lemma cancelled_book_inv:
  assumes inv: "book_inv b" and loc: "order_index b oid = Some loc"
  shows "book_inv (cancelled_book oid loc b)"
proof -
  let ?sd = "loc_side loc" and ?b' = "cancelled_book oid loc b"
  let ?k = "(loc_price loc, loc_it loc, oid)"
  note ents = cancelled_book_entries [OF inv loc]
  show ?thesis
  proof (rule book_inv_removed [OF inv, where sd = ?sd and G = "[?k]"])
    have "?k \<in> set (keys ?sd b)" using loc by (simp add: inv_index [OF inv])
    from mset_filter_distinct [OF inv_distinct_nodes [OF inv] this]
    show "mset (keys ?sd b) = mset [?k] + mset (keys ?sd ?b')"
      unfolding ents(1) by (simp add: key_node_def)
  qed (use ents in simp_all)
qed

lemma cancel_order_unknown:
  "order_index b oid = None \<Longrightarrow> cancel_order oid ts b =
    Some (default_report\<lparr>rpt_order_id := oid, rpt_transact_time := ts, rpt_status := Rejected,
      rpt_reject_reason := NoReject\<rparr>, b)"
  by (simp add: cancel_order_def Let_def)

lemma cancel_order_known:
  assumes "order_index b oid = Some loc" "deref b loc = Some r"
  shows "cancel_order oid ts b =
    Some (default_report\<lparr>rpt_order_id := oid, rpt_transact_time := ts,
      rpt_trader_id := l3_trader_id r, rpt_symbol := bk_symbol b, rpt_side := l3_side r,
      rpt_price := l3_price r,
      rpt_order_qty := i64 (i64 (l3_visible_qty r + l3_hidden_qty r) + l3_filled_qty r),
      rpt_filled_qty := l3_filled_qty r, rpt_leaves_qty := 0,
      rpt_status := Canceled, rpt_cl_ord_id := l3_cl_ord_id r\<rparr>,
      publish_tob ts (cancelled_book oid loc b))"
  using assms by (simp add: cancel_order_def cancelled_book_def Let_def)

lemma cancel_order_inv:
  assumes inv: "book_inv b" and cancel: "cancel_order oid ts b = Some (rpt, b')"
  shows "book_inv b'"
proof (cases "order_index b oid")
  case None
  with inv cancel show ?thesis by (simp add: cancel_order_unknown)
next
  case (Some loc)
  from inv_index_deref [OF inv Some] obtain r where "deref b loc = Some r" .
  with cancel have "b' = publish_tob ts (cancelled_book oid loc b)"
    by (simp add: cancel_order_known [OF Some])
  with cancelled_book_inv [OF inv Some] show ?thesis by simp
qed

lemma cancel_order_defined: "book_inv b \<Longrightarrow> \<exists>rpt b'. cancel_order oid ts b = Some (rpt, b')"
  by (cases "order_index b oid")
    (auto simp: cancel_order_unknown intro: inv_index_deref dest: cancel_order_known)

section \<open>Replacing\<close>

lemma replace_order_inv:
  assumes inv: "book_inv b" and q: "in_i64 (rep_new_qty req)"
    and replace: "replace_order req ts b = Some (rpt, b')"
  shows "book_inv b'"
proof -
  obtain crpt b1 where c: "cancel_order (rep_order_id req) ts b = Some (crpt, b1)"
    using cancel_order_defined [OF inv] by blast
  have inv1: "book_inv b1" by (rule cancel_order_inv [OF inv c])
  have "in_i64 (ord_quantity (replacement req (rpt_side crpt) ts))"
    using q by (simp add: replacement_def)
  from add_order_inv [OF inv1 this, of ts] inv1 replace show ?thesis
    by (auto simp: replace_order_def c split: if_splits)
qed

lemma replace_order_defined:
  assumes "book_inv b"
  shows "\<exists>rpt b'. replace_order req ts b = Some (rpt, b')"
proof -
  obtain crpt b1 where "cancel_order (rep_order_id req) ts b = Some (crpt, b1)"
    using cancel_order_defined [OF assms] by blast
  then show ?thesis
    by (cases "add_order (replacement req (rpt_side crpt) ts) ts b1") (simp add: replace_order_def)
qed

section \<open>Reachable books\<close>

inductive book_step :: "L3OrderBook \<Rightarrow> L3OrderBook \<Rightarrow> bool" where
  add: "in_i64 (ord_quantity order) \<Longrightarrow> book_step b (snd (add_order order ts b))"
| cancel: "cancel_order oid ts b = Some (rpt, b') \<Longrightarrow> book_step b b'"
| replace: "in_i64 (rep_new_qty req) \<Longrightarrow> replace_order req ts b = Some (rpt, b') \<Longrightarrow> book_step b b'"
| hook_trade: "book_step b (on_trade b)"
| hook_tob: "book_step b (on_top_of_book b)"
| hook_depth: "book_step b (on_depth b)"

inductive book_reach :: "L3OrderBook \<Rightarrow> bool" where
  empty: "book_reach (new_book s)"
| step: "book_reach b \<Longrightarrow> book_step b b' \<Longrightarrow> book_reach b'"

lemma book_step_inv: "book_step b b' \<Longrightarrow> book_inv b \<Longrightarrow> book_inv b'"
  by (induction rule: book_step.induct)
    (auto simp: add_order_inv book_inv_callbacks dest: cancel_order_inv replace_order_inv)

lemma book_reach_inv: "book_reach b \<Longrightarrow> book_inv b"
  by (induction rule: book_reach.induct) (auto simp: book_inv_new dest: book_step_inv)

end
