(* ===== verification/L3_Properties.thy ===== *)
theory L3_Properties
  imports L3_Operations
begin

text \<open>
  What the L3 book promises: it is never crossed, cancels never read a dangling iterator,
  matching follows price-time priority and the price limit, quantities are conserved,
  fill-or-kill is all or nothing, a cancel removes exactly one order.  The demonstration
  book \<open>demo_book\<close>, built by the operations themselves, is the concrete input of the witnesses.
\<close>

section \<open>A demonstration book\<close>

definition demo_order :: "OrderId \<Rightarrow> Side \<Rightarrow> TimeInForce \<Rightarrow> Price \<Rightarrow> Quantity \<Rightarrow> Order" where
  "demo_order oid sd tif px q = default_order\<lparr>ord_id := oid, ord_trader_id := oid + 100,
     ord_side := sd, ord_tif := tif, ord_price := px, ord_quantity := q\<rparr>"

definition demo_book :: L3OrderBook where
  "demo_book =
     snd (add_order (demo_order 4 Buy Day 99 7) 4
     (snd (add_order (demo_order 3 Sell Day 102 20) 3
     (snd (add_order (demo_order 2 Sell Day 101 5) 2
     (snd (add_order (demo_order 1 Sell Day 101 10) 1 (on_trade (new_book default_symbol)))))))))"

lemma demo_book_reach: "book_reach demo_book"
  unfolding demo_book_def
  by (intro book_reach.step [OF _ book_step.add] book_reach.step [OF _ book_step.hook_trade]
      book_reach.empty)
    (simp_all add: demo_order_def in_i64_def i64_min_def i64_max_def)

lemmas demo_simps = demo_book_def demo_order_def default_order_def new_book_def on_trade_def
  add_order_def match_incoming_def price_break_def match_one_def drop_filled_def
  reduce_resting_def add_resting_order_def resting_order_def publish_tob_def Let_def
  default_report_def i64_def

lemma demo_book_levels:
  "map (\<lambda>(p, q). (p, map (\<lambda>(h, r). (h, l3_id r, l3_visible_qty r)) q)) (asks demo_book)
     = [(101, [(0, 1, 10), (1, 2, 5)]), (102, [(2, 3, 20)])]"
  "map (\<lambda>(p, q). (p, map (\<lambda>(h, r). (h, l3_id r, l3_visible_qty r)) q)) (bids demo_book)
     = [(99, [(3, 4, 7)])]"
  by (simp_all add: demo_simps)

lemma demo_book_inv: "book_inv demo_book"
  by (rule book_reach_inv [OF demo_book_reach])

section \<open>Safety\<close>

lemma best_level_entry:
  assumes "best_level (levels_of sd b) = Some lv" and "book_inv b"
  shows "\<exists>x. (lvl_price lv, x) \<in> set (entries sd b)"
proof -
  from assms(1) obtain p q L where L: "levels_of sd b = (p, q) # L" and p: "lvl_price lv = p"
    by (auto simp: best_level_def book_level_def split: list.splits)
  from inv_levels [OF assms(2), of sd] L have "q \<noteq> []" by (simp add: lv_ok_Cons)
  then show ?thesis by (cases q) (auto simp: entries_def L p)
qed

lemma inv_uncrossed_best:
  assumes inv: "book_inv b" and "best_bid b = Some bb" and "best_ask b = Some ba"
  shows "lvl_price bb < lvl_price ba"
proof -
  from best_level_entry [of Buy b bb] best_level_entry [of Sell b ba] assms
  obtain x y where "(lvl_price bb, x) \<in> set (entries Buy b)" "(lvl_price ba, y) \<in> set (entries Sell b)"
    by (auto simp: best_bid_def best_ask_def)
  with inv show ?thesis unfolding book_inv_def uncrossed_def by blast
qed

text \<open>C5. The book is never crossed: in every reachable book with both sides non-empty the best
  bid is strictly below the best ask.\<close>

theorem reachable_uncrossed:
  assumes "book_reach b" and "best_bid b = Some bb" and "best_ask b = Some ba"
  shows "lvl_price bb < lvl_price ba"
  using inv_uncrossed_best [OF book_reach_inv] assms .

theorem reachable_uncrossed_witness:
  "best_bid demo_book = Some \<lparr>lvl_price = 99, lvl_qty = 7, lvl_order_count = 1\<rparr> \<and>
   best_ask demo_book = Some \<lparr>lvl_price = 101, lvl_qty = 15, lvl_order_count = 2\<rparr> \<and> 99 < (101::int)"
proof -
  have bid: "best_bid demo_book = Some \<lparr>lvl_price = 99, lvl_qty = 7, lvl_order_count = 1\<rparr>"
    and ask: "best_ask demo_book = Some \<lparr>lvl_price = 101, lvl_qty = 15, lvl_order_count = 2\<rparr>"
    by (simp_all add: demo_simps best_bid_def best_ask_def best_level_def book_level_def level_total_def)
  from reachable_uncrossed [OF demo_book_reach bid ask] bid ask show ?thesis by simp
qed

text \<open>C6. Memory safety of the iterators: on a reachable book, cancelling, replacing and asking
  for a queue position never read through a dangling list iterator, and the order found
  through the index is the order that was asked for.\<close>

theorem reachable_iterators_valid:
  assumes "book_reach b"
  shows "cancel_order oid ts b \<noteq> None \<and> replace_order req ts b \<noteq> None \<and>
    queue_position oid b \<noteq> None \<and>
    (case order_index b oid of None \<Rightarrow> True
     | Some loc \<Rightarrow> (\<exists>r. deref b loc = Some r \<and> l3_id r = oid \<and>
         l3_side r = loc_side loc \<and> l3_price r = loc_price loc))"
proof -
  from assms have inv: "book_inv b" by (rule book_reach_inv)
  have "\<exists>r. deref b loc = Some r \<and> l3_id r = oid \<and> l3_side r = loc_side loc \<and> l3_price r = loc_price loc"
    if "order_index b oid = Some loc" for loc
    using inv_index_deref [OF inv that] by (auto simp: entry_ok_def)
  then show ?thesis
    using cancel_order_defined [OF inv] replace_order_defined [OF inv]
    by (auto simp: queue_position_def split: option.splits)
qed

theorem reachable_iterators_valid_witness:
  "order_index demo_book 3 \<noteq> None \<and> cancel_order 3 9 demo_book \<noteq> None"
  using reachable_iterators_valid [OF demo_book_reach, of 3 9]
  by (simp add: demo_simps)

text \<open>The order ids of the book, each once.\<close>

lemma inv_distinct_ids:
  assumes inv: "book_inv b"
  shows "distinct (map (\<lambda>(p, h, r). l3_id r) (entries Buy b @ entries Sell b))"
proof -
  let ?ks = "keys Buy b @ keys Sell b" and ?id = "\<lambda>k :: Price \<times> node \<times> OrderId. snd (snd k)"
  have "distinct (map key_node ?ks)" using inv by (simp add: book_inv_def node_inv_def)
  then have dist: "distinct ?ks" by (simp only: distinct_map)
  have "inj_on ?id (set ?ks)"
  proof (rule inj_onI)
    fix k k' assume k: "k \<in> set ?ks" "k' \<in> set ?ks" "?id k = ?id k'"
    obtain p h i p' h' i' where s: "k = (p, h, i)" "k' = (p', h', i')" by (cases k; cases k') auto
    from k s obtain sd sd' where "(p, h, i) \<in> set (keys sd b)" "(p', h', i) \<in> set (keys sd' b)" by auto
    from inv_id_unique [OF inv this] k(3) s show "k = k'" by simp
  qed
  with dist have "distinct (map ?id ?ks)" unfolding distinct_map by (rule conjI)
  then show ?thesis by (simp add: keys_def ekey_def comp_def case_prod_unfold)
qed

text \<open>C15. Every reachable book is well formed: on each side the prices are strictly ordered from the
  best and no level is empty, every resting order sits on its own side at its own price with
  a positive open quantity that fits 64 bits and is all visible, the side's counter is the number
  of resting orders, no order id rests twice, no list node holds two orders, and the index maps
  an id to a location exactly if the order with that id rests at that side, price and node.  So
  the hidden quantities and the replenishment of icebergs are never in use.\<close>

theorem reachable_well_formed:
  assumes "book_reach b"
  shows "(\<forall>sd. sorted_wrt (before_of sd) (map fst (levels_of sd b)) \<and> (\<forall>(p, q) \<in> set (levels_of sd b). q \<noteq> []) \<and>
      (\<forall>(p, h, r) \<in> set (entries sd b). l3_side r = sd \<and> l3_price r = p \<and> 0 < open_qty r \<and> in_i64 (open_qty r) \<and>
        l3_hidden_qty r = 0 \<and> \<not> l3_is_iceberg r) \<and>
      count_of sd b = word_of_nat (length (entries sd b))) \<and>
    distinct (map (\<lambda>(p, h, r). l3_id r) (entries Buy b @ entries Sell b)) \<and>
    distinct (map (\<lambda>(p, h, r). h) (entries Buy b @ entries Sell b)) \<and>
    (\<forall>oid loc. order_index b oid = Some loc \<longleftrightarrow>
      (\<exists>r. l3_id r = oid \<and> (loc_price loc, loc_it loc, r) \<in> set (entries (loc_side loc) b)))" (is "?S \<and> ?D \<and> ?N \<and> ?I")
proof (intro conjI)
  from assms have inv: "book_inv b" by (rule book_reach_inv)
  then show ?S by (fastforce simp: book_inv_def shape_inv_def count_inv_def lv_ok_def entry_ok_def l3_ok_range l3_ok_def)
  show ?D using inv by (rule inv_distinct_ids)
  have "map key_node (keys Buy b @ keys Sell b) = map (\<lambda>(p, h, r). h) (entries Buy b @ entries Sell b)"
    by (simp add: keys_def key_node_def ekey_def comp_def case_prod_unfold)
  moreover have "distinct (map key_node (keys Buy b @ keys Sell b))" using inv by (simp add: book_inv_def node_inv_def)
  ultimately show ?N by (simp only:)
  show ?I unfolding inv_index [OF inv] by (force simp: keys_def ekey_def)
qed

theorem reachable_well_formed_witness:
  "order_index demo_book 3 = Some \<lparr>loc_side = Sell, loc_price = 102, loc_it = 2\<rparr> \<and> count_of Sell demo_book = 3"
proof -
  have "\<exists>r. l3_id r = 3 \<and> (102, 2, r) \<in> set (entries Sell demo_book)" "length (entries Sell demo_book) = 3"
    by (auto simp: entries_def demo_simps)
  with reachable_well_formed [OF demo_book_reach] show ?thesis by simp
qed

section \<open>Matching\<close>

lemma fills_nth:
  assumes "k < length (fills_of n xs)"
  shows "k < length xs \<and> fst (fills_of n xs ! k) = fst (xs ! k) \<and>
    fst (snd (fills_of n xs ! k)) = snd (snd (xs ! k)) \<and>
    snd (snd (fills_of n xs ! k)) \<le> open_qty (snd (snd (xs ! k))) \<and>
    (Suc k < length (fills_of n xs) \<longrightarrow>
      snd (snd (fills_of n xs ! k)) = open_qty (snd (snd (xs ! k))))"
  using assms
proof (induction n xs arbitrary: k rule: fills_of.induct)
  case (2 n p h r xs)
  show ?case
  proof (cases k)
    case 0
    have "n - min n (open_qty r) \<noteq> 0" if "fills_of (n - min n (open_qty r)) xs \<noteq> []"
      using that by auto
    with 0 "2.prems" show ?thesis by (auto simp: min_def split: if_splits)
  next
    case (Suc j)
    with 2 show ?thesis by (auto split: if_splits)
  qed
qed simp

lemma length_trades_for [simp]: "length (trades_for order ts symbol tid fs) = length fs"
  by (induction fs arbitrary: tid) simp_all

lemma trades_for_nth:
  "k < length fs \<Longrightarrow> trades_for order ts symbol tid fs ! k
    = trade_for order ts symbol (tid + word_of_nat k) (fs ! k)"
  by (induction fs arbitrary: tid k) (auto simp: nth_Cons add.assoc split: nat.splits)

lemma match_trades:
  assumes "book_inv b" "in_i64 (ord_quantity order)" "\<not> fok_fails order b"
  shows "res_trades (fst (match_incoming order ts b)) = order_trades order ts b"
    and "res_remaining_qty (fst (match_incoming order ts b))
      = ord_quantity order - fill_total (order_fills order b)"
  using match_incoming_spec [OF assms, of ts] by (metis MatchResult.select_convs(1,2) fst_conv)+

lemma eligible_nth:
  "k < length (eligible order xs) \<Longrightarrow> k < length xs \<and> eligible order xs ! k = xs ! k"
  unfolding eligible_def by (simp add: takeWhile_nth length_takeWhile_le less_le_trans)

text \<open>C1. Price-time priority.  The entries of the opposite side are in priority order, best
  price first; the \<open>k\<close>-th trade of an incoming order is with the \<open>k\<close>-th of them, at that
  order's price, for at most its open quantity, and every trade but the last fills its
  resting order completely: no order trades while an order before it is still open.\<close>

theorem price_time_priority:
  fixes b order ts
  defines "opp \<equiv> opposite (ord_side order)"
    and "trades \<equiv> res_trades (fst (match_incoming order ts b))"
  assumes reach: "book_reach b" and q: "in_i64 (ord_quantity order)"
  shows "sorted_wrt (\<lambda>x y. fst x = fst y \<or> before_of opp (fst x) (fst y)) (entries opp b) \<and>
    (\<forall>k < length trades. k < length (entries opp b) \<and>
      (case entries opp b ! k of (p, h, r) \<Rightarrow>
        trd_resting_id (trades ! k) = l3_id r \<and> trd_price (trades ! k) = p \<and>
        trd_qty (trades ! k) \<le> open_qty r \<and>
        (Suc k < length trades \<longrightarrow> trd_qty (trades ! k) = open_qty r)))"
proof -
  from reach have inv: "book_inv b" by (rule book_reach_inv)
  have sorted: "sorted_wrt (\<lambda>x y. fst x = fst y \<or> before_of opp (fst x) (fst y)) (entries opp b)"
    unfolding entries_def by (rule flat_sorted [OF inv_levels [OF inv]])
  have "k < length (entries opp b) \<and>
      (case entries opp b ! k of (p, h, r) \<Rightarrow>
        trd_resting_id (trades ! k) = l3_id r \<and> trd_price (trades ! k) = p \<and>
        trd_qty (trades ! k) \<le> open_qty r \<and>
        (Suc k < length trades \<longrightarrow> trd_qty (trades ! k) = open_qty r))"
    if k: "k < length trades" for k
  proof -
    have run: "\<not> fok_fails order b"
      using k by (auto simp: trades_def match_incoming_killed)
    have tr: "trades = order_trades order ts b"
      using match_trades(1) [OF inv q run] by (simp add: trades_def)
    let ?xs = "eligible order (entries opp b)"
    have len: "length trades = length (order_fills order b)" by (simp add: tr order_trades_def)
    have fs: "order_fills order b = fills_of (ord_quantity order) ?xs"
      by (simp add: order_fills_def opp_def)
    from k have kf: "k < length (fills_of (ord_quantity order) ?xs)" by (simp add: len fs)
    note f = fills_nth [OF kf]
    with eligible_nth [of k order "entries opp b"] have e: "k < length (entries opp b)"
      "?xs ! k = entries opp b ! k" by blast+
    obtain p h r where x: "entries opp b ! k = (p, h, r)" by (metis prod_cases3)
    have "trades ! k = trade_for order ts (bk_symbol b) (next_trade_id b + word_of_nat k)
        (fills_of (ord_quantity order) ?xs ! k)"
      using kf by (simp add: tr order_trades_def fs trades_for_nth)
    with f e x show ?thesis
      by (simp add: trade_for_def len fs case_prod_beta)
  qed
  with sorted show ?thesis by blast
qed

theorem price_time_priority_witness:
  "map (\<lambda>t. (trd_resting_id t, trd_price t, trd_qty t))
     (res_trades (fst (match_incoming (demo_order 9 Buy Day 102 18) 9 demo_book)))
   = [(1, 101, 10), (2, 101, 5), (3, 102, 3)] \<and>
   length (res_trades (fst (match_incoming (demo_order 9 Buy Day 102 18) 9 demo_book)))
     \<le> length (entries Sell demo_book)"
proof -
  have eval: "map (\<lambda>t. (trd_resting_id t, trd_price t, trd_qty t))
     (res_trades (fst (match_incoming (demo_order 9 Buy Day 102 18) 9 demo_book)))
     = [(1, 101, 10), (2, 101, 5), (3, 102, 3)]"
    by (simp add: demo_simps)
  have "in_i64 (ord_quantity (demo_order 9 Buy Day 102 18))"
    by (simp add: demo_order_def in_i64_def i64_min_def i64_max_def)
  from price_time_priority [OF demo_book_reach this, of 9] eval show ?thesis
    by (auto simp: demo_order_def dest: arg_cong [of _ _ length])
qed

lemma fills_of_member:
  "f \<in> set (fills_of n xs) \<Longrightarrow> \<exists>h. (fst f, h, fst (snd f)) \<in> set xs"
  by (induction n xs rule: fills_of.induct) (auto split: if_splits)

lemma fills_of_positive:
  "\<forall>(p, h, r) \<in> set xs. l3_ok r \<Longrightarrow> f \<in> set (fills_of n xs) \<Longrightarrow> 0 < snd (snd f)"
  by (induction n xs rule: fills_of.induct) (auto simp: l3_ok_def split: if_splits)

lemma trades_for_member:
  "t \<in> set (trades_for order ts symbol tid fs) \<Longrightarrow> \<exists>tid'. \<exists>f \<in> set fs. t = trade_for order ts symbol tid' f"
  by (induction fs arbitrary: tid) (simp, fastforce)

lemma order_trades_member:
  assumes "t \<in> set (order_trades order ts b)"
  obtains tid p r q where "(p, r, q) \<in> set (order_fills order b)"
    "t = trade_for order ts (bk_symbol b) tid (p, r, q)"
  using assms trades_for_member [of t order ts "bk_symbol b" "next_trade_id b" "order_fills order b"]
  unfolding order_trades_def by (metis prod_cases3)

lemma eligible_no_break: "e \<in> set (eligible order xs) \<Longrightarrow> \<not> price_break order (fst e)"
  by (auto simp: eligible_def dest: set_takeWhileD split: prod.splits)

lemma order_trades_positive:
  assumes "book_inv b" and "t \<in> set (order_trades order ts b)"
  shows "0 < trd_qty t"
proof -
  have ok: "\<forall>(p, h, r) \<in> set (eligible order (entries (opposite (ord_side order)) b)). l3_ok r"
    using inv_l3_ok [OF assms(1), of "opposite (ord_side order)"] eligible_subset by blast
  from assms(2) obtain tid p r q where "(p, r, q) \<in> set (order_fills order b)"
    "t = trade_for order ts (bk_symbol b) tid (p, r, q)" by (rule order_trades_member)
  with fills_of_positive [OF ok] show ?thesis by (fastforce simp: trade_for_def order_fills_def)
qed

text \<open>A limit order never trades through its limit, every trade has a positive quantity, and
  the two parties of a trade are on opposite sides: a buyer pays at most his limit, a seller
  receives at least his.\<close>

theorem trades_within_limit:
  assumes "book_reach b" and "in_i64 (ord_quantity order)"
    and "t \<in> set (res_trades (fst (match_incoming order ts b)))"
  shows "0 < trd_qty t \<and> trd_incoming_id t = ord_id order \<and> trd_symbol t = bk_symbol b \<and>
    trd_aggressor_side t = ord_side order \<and>
    (ord_type order = Limit \<longrightarrow>
      (case ord_side order of Buy \<Rightarrow> trd_price t \<le> ord_price order
       | Sell \<Rightarrow> ord_price order \<le> trd_price t))"
proof -
  from assms(1) have inv: "book_inv b" by (rule book_reach_inv)
  have run: "\<not> fok_fails order b" using assms(3) by (auto simp: match_incoming_killed)
  let ?xs = "eligible order (entries (opposite (ord_side order)) b)"
  from assms(3) obtain tid p r q where f: "(p, r, q) \<in> set (order_fills order b)"
    and t: "t = trade_for order ts (bk_symbol b) tid (p, r, q)"
    unfolding match_trades(1) [OF inv assms(2) run] by (rule order_trades_member)
  have "0 < trd_qty t"
    using order_trades_positive [OF inv] assms(3) by (simp add: match_trades(1) [OF inv assms(2) run])
  moreover from f obtain h where "(p, h, r) \<in> set ?xs"
    using fills_of_member unfolding order_fills_def by fastforce
  then have "\<not> price_break order p" using eligible_no_break by fastforce
  ultimately show ?thesis
    by (auto simp: t trade_for_def price_break_def split: Side.splits)
qed

theorem trades_within_limit_witness:
  "\<exists>t \<in> set (res_trades (fst (match_incoming (demo_order 9 Buy Day 101 12) 9 demo_book))).
     trd_price t \<le> 101"
proof -
  let ?o = "demo_order 9 Buy Day 101 12"
  have "in_i64 (ord_quantity ?o)"
    by (simp add: demo_order_def in_i64_def i64_min_def i64_max_def)
  moreover have "res_trades (fst (match_incoming ?o 9 demo_book)) \<noteq> []"
    by (simp add: demo_simps)
  then obtain t where "t \<in> set (res_trades (fst (match_incoming ?o 9 demo_book)))"
    by (metis hd_in_set)
  ultimately show ?thesis
    using trades_within_limit [OF demo_book_reach, of ?o t 9]
    by (auto simp: demo_order_def default_order_def)
qed

lemma opposite_neq [simp]: "opposite sd \<noteq> sd" "sd \<noteq> opposite sd"
  by (cases sd; simp)+

text \<open>Open quantity of one side.\<close>

definition open_total :: "(Price \<times> node \<times> L3Order) list \<Rightarrow> Quantity" where
  "open_total xs = sum_list (map (\<lambda>(p, h, r). open_qty r) xs)"

lemma open_total_append [simp]: "open_total (xs @ ys) = open_total xs + open_total ys"
  by (simp add: open_total_def)

lemma fills_open_total:
  "\<forall>(p, h, r) \<in> set xs. l3_ok r \<Longrightarrow>
    open_total (left_of n xs) + fill_total (fills_of n xs) = open_total xs"
proof (induction n xs rule: fills_of.induct)
  case (2 n p h r xs)
  consider "n \<le> 0" | "0 < n" "open_qty r \<le> n" | "0 < n" "n < open_qty r" by linarith
  then show ?case
  proof cases
    case 3
    with "2.prems" reduce_resting_amounts(1) [of r n]
    have "open_qty (reduce_resting n r) = open_qty r - n" by simp
    with 3 show ?thesis by (simp add: open_total_def fill_total_def)
  qed (use 2 in \<open>simp_all add: open_total_def fill_total_def\<close>)
qed (simp add: open_total_def fill_total_def)

lemma open_total_nonneg: "\<forall>(p, h, r) \<in> set xs. l3_ok r \<Longrightarrow> 0 \<le> open_total xs"
  by (induction xs) (auto simp: open_total_def l3_ok_def)

lemma sum_trades_for:
  "sum_list (map trd_qty (trades_for order ts symbol tid fs)) = fill_total fs"
  by (induction fs arbitrary: tid) (auto simp: fill_total_def trade_for_def split: prod.splits)

text \<open>C7. Conservation of quantity.  An incoming order's quantity is the sum of its trades plus
  what remains; the same amount leaves the open quantity of the opposite side, and the own
  side is untouched.\<close>

theorem quantity_conserved:
  fixes b order ts
  defines "opp \<equiv> opposite (ord_side order)"
    and "res \<equiv> fst (match_incoming order ts b)" and "b' \<equiv> snd (match_incoming order ts b)"
  assumes reach: "book_reach b" and q: "in_i64 (ord_quantity order)"
  shows "ord_quantity order = sum_list (map trd_qty (res_trades res)) + res_remaining_qty res \<and>
    open_total (entries opp b) = sum_list (map trd_qty (res_trades res)) + open_total (entries opp b') \<and>
    levels_of (ord_side order) b' = levels_of (ord_side order) b"
proof -
  from reach have inv: "book_inv b" by (rule book_reach_inv)
  show ?thesis
  proof (cases "fok_fails order b")
    case True
    then show ?thesis by (simp add: res_def b'_def match_incoming_killed)
  next
    case False
    from match_incoming_spec [OF inv q False, of ts] obtain L where
      L: "lv_flat L = matched_entries order (entries opp b)"
      and b': "b' = set_levels opp L (traded_book (order_trades order ts b)
        (matched_gone order (entries opp b)) b)"
      unfolding opp_def b'_def by (metis snd_conv)
    have "sum_list (map trd_qty (res_trades res)) = fill_total (order_fills order b)"
      using match_trades(1) [OF inv q False, of ts]
      by (simp add: res_def order_trades_def sum_trades_for)
    moreover have "levels_of opp b' = L" by (simp add: b')
    then have "entries opp b' = matched_entries order (entries opp b)"
      by (simp add: entries_def [of opp b'] L)
    moreover note this
    moreover have "open_total (matched_entries order (entries opp b))
        + fill_total (order_fills order b) = open_total (entries opp b)"
      using fills_open_total [of "eligible order (entries opp b)" "ord_quantity order"]
        inv_l3_ok [OF inv, of opp] eligible_subset [of order "entries opp b"]
        arg_cong [OF eligible_split [of order "entries opp b"], of open_total]
      unfolding matched_entries_def order_fills_def opp_def open_total_append by fastforce
    moreover have "levels_of (ord_side order) b' = levels_of (ord_side order) b"
      using opposite_neq [of "ord_side order"] by (simp add: b' opp_def)
    ultimately show ?thesis
      using match_trades(2) [OF inv q False, of ts] by (simp add: res_def)
  qed
qed

theorem quantity_conserved_witness:
  "\<exists>res b'. match_incoming (demo_order 9 Buy Day 101 18) 9 demo_book = (res, b') \<and>
     res_remaining_qty res = 3 \<and> open_total (entries Sell demo_book) = 35 \<and>
     open_total (entries Sell b') = 20"
proof -
  let ?o = "demo_order 9 Buy Day 101 18"
  obtain res b' where m: "match_incoming ?o 9 demo_book = (res, b')" by fastforce
  have "in_i64 (ord_quantity ?o)"
    by (simp add: demo_order_def in_i64_def i64_min_def i64_max_def)
  note c = quantity_conserved [OF demo_book_reach this, of 9, unfolded m]
  have "res_remaining_qty (fst (match_incoming ?o 9 demo_book)) = 3"
    by (simp add: demo_simps)
  moreover have "open_total (entries Sell demo_book) = 35"
    by (simp add: demo_simps entries_def open_total_def open_qty_def lv_flat_def)
  ultimately show ?thesis
    using c m by (simp add: demo_order_def)
qed

section \<open>Fill-or-kill\<close>

lemma queue_open_nonneg:
  "\<forall>(h, r) \<in> set q. l3_ok r \<Longrightarrow> 0 \<le> sum_list (map (\<lambda>(h, r). open_qty r) q)"
  by (induction q) (auto simp: l3_ok_def)

lemma foldl_i64_open:
  assumes "\<forall>(h, r) \<in> set q. l3_ok r" "0 \<le> a"
    and "in_i64 (a + sum_list (map (\<lambda>(h, r). open_qty r) q))"
  shows "foldl (\<lambda>a (h, r). i64 (a + i64 (l3_visible_qty r + l3_hidden_qty r))) a q
    = a + sum_list (map (\<lambda>(h, r). open_qty r) q)"
  using assms
proof (induction q arbitrary: a)
  case (Cons x q)
  obtain h r where x: "x = (h, r)" by (cases x)
  let ?S = "sum_list (map (\<lambda>(h, r). open_qty r) q)"
  have r: "l3_ok r" and S: "0 \<le> ?S"
    using Cons.prems(1) queue_open_nonneg [of q] by (simp_all add: x)
  then have pos: "0 < open_qty r" by (simp add: l3_ok_def)
  have rng: "in_i64 (a + open_qty r)"
    using Cons.prems(2,3) S pos by (intro in_i64_nonneg [OF _ _ Cons.prems(3)]) (auto simp: x)
  have "i64 (l3_visible_qty r + l3_hidden_qty r) = open_qty r"
    using l3_ok_range(1) [OF r] by (simp add: open_qty_def i64_id)
  moreover have "i64 (a + open_qty r) = a + open_qty r" by (rule i64_id [OF rng])
  ultimately show ?case
    using Cons.IH [of "a + open_qty r"] Cons.prems pos by (simp add: x add.assoc)
qed simp

text \<open>The fill-or-kill test decides whether the eligible liquidity reaches the quantity.\<close>

lemma fok_available_spec:
  assumes "\<forall>(p, h, r) \<in> set (lv_flat L). l3_ok r" and "\<forall>(p, q) \<in> set L. q \<noteq> []"
    and "0 \<le> a" and "in_i64 (a + open_total (lv_flat L))"
  shows "fok_available order a L < ord_quantity order \<longleftrightarrow>
    a + open_total (eligible order (lv_flat L)) < ord_quantity order"
  using assms
proof (induction L arbitrary: a)
  case Nil
  then show ?case by (simp add: eligible_def open_total_def)
next
  case (Cons l L)
  obtain p q where l: "l = (p, q)" by (cases l)
  let ?S = "sum_list (map (\<lambda>(h, r). open_qty r) q)"
  have tot: "open_total (map (Pair p) q) = ?S"
    by (simp add: open_total_def comp_def case_prod_unfold)
  from Cons.prems l obtain x q0 where q: "q = x # q0" by (cases q) auto
  have okq: "\<forall>(h, r) \<in> set q. l3_ok r" and okL: "\<forall>(p, h, r) \<in> set (lv_flat L). l3_ok r"
    using Cons.prems(1) by (fastforce simp: l)+
  have S: "0 \<le> ?S" and T: "0 \<le> open_total (lv_flat L)"
    using queue_open_nonneg [OF okq] open_total_nonneg [OF okL] by simp_all
  have rng: "in_i64 (a + ?S + open_total (lv_flat L))"
    using Cons.prems(4) by (simp add: l tot add.assoc)
  have rng1: "in_i64 (a + ?S)"
    using Cons.prems(3) S T by (intro in_i64_nonneg [OF _ _ rng]) auto
  show ?case
  proof (cases "price_break order p")
    case True
    then show ?thesis by (cases x) (simp add: l q eligible_def open_total_def)
  next
    case False
    have elig: "eligible order (lv_flat (l # L)) = map (Pair p) q @ eligible order (lv_flat L)"
      using False by (auto simp: l eligible_def intro!: takeWhile_append2)
    have E: "0 \<le> open_total (eligible order (lv_flat L))"
      using okL eligible_subset by (intro open_total_nonneg) blast
    have sum: "foldl (\<lambda>a (h, r). i64 (a + i64 (l3_visible_qty r + l3_hidden_qty r))) a q = a + ?S"
      by (rule foldl_i64_open [OF okq Cons.prems(3) rng1])
    show ?thesis
    proof (cases "ord_quantity order \<le> a + ?S")
      case True
      with False E show ?thesis
        unfolding elig open_total_append tot by (simp add: l sum Let_def)
    next
      case less: False
      have "fok_available order (a + ?S) L < ord_quantity order \<longleftrightarrow>
          a + ?S + open_total (eligible order (lv_flat L)) < ord_quantity order"
        using Cons.prems(2,3) S okL rng by (intro Cons.IH) auto
      with False less show ?thesis
        unfolding elig open_total_append tot by (simp add: l sum Let_def add.assoc)
    qed
  qed
qed

lemma fill_total_enough:
  "\<forall>(p, h, r) \<in> set xs. l3_ok r \<Longrightarrow> 0 \<le> n \<Longrightarrow> fill_total (fills_of n xs) = min n (open_total xs)"
proof (induction n xs rule: fills_of.induct)
  case (2 n p h r xs)
  from 2 have ok: "0 < open_qty r" and oks: "\<forall>(p, h, r) \<in> set xs. l3_ok r"
    by (auto simp: l3_ok_def)
  have "0 \<le> open_total xs" by (rule open_total_nonneg [OF oks])
  with 2 ok oks show ?case
    by (cases "open_qty r \<le> n") (auto simp: fill_total_def open_total_def min_def)
qed (simp add: fill_total_def open_total_def)

lemma inv_fok_fails:
  fixes b order
  defines "opp \<equiv> opposite (ord_side order)"
  assumes inv: "book_inv b" and tif: "ord_tif order = FOK" and tot: "in_i64 (open_total (entries opp b))"
  shows "fok_fails order b \<longleftrightarrow> open_total (eligible order (entries opp b)) < ord_quantity order"
  using fok_available_spec [of "levels_of opp b" 0 order] inv_l3_ok [OF inv, of opp]
    inv_levels [OF inv, of opp] tif tot
  by (auto simp: fok_fails_def entries_def opp_def lv_ok_def)

text \<open>C8. Fill-or-kill is all or nothing.  A limit fill-or-kill order whose quantity the eligible
  liquidity covers is reported filled, with trades that add up to its quantity; otherwise it
  is rejected for insufficient liquidity and neither side of the book changes.\<close>

theorem fok_all_or_nothing:
  fixes b order
  defines "opp \<equiv> opposite (ord_side order)"
  assumes reach: "book_reach b" and new: "order_index b (ord_id order) = None"
    and fok: "ord_tif order = FOK" "ord_type order = Limit"
    and q: "0 < ord_quantity order" "in_i64 (ord_quantity order)"
    and tot: "in_i64 (open_total (entries opp b))"
  shows "if ord_quantity order \<le> open_total (eligible order (entries opp b))
    then rpt_status (fst (add_order order ts b)) = Filled \<and>
      rpt_filled_qty (fst (add_order order ts b)) = ord_quantity order \<and>
      sum_list (map trd_qty (res_trades (fst (match_incoming order ts b)))) = ord_quantity order
    else rpt_status (fst (add_order order ts b)) = Rejected \<and>
      rpt_reject_reason (fst (add_order order ts b)) = InsufficientLiquidity \<and>
      rpt_filled_qty (fst (add_order order ts b)) = 0 \<and>
      snd (add_order order ts b) = b"
proof -
  from reach have inv: "book_inv b" by (rule book_reach_inv)
  note fails = inv_fok_fails [OF inv fok(1) tot [unfolded opp_def], folded opp_def]
  show ?thesis
  proof (cases "fok_fails order b")
    case True
    with fails new fok q show ?thesis
      by (simp add: add_order_def Let_def match_incoming_killed i64_def)
  next
    case False
    have ok: "\<forall>(p, h, r) \<in> set (eligible order (entries opp b)). l3_ok r"
      using inv_l3_ok [OF inv, of opp] eligible_subset by blast
    have total: "fill_total (order_fills order b) = ord_quantity order"
      using fill_total_enough [OF ok, of "ord_quantity order"] False fails q
      by (simp add: order_fills_def opp_def)
    obtain res b1 where res: "match_incoming order ts b = (res, b1)" by fastforce
    have "res_remaining_qty res = 0" "res_trades res = order_trades order ts b"
      using match_trades [OF inv q(2) False, of ts] total by (simp_all add: res)
    with False fails new fok q total show ?thesis
      by (simp add: add_order_def Let_def res i64_id order_trades_def sum_trades_for)
  qed
qed

theorem fok_all_or_nothing_witness:
  "rpt_status (fst (add_order (demo_order 9 Buy FOK 101 15) 9 demo_book)) = Filled \<and>
   rpt_status (fst (add_order (demo_order 9 Buy FOK 101 16) 9 demo_book)) = Rejected"
proof -
  have tot: "open_total (eligible (demo_order 9 Buy FOK 101 q) (entries Sell demo_book)) = 15"
      "in_i64 (open_total (entries Sell demo_book))" for q
    by (simp_all add: demo_simps entries_def open_total_def open_qty_def lv_flat_def eligible_def
        in_i64_def i64_min_def i64_max_def)
  have "order_index demo_book 9 = None" by (simp add: demo_simps)
  then show ?thesis
    using fok_all_or_nothing [OF demo_book_reach, of "demo_order 9 Buy FOK 101 15" 9]
      fok_all_or_nothing [OF demo_book_reach, of "demo_order 9 Buy FOK 101 16" 9] tot
    by (simp add: demo_order_def default_order_def in_i64_def i64_min_def i64_max_def)
qed

end
