(* ===== verification/L3_Reports.thy ===== *)
theory L3_Reports
  imports L3_Properties
begin

text \<open>
  The remaining promises of the L3 book: where an order rests after \<open>add_order\<close> and what the
  report says, the abstract map of resting orders that a cancel updates at one point, queue
  positions, callbacks, depth and top of book, and the places where the code does less than
  its documentation says (stale queue positions after fills, unfilled fill-or-kill market
  orders reported as new, no iceberg order ever created).
\<close>

section \<open>Resting\<close>

lemma add_order_frame:
  assumes "order_index b (ord_id order) = None" "match_incoming order ts b = (res, b1)"
  defines "b2 \<equiv> (if rests order (res_remaining_qty res)
    then add_resting_order order (res_remaining_qty res) ts b1 else b1)"
  shows "levels_of sd (snd (add_order order ts b)) = levels_of sd b2"
    and "order_index (snd (add_order order ts b)) = order_index b2"
  using add_order_book [OF assms(1,2)] by (auto simp: Let_def b2_def)

lemma match_incoming_own_side:
  assumes "book_inv b" "in_i64 (ord_quantity order)"
  shows "levels_of (ord_side order) (snd (match_incoming order ts b)) = levels_of (ord_side order) b"
proof (cases "fok_fails order b")
  case True
  then show ?thesis by (simp add: match_incoming_killed)
next
  case False
  from match_incoming_spec [OF assms False, of ts] obtain L where
    "snd (match_incoming order ts b) = set_levels (opposite (ord_side order)) L
      (traded_book (order_trades order ts b)
        (matched_gone order (entries (opposite (ord_side order)) b)) b)"
    by (metis snd_conv)
  then show ?thesis by simp
qed

text \<open>Where an incoming order rests.  What a day or good-til-cancel limit order leaves
  unmatched is queued behind all orders of its side at the same or a better price and before
  all orders at a worse one, and the index leads to it; an order of any other kind, or one
  with nothing left, leaves no trace on its own side and in the index.\<close>

theorem resting_order_queued:
  fixes b order ts
  defines "sd \<equiv> ord_side order" and "px \<equiv> ord_price order"
    and "rem \<equiv> res_remaining_qty (fst (match_incoming order ts b))"
    and "b' \<equiv> snd (add_order order ts b)"
  assumes reach: "book_reach b" and new: "order_index b (ord_id order) = None"
    and q: "in_i64 (ord_quantity order)"
  shows "if rem > 0 \<and> ord_type order = Limit \<and> (ord_tif order = Day \<or> ord_tif order = GTC)
    then \<exists>h r. order_index b' (ord_id order) = Some \<lparr>loc_side = sd, loc_price = px, loc_it = h\<rparr> \<and>
      l3_id r = ord_id order \<and> l3_visible_qty r = rem \<and> l3_hidden_qty r = 0 \<and>
      l3_filled_qty r = ord_quantity order - rem \<and>
      entries sd b' = filter (\<lambda>(p, _). \<not> before_of sd px p) (entries sd b)
        @ (px, h, r) # filter (\<lambda>(p, _). before_of sd px p) (entries sd b)
    else order_index b' (ord_id order) = None \<and> entries sd b' = entries sd b"
proof -
  from reach have inv: "book_inv b" by (rule book_reach_inv)
  obtain res b1 where res: "match_incoming order ts b = (res, b1)" by fastforce
  have own: "levels_of sd b1 = levels_of sd b"
    using match_incoming_own_side [OF inv q, of ts] by (simp add: res sd_def)
  have fresh: "order_index b1 (ord_id order) = None"
    using match_incoming_fresh [OF inv q new, of ts] by (simp add: res)
  note frame = add_order_frame [OF new res, folded b'_def]
  note lv = add_resting_order_levels [where order = order and n = rem and ts = ts and b = b1, folded sd_def px_def]
  show ?thesis
  proof (cases "rests order rem")
    case True
    let ?r = "(resting_order order rem ts)\<lparr>l3_queue_pos := word_of_nat
      (case map_of (levels_of sd b1) px of None \<Rightarrow> 0 | Some q \<Rightarrow> length q)\<rparr>"
    have le: "rem \<le> ord_quantity order" and pos: "0 < rem"
      using match_incoming_apart(2) [OF inv q res] True by (simp_all add: rem_def res rests_def)
    have "in_i64 (ord_quantity order - rem)"
      using le pos by (intro in_i64_nonneg [OF _ _ q]) auto
    then have r: "l3_id ?r = ord_id order" "l3_visible_qty ?r = rem" "l3_hidden_qty ?r = 0"
        "l3_filled_qty ?r = ord_quantity order - rem"
      by (simp_all add: resting_order_def i64_id)
    have idx: "order_index b' (ord_id order) =
        Some \<lparr>loc_side = sd, loc_price = px, loc_it = next_node b1\<rparr>"
      using frame(2) True lv(4) by (simp add: rem_def res)
    have "levels_of sd b' = lv_append (before_of sd) px (next_node b1, ?r) (levels_of sd b)"
      using frame(1) [of sd] True lv(1) own by (simp add: rem_def res)
    then have ents: "entries sd b' = filter (\<lambda>(p, _). \<not> before_of sd px p) (entries sd b)
        @ (px, next_node b1, ?r) # filter (\<lambda>(p, _). before_of sd px p) (entries sd b)"
      unfolding entries_def by (simp add: side_order.append_priority [OF inv_levels [OF inv]])
    show ?thesis
      unfolding if_P [OF True [unfolded rests_def]] using idx r ents by blast
  next
    case False
    then show ?thesis
      using frame own fresh by (auto simp: rests_def rem_def res entries_def)
  qed
qed

theorem resting_order_queued_witness:
  "map (\<lambda>(p, h, r). (p, l3_id r)) (entries Sell (snd (add_order (demo_order 9 Sell Day 101 4) 9 demo_book)))
     = [(101, 1), (101, 2), (101, 9), (102, 3)]"
proof -
  have "order_index demo_book (ord_id (demo_order 9 Sell Day 101 4)) = None"
    "in_i64 (ord_quantity (demo_order 9 Sell Day 101 4))"
    "res_remaining_qty (fst (match_incoming (demo_order 9 Sell Day 101 4) 9 demo_book)) = 4"
    by (simp_all add: demo_simps in_i64_def i64_min_def i64_max_def)
  moreover have "map (\<lambda>(p, h, r). (p, l3_id r)) (entries Sell demo_book) = [(101, 1), (101, 2), (102, 3)]"
    by (simp add: demo_simps entries_def lv_flat_def)
  moreover obtain x y z where "entries Sell demo_book = [x, y, z]"
    by (simp add: demo_simps entries_def lv_flat_def)
  ultimately show ?thesis
    using resting_order_queued [OF demo_book_reach, of "demo_order 9 Sell Day 101 4" 9]
    by (auto simp: demo_order_def default_order_def split: prod.splits)
qed

text \<open>C18. The report of an accepted day or good-til-cancel limit order: filled and leaves
  quantities add up to the order, the filled quantity is the sum of the trades, the status
  tells full, partial and no fill apart, and a partial fill names the last trade.\<close>

theorem limit_order_report:
  fixes b order ts
  defines "rpt \<equiv> fst (add_order order ts b)"
    and "trades \<equiv> res_trades (fst (match_incoming order ts b))"
  assumes reach: "book_reach b" and new: "order_index b (ord_id order) = None"
    and kind: "ord_type order = Limit" "ord_tif order = Day \<or> ord_tif order = GTC"
    and q: "0 < ord_quantity order" "in_i64 (ord_quantity order)"
  shows "rpt_filled_qty rpt + rpt_leaves_qty rpt = ord_quantity order \<and>
    rpt_filled_qty rpt = sum_list (map trd_qty trades) \<and>
    0 \<le> rpt_filled_qty rpt \<and> 0 \<le> rpt_leaves_qty rpt \<and>
    rpt_reject_reason rpt = NoReject \<and>
    (if rpt_leaves_qty rpt = 0 then rpt_status rpt = Filled
     else if rpt_filled_qty rpt = 0 then rpt_status rpt = New \<and> trades = []
     else rpt_status rpt = PartiallyFilled \<and> trades \<noteq> [] \<and>
       rpt_last_qty rpt = trd_qty (last trades) \<and> rpt_last_price rpt = trd_price (last trades))"
proof -
  from reach have inv: "book_inv b" by (rule book_reach_inv)
  have run: "\<not> fok_fails order b" using kind(2) by (auto simp: fok_fails_def)
  obtain res b1 where res: "match_incoming order ts b = (res, b1)" by fastforce
  let ?f = "fill_total (order_fills order b)"
  have tr: "trades = res_trades res" by (simp add: trades_def res)
  have rem: "res_remaining_qty res = ord_quantity order - ?f"
    and trs: "res_trades res = order_trades order ts b"
    using match_trades [OF inv q(2) run, of ts] by (simp_all add: res)
  have b: "0 \<le> ?f" "?f \<le> ord_quantity order"
    using order_fills_bounds [OF inv, of order] q(1) by simp_all
  have sum: "sum_list (map trd_qty trades) = ?f"
    by (simp add: tr trs order_trades_def sum_trades_for)
  have "in_i64 ?f" using b by (intro in_i64_nonneg [OF _ _ q(2)])
  then have filled: "i64 (ord_quantity order - res_remaining_qty res) = ?f"
    by (simp add: rem i64_id)
  have none: "trades = [] \<longleftrightarrow> ?f = 0"
  proof
    assume "?f = 0"
    show "trades = []"
    proof (rule ccontr)
      assume "trades \<noteq> []"
      then obtain t where t: "t \<in> set trades" by (metis hd_in_set)
      have pos: "\<forall>x \<in> set (map trd_qty trades). 0 < x"
        using order_trades_positive [OF inv] by (auto simp: tr trs)
      then have "trd_qty t \<le> sum_list (map trd_qty trades)"
        using t by (intro sum_list_nonneg_member) auto
      with sum \<open>?f = 0\<close> pos t show False by auto
    qed
  qed (use sum in simp)
  show ?thesis
    using new kind b sum none rem filled
    by (auto simp: rpt_def add_order_def Let_def res tr default_report_def)
qed

theorem limit_order_report_witness:
  "rpt_status (fst (add_order (demo_order 9 Buy Day 101 18) 9 demo_book)) = PartiallyFilled \<and>
   rpt_filled_qty (fst (add_order (demo_order 9 Buy Day 101 18) 9 demo_book)) = 15"
proof -
  have "order_index demo_book (ord_id (demo_order 9 Buy Day 101 18)) = None"
    "in_i64 (ord_quantity (demo_order 9 Buy Day 101 18))"
    "map trd_qty (res_trades (fst (match_incoming (demo_order 9 Buy Day 101 18) 9 demo_book))) = [10, 5]"
    by (simp_all add: demo_simps in_i64_def i64_min_def i64_max_def)
  then show ?thesis
    using limit_order_report [OF demo_book_reach, of "demo_order 9 Buy Day 101 18" 9]
    by (auto simp: demo_order_def default_order_def)
qed

section \<open>Cancelling and the abstract map of resting orders\<close>

text \<open>The abstraction of a book: its resting orders by id, without their queue positions, read
  the way the code reads them, through the index and its iterator.\<close>

definition strip :: "L3Order \<Rightarrow> L3Order" where
  "strip r = r\<lparr>l3_queue_pos := 0\<rparr>"

definition resting :: "L3OrderBook \<Rightarrow> OrderId \<Rightarrow> L3Order option" where
  "resting b oid =
     (case order_index b oid of None \<Rightarrow> None | Some loc \<Rightarrow> map_option strip (deref b loc))"

lemma strip_pos [simp]: "strip (r\<lparr>l3_queue_pos := w\<rparr>) = strip r"
  by (simp add: strip_def)

lemma strip_fields [simp]:
  "l3_id (strip r) = l3_id r" "l3_visible_qty (strip r) = l3_visible_qty r"
  "l3_price (strip r) = l3_price r" "l3_side (strip r) = l3_side r"
  by (simp_all add: strip_def)

lemma resting_iff:
  assumes "book_inv b"
  shows "resting b oid = Some r \<longleftrightarrow>
    (\<exists>sd p h r'. (p, h, r') \<in> set (entries sd b) \<and> l3_id r' = oid \<and> strip r' = r)"
proof
  assume "resting b oid = Some r"
  then obtain loc r' where "order_index b oid = Some loc" "deref b loc = Some r'" "strip r' = r"
    by (auto simp: resting_def split: option.splits)
  moreover from inv_index_deref [OF assms this(1)] this(2)
  have "l3_id r' = oid" "(loc_price loc, loc_it loc, r') \<in> set (entries (loc_side loc) b)" by auto
  ultimately show "\<exists>sd p h r'. (p, h, r') \<in> set (entries sd b) \<and> l3_id r' = oid \<and> strip r' = r"
    by blast
next
  assume "\<exists>sd p h r'. (p, h, r') \<in> set (entries sd b) \<and> l3_id r' = oid \<and> strip r' = r"
  then obtain sd p h r' where r: "(p, h, r') \<in> set (entries sd b)" "l3_id r' = oid" "strip r' = r"
    by blast
  let ?loc = "\<lparr>loc_side = sd, loc_price = p, loc_it = h\<rparr>"
  from r have "(p, h, oid) \<in> set (keys sd b)" by (force simp: keys_def ekey_def)
  then have "order_index b oid = Some ?loc" by (simp add: inv_index [OF assms])
  moreover have "deref b ?loc = Some r'" using r by (simp add: inv_deref [OF assms])
  ultimately show "resting b oid = Some r" using r by (simp add: resting_def)
qed

lemma entry_node_id:
  assumes inv: "book_inv b" and loc: "order_index b oid = Some loc"
    and e: "(p, h, r) \<in> set (entries (loc_side loc) b)"
  shows "h = loc_it loc \<longleftrightarrow> l3_id r = oid"
proof -
  let ?K = "keys (loc_side loc) b"
  have k: "(p, h, l3_id r) \<in> set ?K" using e by (force simp: keys_def ekey_def)
  have l: "(loc_price loc, loc_it loc, oid) \<in> set ?K" using loc by (simp add: inv_index [OF inv])
  show ?thesis
  proof
    assume "h = loc_it loc"
    with distinct_map_eqD [OF inv_distinct_nodes [OF inv] k l] show "l3_id r = oid"
      by (simp add: key_node_def)
  qed (use inv_id_unique(2) [OF inv] k l in blast)
qed

lemma cancelled_book_resting:
  assumes inv: "book_inv b" and loc: "order_index b oid = Some loc"
  shows "resting (cancelled_book oid loc b) = (resting b)(oid := None)"
proof
  fix i
  let ?b' = "cancelled_book oid loc b" and ?sd = "loc_side loc"
  let ?f = "\<lambda>(p, h, r). (p, h, strip r)"
  have img: "?f ` set (entries ?sd ?b') = ?f ` {e \<in> set (entries ?sd b). fst (snd e) \<noteq> loc_it loc}"
    using arg_cong [OF cancelled_book_entries(4) [OF inv loc, of ?f], of set]
    by (simp add: case_prod_unfold)
  have own: "(\<exists>p h r'. (p, h, r') \<in> set (entries ?sd ?b') \<and> l3_id r' = j \<and> strip r' = r) \<longleftrightarrow>
      (\<exists>p h r'. (p, h, r') \<in> set (entries ?sd b) \<and> l3_id r' = j \<and> strip r' = r \<and> j \<noteq> oid)" for j r
  proof -
    have "(\<exists>p h r'. (p, h, r') \<in> set (entries ?sd ?b') \<and> l3_id r' = j \<and> strip r' = r) \<longleftrightarrow>
        (\<exists>p h. (p, h, r) \<in> ?f ` set (entries ?sd ?b') \<and> l3_id r = j)"
      by force
    also have "\<dots> \<longleftrightarrow> (\<exists>p h r'. (p, h, r') \<in> set (entries ?sd b) \<and> h \<noteq> loc_it loc \<and> l3_id r' = j \<and> strip r' = r)"
      unfolding img by force
    finally show ?thesis using entry_node_id [OF inv loc] by blast
  qed
  have other: "entries sd ?b' = entries sd b" if "sd \<noteq> ?sd" for sd
    using that by (simp add: entries_def)
  have away: "l3_id r \<noteq> oid" if "(p, h, r) \<in> set (entries sd b)" "sd \<noteq> ?sd" for sd p h r
  proof
    assume "l3_id r = oid"
    with that have "(p, h, oid) \<in> set (keys sd b)" by (force simp: keys_def ekey_def)
    moreover have "(loc_price loc, loc_it loc, oid) \<in> set (keys ?sd b)"
      using loc by (simp add: inv_index [OF inv])
    ultimately show False using inv_id_unique(3) [OF inv] that(2) by blast
  qed
  have each: "(\<exists>p h r'. (p, h, r') \<in> set (entries sd ?b') \<and> l3_id r' = i \<and> strip r' = r) \<longleftrightarrow>
      (\<exists>p h r'. (p, h, r') \<in> set (entries sd b) \<and> l3_id r' = i \<and> strip r' = r) \<and> i \<noteq> oid" for sd r
  proof (cases "sd = ?sd")
    case True
    then show ?thesis unfolding True own by blast
  next
    case False
    show ?thesis unfolding other [OF False] using away [OF _ False] by blast
  qed
  have "resting ?b' i = Some r \<longleftrightarrow> ((resting b)(oid := None)) i = Some r" for r
  proof -
    have "resting ?b' i = Some r \<longleftrightarrow> resting b i = Some r \<and> i \<noteq> oid"
      unfolding resting_iff [OF inv] resting_iff [OF cancelled_book_inv [OF inv loc]] each by blast
    then show ?thesis by simp
  qed
  then show "resting ?b' i = ((resting b)(oid := None)) i"
    by (metis option.exhaust)
qed

lemma deref_publish [simp]: "deref (publish_tob ts b) = deref b"
  by (rule ext) (simp add: deref_def)

lemma resting_publish [simp]: "resting (publish_tob ts b) = resting b"
  by (rule ext) (simp add: resting_def split: option.split)

text \<open>C19. Cancelling refines deletion from the abstract map: exactly the named order leaves the
  book, every other resting order keeps its data, and the report says whether it was there
  and, if so, describes it.\<close>

theorem cancel_refines_delete:
  assumes reach: "book_reach b" and cancel: "cancel_order oid ts b = Some (rpt, b')"
  shows "resting b' = (resting b)(oid := None) \<and>
    (case resting b oid of None \<Rightarrow> rpt_status rpt = Rejected \<and> b' = b
     | Some r \<Rightarrow> rpt_status rpt = Canceled \<and> rpt_trader_id rpt = l3_trader_id r \<and>
         rpt_side rpt = l3_side r \<and> rpt_price rpt = l3_price r \<and>
         rpt_order_qty rpt = open_qty r + l3_filled_qty r \<and>
         rpt_filled_qty rpt = l3_filled_qty r \<and> rpt_leaves_qty rpt = 0)"
proof -
  from reach have inv: "book_inv b" by (rule book_reach_inv)
  show ?thesis
  proof (cases "order_index b oid")
    case None
    moreover have "(resting b)(oid := None) = resting b"
      using None by (simp add: fun_eq_iff resting_def)
    ultimately show ?thesis
      using cancel by (auto simp: cancel_order_unknown resting_def)
  next
    case (Some loc)
    from inv_index_deref [OF inv Some] obtain r where r: "deref b loc = Some r"
      and ok: "entry_ok (loc_side loc) (loc_price loc, loc_it loc, r)" .
    from ok have l3: "l3_ok r" by (simp add: entry_ok_def)
    have "i64 (i64 (l3_visible_qty r + l3_hidden_qty r) + l3_filled_qty r) = open_qty r + l3_filled_qty r"
      using l3_ok_range(1) [OF l3] l3 by (simp add: l3_ok_def open_qty_def i64_id)
    moreover have "resting b oid = Some (strip r)" by (simp add: resting_def Some r)
    moreover have "resting b' = (resting b)(oid := None)"
      using cancel cancelled_book_resting [OF inv Some] by (auto simp: cancel_order_known [OF Some r])
    ultimately show ?thesis
      using cancel by (auto simp: cancel_order_known [OF Some r] strip_def open_qty_def)
  qed
qed

theorem cancel_refines_delete_witness:
  "\<exists>rpt b'. cancel_order 1 9 demo_book = Some (rpt, b') \<and> resting b' 1 = None \<and>
     resting b' 2 = resting demo_book 2 \<and> resting demo_book 1 \<noteq> None"
proof -
  obtain rpt b' where c: "cancel_order 1 9 demo_book = Some (rpt, b')"
    using cancel_order_defined [OF demo_book_inv] by blast
  have "resting demo_book 1 \<noteq> None" by (simp add: demo_simps resting_def deref_def lv_deref_def)
  with c cancel_refines_delete [OF demo_book_reach c] show ?thesis by simp
qed

section \<open>Queue positions\<close>

lemma renumber_positions:
  "map (\<lambda>(h, r). l3_queue_pos r) (renumber w q) = map (\<lambda>k. w + word_of_nat k) [0..<length q]"
proof (induction w q rule: renumber.induct)
  case (2 pos h r q)
  have "map (\<lambda>k. pos + 1 + word_of_nat k) [0..<length q]
      = map (\<lambda>k. pos + word_of_nat k) (map Suc [0..<length q])"
    by (simp add: add.assoc)
  then show ?case
    using 2 by (simp add: map_Suc_upt upt_conv_Cons del: upt_Suc)
qed simp

text \<open>After a cancel the queue the order left is renumbered: its remaining orders have the
  positions 0, 1, 2 and so on, front to back.\<close>

theorem cancel_renumbers:
  assumes reach: "book_reach b" and loc: "order_index b oid = Some loc"
    and cancel: "cancel_order oid ts b = Some (rpt, b')"
    and level: "map_of (levels_of (loc_side loc) b') (loc_price loc) = Some q"
  shows "map (\<lambda>(h, r). l3_queue_pos r) q = map word_of_nat [0..<length q]"
proof -
  from reach have inv: "book_inv b" by (rule book_reach_inv)
  let ?sd = "loc_side loc" and ?p = "loc_price loc"
  from inv_index_deref [OF inv loc] obtain r where r: "deref b loc = Some r"
    "(?p, loc_it loc, r) \<in> set (entries ?sd b)" .
  then obtain q0 where q0: "map_of (levels_of ?sd b) ?p = Some q0"
    by (auto simp: deref_def lv_deref_def split: option.splits)
  have erase: "map_of (lv_erase ?p L) ?p = None" for L :: "L3Order levels"
    by (induction L) (auto simp: lv_erase_def)
  have "b' = publish_tob ts (cancelled_book oid loc b)"
    using cancel by (simp add: cancel_order_known [OF loc r(1)])
  then have "levels_of ?sd b' = erased_levels ?p (loc_it loc) (levels_of ?sd b)" by simp
  then have "q = renumber 0 (q_erase (loc_it loc) q0)"
    using level q0 by (auto simp: erased_levels_def erase map_of_lv_set split: if_splits)
  moreover from arg_cong [OF renumber_positions [of 0 "q_erase (loc_it loc) q0"], of length]
  have "length (renumber 0 (q_erase (loc_it loc) q0)) = length (q_erase (loc_it loc) q0)" by simp
  ultimately show ?thesis
    using renumber_positions [of 0 "q_erase (loc_it loc) q0"] by simp
qed

theorem cancel_renumbers_witness:
  "\<exists>rpt b' r. cancel_order 1 9 demo_book = Some (rpt, b') \<and>
     map_of (asks b') 101 = Some [(1, r)] \<and> l3_queue_pos r = 0"
proof -
  obtain rpt b' where c: "cancel_order 1 9 demo_book = Some (rpt, b')"
    using cancel_order_defined [OF demo_book_inv] by blast
  have loc: "order_index demo_book 1 = Some \<lparr>loc_side = Sell, loc_price = 101, loc_it = 0\<rparr>"
    by (simp add: demo_simps)
  from inv_index_deref [OF demo_book_inv loc] obtain r0 where "deref demo_book \<lparr>loc_side = Sell,
    loc_price = 101, loc_it = 0\<rparr> = Some r0" .
  with c have "b' = publish_tob 9 (cancelled_book 1 \<lparr>loc_side = Sell, loc_price = 101, loc_it = 0\<rparr> demo_book)"
    by (simp add: cancel_order_known [OF loc])
  then have "levels_of Sell b' = erased_levels 101 0 (asks demo_book)" by simp
  then have "\<exists>r. map_of (asks b') 101 = Some [(1, r)]"
    by (simp add: demo_simps erased_levels_def q_erase_def lv_set_def)
  then obtain r where q: "map_of (asks b') 101 = Some [(1, r)]" ..
  from cancel_renumbers [OF demo_book_reach loc c] q have "l3_queue_pos r = 0" by simp
  with c q show ?thesis by blast
qed

text \<open>Fills do not renumber.  After the front order of a level is filled, the order behind it
  still reports its old position, and the next order to arrive is given the same position:
  two orders of one queue report position 1 and nobody reports position 0.\<close>

theorem fill_leaves_stale_positions:
  "\<exists>b. book_reach b \<and> quantity_ahead 2 b = 0 \<and> quantity_ahead 9 b = 5 \<and>
     map l3_id (orders_at_price Sell 101 b) = [2, 9] \<and>
     queue_position 2 b = Some 1 \<and> queue_position 9 b = Some 1"
proof -
  let ?b = "snd (add_order (demo_order 9 Sell Day 101 4) 9
    (snd (add_order (demo_order 8 Buy IOC 101 10) 8
    (snd (add_order (demo_order 2 Sell Day 101 5) 2
    (snd (add_order (demo_order 1 Sell Day 101 10) 1 (new_book default_symbol))))))))"
  have reach: "book_reach ?b"
    by (intro book_reach.step [OF _ book_step.add] book_reach.empty)
      (simp_all add: demo_order_def in_i64_def i64_min_def i64_max_def)
  have eval: "quantity_ahead 2 ?b = 0 \<and> quantity_ahead 9 ?b = 5 \<and>
     map l3_id (orders_at_price Sell 101 ?b) = [2, 9] \<and>
     queue_position 2 ?b = Some 1 \<and> queue_position 9 ?b = Some 1"
    by code_simp
  show ?thesis by (rule exI [of _ ?b], rule conjI [OF reach eval])
qed

end
