(* ===== verification/L3_Service.thy ===== *)
theory L3_Service
  imports L3_Reports
begin

text \<open>
  The L3 book as the matching engine sees it: the contract of the three commands as a locale,
  its interpretation on the book of \<^verbatim>\<open>L3_Book\<close>, and the callbacks each command makes, which the
  engine turns into market data.
\<close>

section \<open>The contract\<close>

locale order_book_service =
  fixes inv :: "'b \<Rightarrow> bool"
    and live :: "'b \<Rightarrow> OrderId \<Rightarrow> bool"
    and add :: "Order \<Rightarrow> Timestamp \<Rightarrow> 'b \<Rightarrow> ExecutionReport \<times> 'b"
    and cancel :: "OrderId \<Rightarrow> Timestamp \<Rightarrow> 'b \<Rightarrow> (ExecutionReport \<times> 'b) option"
    and replace :: "ReplaceRequest \<Rightarrow> Timestamp \<Rightarrow> 'b \<Rightarrow> (ExecutionReport \<times> 'b) option"
  assumes add_keeps: "inv b \<Longrightarrow> in_i64 (ord_quantity order) \<Longrightarrow> inv (snd (add order ts b))"
    and add_duplicate: "inv b \<Longrightarrow> live b (ord_id order) \<Longrightarrow>
      snd (add order ts b) = b \<and> rpt_status (fst (add order ts b)) = Rejected"
    and cancel_total: "inv b \<Longrightarrow> \<exists>rpt b'. cancel oid ts b = Some (rpt, b')"
    and cancel_keeps: "inv b \<Longrightarrow> cancel oid ts b = Some (rpt, b') \<Longrightarrow> inv b'"
    and cancel_verdict: "inv b \<Longrightarrow> cancel oid ts b = Some (rpt, b') \<Longrightarrow>
      rpt_status rpt = (if live b oid then Canceled else Rejected)"
    and cancel_live: "inv b \<Longrightarrow> cancel oid ts b = Some (rpt, b') \<Longrightarrow>
      live b' i \<longleftrightarrow> live b i \<and> i \<noteq> oid"
    and replace_total: "inv b \<Longrightarrow> \<exists>rpt b'. replace req ts b = Some (rpt, b')"
    and replace_keeps: "inv b \<Longrightarrow> in_i64 (rep_new_qty req) \<Longrightarrow>
      replace req ts b = Some (rpt, b') \<Longrightarrow> inv b'"
begin

text \<open>A second cancel of the same order finds nothing, and changes nothing that is live.\<close>

lemma cancel_twice:
  assumes "inv b" and "cancel oid ts b = Some (rpt, b1)" and "cancel oid ts' b1 = Some (rpt', b2)"
  shows "rpt_status rpt' = Rejected \<and> (\<forall>i. live b2 i \<longleftrightarrow> live b1 i)"
proof -
  have inv1: "inv b1" by (rule cancel_keeps [OF assms(1,2)])
  have "\<not> live b1 oid" using cancel_live [OF assms(1,2)] by simp
  with cancel_verdict [OF inv1 assms(3)] cancel_live [OF inv1 assms(3)] show ?thesis by auto
qed

text \<open>Cancelling many orders one after the other never gets stuck and leaves exactly the others.\<close>

lemma cancel_all:
  assumes "inv b"
  shows "\<exists>b'. fold (\<lambda>oid r. Option.bind r (\<lambda>b. map_option snd (cancel oid ts b))) oids (Some b) = Some b' \<and>
    inv b' \<and> (\<forall>i. live b' i \<longleftrightarrow> live b i \<and> i \<notin> set oids)"
  using assms
proof (induction oids arbitrary: b)
  case (Cons oid oids)
  from cancel_total [OF Cons.prems] obtain rpt b1 where c: "cancel oid ts b = Some (rpt, b1)" by blast
  from Cons.IH [OF cancel_keeps [OF Cons.prems c]] cancel_live [OF Cons.prems c] show ?case
    by (auto simp: c)
qed auto

end

section \<open>The L3 book keeps it\<close>

definition live_order :: "L3OrderBook \<Rightarrow> OrderId \<Rightarrow> bool" where
  "live_order b oid \<longleftrightarrow> order_index b oid \<noteq> None"

lemma cancel_order_status:
  assumes inv: "book_inv b" and cancel: "cancel_order oid ts b = Some (rpt, b')"
  shows "rpt_status rpt = (if live_order b oid then Canceled else Rejected)"
    and "order_index b' = (order_index b)(oid := None)"
proof (atomize (full), cases "order_index b oid")
  case None
  with cancel show "rpt_status rpt = (if live_order b oid then Canceled else Rejected) \<and>
      order_index b' = (order_index b)(oid := None)"
    by (auto simp: cancel_order_unknown live_order_def fun_upd_idem)
next
  case (Some loc)
  from inv_index_deref [OF inv Some] obtain r where "deref b loc = Some r" .
  with cancel Some show "rpt_status rpt = (if live_order b oid then Canceled else Rejected) \<and>
      order_index b' = (order_index b)(oid := None)"
    by (auto simp: cancel_order_known live_order_def)
qed

interpretation l3: order_book_service book_inv live_order add_order cancel_order replace_order
proof
  fix b :: L3OrderBook and order :: Order and ts assume "book_inv b" "live_order b (ord_id order)"
  then show "snd (add_order order ts b) = b \<and> rpt_status (fst (add_order order ts b)) = Rejected"
    by (simp add: live_order_def add_order_def Let_def)
next
  fix b b' :: L3OrderBook and oid i ts rpt
  assume "book_inv b" and c: "cancel_order oid ts b = Some (rpt, b')"
  from cancel_order_status [OF this]
  show "rpt_status rpt = (if live_order b oid then Canceled else Rejected)"
    and "live_order b' i \<longleftrightarrow> live_order b i \<and> i \<noteq> oid"
    by (simp_all add: live_order_def)
qed (auto intro: add_order_inv cancel_order_inv cancel_order_defined replace_order_inv replace_order_defined)

section \<open>Callbacks\<close>

lemma top_of_book_cong:
  "bids b' = bids b \<Longrightarrow> asks b' = asks b \<Longrightarrow> bk_symbol b' = bk_symbol b \<Longrightarrow>
    top_of_book ts b' = top_of_book ts b"
  by (simp add: top_of_book_def best_bid_def best_ask_def)

lemma top_of_book_publish [simp]: "top_of_book ts (publish_tob ts' b) = top_of_book ts b"
  by (rule top_of_book_cong) (simp_all add: publish_tob_def)

lemma publish_tob_log:
  "bk_log (publish_tob ts b) = bk_log b @ (if tob_cb b then [TobEvent (top_of_book ts b)] else [])"
  by (simp add: publish_tob_def)

lemma add_resting_frame [simp]:
  "bk_log (add_resting_order order n ts b) = bk_log b"
  "tob_cb (add_resting_order order n ts b) = tob_cb b"
  "trade_cb (add_resting_order order n ts b) = trade_cb b"
  "bk_symbol (add_resting_order order n ts b) = bk_symbol b"
  "trade_count (add_resting_order order n ts b) = trade_count b"
  by (cases "ord_side order"; simp add: add_resting_order_def Let_def)+

text \<open>What matching does to the callbacks and the counters.\<close>

lemma match_incoming_log:
  assumes "book_inv b" "in_i64 (ord_quantity order)" "match_incoming order ts b = (res, b1)"
  shows "bk_log b1 = bk_log b @ (if trade_cb b then map TradeEvent (res_trades res) else [])"
    and "trade_count b1 = trade_count b + word_of_nat (length (res_trades res))"
    and "tob_cb b1 = tob_cb b" "trade_cb b1 = trade_cb b" "bk_symbol b1 = bk_symbol b"
proof (atomize (full), cases "fok_fails order b")
  case True
  then show "bk_log b1 = bk_log b @ (if trade_cb b then map TradeEvent (res_trades res) else []) \<and>
    trade_count b1 = trade_count b + word_of_nat (length (res_trades res)) \<and>
    tob_cb b1 = tob_cb b \<and> trade_cb b1 = trade_cb b \<and> bk_symbol b1 = bk_symbol b"
    using assms(3) by (auto simp: match_incoming_killed)
next
  case False
  from match_incoming_spec [OF assms(1,2) False, of ts] assms(3) obtain L where
    "res_trades res = order_trades order ts b"
    "b1 = set_levels (opposite (ord_side order)) L (traded_book (order_trades order ts b)
        (matched_gone order (entries (opposite (ord_side order)) b)) b)"
    by (metis Pair_inject MatchResult.select_convs(1))
  then show "bk_log b1 = bk_log b @ (if trade_cb b then map TradeEvent (res_trades res) else []) \<and>
    trade_count b1 = trade_count b + word_of_nat (length (res_trades res)) \<and>
    tob_cb b1 = tob_cb b \<and> trade_cb b1 = trade_cb b \<and> bk_symbol b1 = bk_symbol b"
    by (simp add: traded_book_def)
qed

definition trades_of :: "Order \<Rightarrow> Timestamp \<Rightarrow> L3OrderBook \<Rightarrow> Trade list" where
  "trades_of order ts b =
     (if order_index b (ord_id order) \<noteq> None then [] else res_trades (fst (match_incoming order ts b)))"

text \<open>The events of an \<open>add_order\<close>: the trades in the order they were made, then at most one top of
  book, computed on the final book.\<close>

lemma add_order_log:
  assumes inv: "book_inv b" and q: "in_i64 (ord_quantity order)"
  shows "bk_log (snd (add_order order ts b)) = bk_log b @
      (if trade_cb b then map TradeEvent (trades_of order ts b) else []) @
      (if tob_cb b \<and> (trades_of order ts b \<noteq> [] \<or> rpt_status (fst (add_order order ts b)) = New)
       then [TobEvent (top_of_book ts (snd (add_order order ts b)))] else [])"
    and "trade_count (snd (add_order order ts b)) =
      trade_count b + word_of_nat (length (trades_of order ts b))"
    and "tob_cb (snd (add_order order ts b)) = tob_cb b"
    and "trade_cb (snd (add_order order ts b)) = trade_cb b"
    and "bk_symbol (snd (add_order order ts b)) = bk_symbol b"
proof -
  obtain res b1 where m: "match_incoming order ts b = (res, b1)" by fastforce
  note frame = match_incoming_log [OF inv q m]
  have "\<exists>c b2. snd (add_order order ts b) = (if c then publish_tob ts b2 else b2) \<and>
      (c \<longleftrightarrow> trades_of order ts b \<noteq> [] \<or> rpt_status (fst (add_order order ts b)) = New) \<and>
      bk_log b2 = bk_log b @ (if trade_cb b then map TradeEvent (trades_of order ts b) else []) \<and>
      trade_count b2 = trade_count b + word_of_nat (length (trades_of order ts b)) \<and>
      tob_cb b2 = tob_cb b \<and> trade_cb b2 = trade_cb b \<and> bk_symbol b2 = bk_symbol b"
  proof (cases "order_index b (ord_id order)")
    case None
    define b2 where "b2 = (if rests order (res_remaining_qty res)
      then add_resting_order order (res_remaining_qty res) ts b1 else b1)"
    have add: "snd (add_order order ts b) = (if trades_of order ts b \<noteq> [] \<or>
        rpt_status (fst (add_order order ts b)) = New then publish_tob ts b2 else b2)"
      unfolding b2_def using None
      by (cases "ord_tif order") (auto simp: add_order_def Let_def rests_def trades_of_def m)
    have trs: "trades_of order ts b = res_trades res" by (simp add: trades_of_def None m)
    have "bk_log b2 = bk_log b1" "trade_count b2 = trade_count b1" "tob_cb b2 = tob_cb b1"
      "trade_cb b2 = trade_cb b1" "bk_symbol b2 = bk_symbol b1" by (simp_all add: b2_def)
    with add frame show ?thesis
      by (intro exI [of _ "trades_of order ts b \<noteq> [] \<or> rpt_status (fst (add_order order ts b)) = New"]
          exI [of _ b2]) (simp add: trs)
  next
    case (Some loc)
    then show ?thesis
      by (intro exI [of _ False] exI [of _ b]) (simp add: trades_of_def add_order_def Let_def)
  qed
  then obtain c b2 where add: "snd (add_order order ts b) = (if c then publish_tob ts b2 else b2)"
    "c \<longleftrightarrow> trades_of order ts b \<noteq> [] \<or> rpt_status (fst (add_order order ts b)) = New"
    and b2: "bk_log b2 = bk_log b @ (if trade_cb b then map TradeEvent (trades_of order ts b) else [])"
      "trade_count b2 = trade_count b + word_of_nat (length (trades_of order ts b))"
      "tob_cb b2 = tob_cb b" "trade_cb b2 = trade_cb b" "bk_symbol b2 = bk_symbol b"
    by blast
  show "bk_log (snd (add_order order ts b)) = bk_log b @
      (if trade_cb b then map TradeEvent (trades_of order ts b) else []) @
      (if tob_cb b \<and> (trades_of order ts b \<noteq> [] \<or> rpt_status (fst (add_order order ts b)) = New)
       then [TobEvent (top_of_book ts (snd (add_order order ts b)))] else [])"
    and "trade_count (snd (add_order order ts b)) =
      trade_count b + word_of_nat (length (trades_of order ts b))"
    and "tob_cb (snd (add_order order ts b)) = tob_cb b"
    and "trade_cb (snd (add_order order ts b)) = trade_cb b"
    and "bk_symbol (snd (add_order order ts b)) = bk_symbol b"
    unfolding add(2) [symmetric] unfolding add(1) by (simp_all add: publish_tob_log b2)
qed

lemma remove_from_book_events [simp]:
  "bk_log (remove_from_book loc b) = bk_log b" "tob_cb (remove_from_book loc b) = tob_cb b"
  "trade_cb (remove_from_book loc b) = trade_cb b" "trade_count (remove_from_book loc b) = trade_count b"
  by (simp_all add: remove_from_book_def update_queue_positions_def Let_def split: option.split)

lemma cancel_order_log:
  assumes inv: "book_inv b" and cancel: "cancel_order oid ts b = Some (rpt, b')"
  shows "bk_log b' = bk_log b @ (if tob_cb b \<and> live_order b oid then [TobEvent (top_of_book ts b')] else [])"
    and "trade_count b' = trade_count b" "tob_cb b' = tob_cb b" "trade_cb b' = trade_cb b"
    and "bk_symbol b' = bk_symbol b"
proof -
  have "bk_log b' = bk_log b @ (if tob_cb b \<and> live_order b oid then [TobEvent (top_of_book ts b')] else []) \<and>
    trade_count b' = trade_count b \<and> tob_cb b' = tob_cb b \<and> trade_cb b' = trade_cb b \<and> bk_symbol b' = bk_symbol b"
  proof (cases "order_index b oid")
    case None
    with cancel show ?thesis by (simp add: cancel_order_unknown live_order_def)
  next
    case (Some loc)
    from inv_index_deref [OF inv Some] obtain r where r: "deref b loc = Some r" .
    have b': "b' = publish_tob ts (cancelled_book oid loc b)"
      using cancel by (simp add: cancel_order_known [OF Some r])
    show ?thesis
      unfolding b' using Some
      by (simp add: publish_tob_log live_order_def) (simp add: cancelled_book_def Let_def)
  qed
  then show "bk_log b' = bk_log b @ (if tob_cb b \<and> live_order b oid then [TobEvent (top_of_book ts b')] else [])"
    and "trade_count b' = trade_count b" "tob_cb b' = tob_cb b" "trade_cb b' = trade_cb b"
    and "bk_symbol b' = bk_symbol b" by auto
qed

text \<open>The filled quantity an order is reported with is the sum of its trades, unless the order is
  fill-or-kill.\<close>

lemma add_order_filled:
  assumes inv: "book_inv b" and q: "0 \<le> ord_quantity order" "in_i64 (ord_quantity order)"
    and tif: "ord_tif order \<noteq> FOK"
  shows "rpt_filled_qty (fst (add_order order ts b)) = sum_list (map trd_qty (trades_of order ts b))"
    and "0 \<le> rpt_filled_qty (fst (add_order order ts b))"
proof -
  have run: "\<not> fok_fails order b" using tif by (simp add: fok_fails_def)
  obtain res b1 where res: "match_incoming order ts b = (res, b1)" by fastforce
  let ?f = "fill_total (order_fills order b)"
  have m: "res_remaining_qty res = ord_quantity order - ?f" "res_trades res = order_trades order ts b"
    using match_trades [OF inv q(2) run, of ts] by (simp_all add: res)
  have b: "0 \<le> ?f" "?f \<le> ord_quantity order"
    using order_fills_bounds [OF inv, of order] q(1) by simp_all
  then have "i64 ?f = ?f" using in_i64_nonneg [OF _ _ q(2)] by (intro i64_id)
  then show "rpt_filled_qty (fst (add_order order ts b)) = sum_list (map trd_qty (trades_of order ts b))"
    and "0 \<le> rpt_filled_qty (fst (add_order order ts b))"
    using tif m b
    by (cases "ord_tif order"; auto simp: add_order_def Let_def res trades_of_def default_report_def
        order_trades_def sum_trades_for)+
qed

text \<open>A day or good-til-cancel limit order that is not reported filled or rejected is live.\<close>

lemma add_order_live:
  assumes inv: "book_inv b" and q: "0 < ord_quantity order" "in_i64 (ord_quantity order)"
    and kind: "ord_type order = Limit" "ord_tif order = Day \<or> ord_tif order = GTC"
    and status: "rpt_status (fst (add_order order ts b)) \<noteq> Rejected"
      "rpt_status (fst (add_order order ts b)) \<noteq> Filled"
  shows "live_order (snd (add_order order ts b)) (ord_id order)"
proof -
  from status(1) have new: "order_index b (ord_id order) = None"
    by (auto simp: add_order_def Let_def split: if_splits)
  have run: "\<not> fok_fails order b" using kind(2) by (auto simp: fok_fails_def)
  obtain res b1 where res: "match_incoming order ts b = (res, b1)" by fastforce
  have rem: "res_remaining_qty res = ord_quantity order - fill_total (order_fills order b)"
    using match_trades [OF inv q(2) run, of ts] by (simp add: res)
  then have "0 \<le> res_remaining_qty res" using order_fills_bounds [OF inv, of order] q(1) by simp
  moreover have "res_remaining_qty res \<noteq> 0"
    using status(2) new kind by (auto simp: add_order_def Let_def res)
  ultimately have "rests order (res_remaining_qty res)" using kind by (simp add: rests_def)
  then show ?thesis
    by (simp add: live_order_def add_order_frame(2) [OF new res] add_resting_order_levels(4))
qed

end
