(* ===== verification/Binary64.thy ===== *)
theory Binary64
  imports Complex_Main
begin

text \<open>
  The arithmetic of \<^verbatim>\<open>double\<close>: the real result of every operation and conversion is rounded to a
  significand of 53 bits, to nearest with ties to even.  The exponent is unbounded here: the
  program adds, multiplies and divides prices, quantities, durations and counts, whose values
  are far from the exponents where a double overflows or loses precision to underflow.
\<close>

section \<open>Rounding\<close>

text \<open>To the nearest integer, ties to even.\<close>

definition round_even :: "real \<Rightarrow> int" where
  "round_even x = (let k = \<lfloor>x\<rfloor>; r = x - real_of_int k
     in if r < 1 / 2 then k else if r > 1 / 2 then k + 1 else if even k then k else k + 1)"

text \<open>How often a value is halved to come below two, or doubled to reach one.\<close>

function halvings :: "real \<Rightarrow> nat" where
  "halvings x = (if x < 2 then 0 else Suc (halvings (x / 2)))"
  by auto
termination
proof (relation "measure (\<lambda>x. nat \<lfloor>x\<rfloor>)")
  fix x :: real assume "\<not> x < 2"
  then have "\<lfloor>x / 2\<rfloor> < \<lfloor>x\<rfloor>" "0 < \<lfloor>x\<rfloor>" by linarith+
  then show "(x / 2, x) \<in> measure (\<lambda>x. nat \<lfloor>x\<rfloor>)" by simp
qed simp

function doublings :: "real \<Rightarrow> nat" where
  "doublings x = (if x \<le> 0 \<or> 1 \<le> x then 0 else Suc (doublings (2 * x)))"
  by auto
termination
proof (relation "measure (\<lambda>x. nat \<lceil>1 / x\<rceil>)")
  fix x :: real assume "\<not> (x \<le> 0 \<or> 1 \<le> x)"
  moreover define y where "y = 1 / x"
  ultimately have "1 < y" "1 / (2 * x) = y / 2" by simp_all
  moreover from this(1) have "2 \<le> \<lceil>y\<rceil>" by linarith
  then have "y / 2 \<le> real_of_int (\<lceil>y\<rceil> - 1)" "0 < \<lceil>y\<rceil>" using le_of_int_ceiling [of y] by linarith+
  ultimately have "\<lceil>1 / (2 * x)\<rceil> < \<lceil>1 / x\<rceil>" "0 < \<lceil>1 / x\<rceil>"
    by (simp_all only: y_def ceiling_le_iff flip: zle_diff1_eq)
  then show "(2 * x, x) \<in> measure (\<lambda>x. nat \<lceil>1 / x\<rceil>)" by simp
qed simp

declare halvings.simps [simp del] doublings.simps [simp del]

text \<open>The exponent of a value: the power of two it reaches.\<close>

definition binade :: "real \<Rightarrow> int" where
  "binade x = int (halvings \<bar>x\<bar>) - int (doublings \<bar>x\<bar>)"

definition dbl :: "real \<Rightarrow> real" where
  "dbl x = (if x = 0 then 0 else let unit = 2 powi (binade x - 52) in real_of_int (round_even (x / unit)) * unit)"

lemma round_even_of_int [simp]: "round_even (real_of_int k) = k"
  by (simp add: round_even_def)

lemma round_even_error: "\<bar>real_of_int (round_even x) - x\<bar> \<le> 1 / 2"
  unfolding round_even_def Let_def by (simp split: if_splits; linarith?)

lemma round_even_near: "\<bar>x - real_of_int k\<bar> < 1 / 2 \<Longrightarrow> round_even x = k"
  using round_even_error [of x] by linarith

lemma round_even_mono: "x \<le> y \<Longrightarrow> round_even x \<le> round_even y"
proof -
  assume le: "x \<le> y"
  show ?thesis
  proof (cases "\<lfloor>x\<rfloor> = \<lfloor>y\<rfloor>")
    case True
    with le show ?thesis by (simp add: round_even_def Let_def)
  next
    case False
    then have "\<lfloor>x\<rfloor> < \<lfloor>y\<rfloor>" using floor_mono [OF le] by simp
    moreover have "round_even x \<le> \<lfloor>x\<rfloor> + 1" "\<lfloor>y\<rfloor> \<le> round_even y" by (simp_all add: round_even_def Let_def)
    ultimately show ?thesis by linarith
  qed
qed

lemma round_even_minus: "round_even (- x) = - round_even x"
proof (cases "x = real_of_int \<lfloor>x\<rfloor>")
  case True
  then show ?thesis by (metis of_int_minus round_even_of_int)
next
  case False
  then have "\<lfloor>- x\<rfloor> = - \<lfloor>x\<rfloor> - 1" by linarith
  with False show ?thesis by (auto simp: round_even_def Let_def)
qed

section \<open>Exponents\<close>

lemma halvings_bounds: "1 \<le> x \<Longrightarrow> 2 ^ halvings x \<le> x \<and> x < 2 ^ Suc (halvings x)"
proof (induction x rule: halvings.induct)
  case (1 x)
  then show ?case by (cases "x < 2") (auto simp: halvings.simps [of x])
qed

lemma doublings_bounds: "0 < x \<Longrightarrow> x < 1 \<Longrightarrow> 1 \<le> x * 2 ^ doublings x \<and> x * 2 ^ doublings x < 2"
proof (induction x rule: doublings.induct)
  case (1 x)
  then have x: "\<not> (x \<le> 0 \<or> 1 \<le> x)" by simp
  show ?case
  proof (cases "1 \<le> 2 * x")
    case True
    with x show ?thesis by (simp add: doublings.simps [of x] doublings.simps [of "2 * x"])
  next
    case False
    with 1 x show ?thesis by (simp add: doublings.simps [of x] mult_ac)
  qed
qed

lemma binade_bounds:
  assumes "x \<noteq> 0"
  shows "2 powi binade x \<le> \<bar>x\<bar>" and "\<bar>x\<bar> < 2 powi (binade x + 1)"
proof -
  have "2 powi binade x \<le> \<bar>x\<bar> \<and> \<bar>x\<bar> < 2 * 2 powi binade x"
  proof (cases "1 \<le> \<bar>x\<bar>")
    case True
    then have "binade x = int (halvings \<bar>x\<bar>)" by (simp add: binade_def doublings.simps [of "\<bar>x\<bar>"])
    with halvings_bounds [OF True] show ?thesis by simp
  next
    case False
    then have "binade x = - int (doublings \<bar>x\<bar>)" by (simp add: binade_def halvings.simps [of "\<bar>x\<bar>"])
    with doublings_bounds [of "\<bar>x\<bar>"] False assms show ?thesis
      by (simp add: power_int_minus field_simps)
  qed
  then show "2 powi binade x \<le> \<bar>x\<bar>" "\<bar>x\<bar> < 2 powi (binade x + 1)"
    by (simp_all add: power_int_add)
qed

lemma powi_less_cancel: "(2 :: real) powi a < 2 powi b \<Longrightarrow> a < b"
  using power_int_increasing [of b a "2 :: real"] by linarith

lemma binade_unique:
  assumes "2 powi e \<le> \<bar>x\<bar>" and "\<bar>x\<bar> < 2 powi (e + 1)"
  shows "binade x = e"
proof -
  have "(0 :: real) < 2 powi e" by simp
  with assms(1) have "x \<noteq> 0" by linarith
  note b = binade_bounds [OF this]
  from assms(1) b(2) have "(2 :: real) powi e < 2 powi (binade x + 1)" by linarith
  moreover from assms(2) b(1) have "(2 :: real) powi binade x < 2 powi (e + 1)" by linarith
  ultimately show ?thesis by (auto dest!: powi_less_cancel)
qed

lemma binade_minus [simp]: "binade (- x) = binade x"
  by (simp add: binade_def)

lemma binade_mono: "0 < x \<Longrightarrow> x \<le> y \<Longrightarrow> binade x \<le> binade y"
proof -
  assume xy: "0 < x" "x \<le> y"
  have "2 powi binade x \<le> \<bar>x\<bar>" "\<bar>y\<bar> < 2 powi (binade y + 1)"
    by (rule binade_bounds; use xy in simp)+
  with xy have "(2 :: real) powi binade x < 2 powi (binade y + 1)" by linarith
  then show ?thesis by (auto dest!: powi_less_cancel)
qed

section \<open>Properties of the rounding\<close>

lemma dbl_zero [simp]: "dbl 0 = 0"
  by (simp add: dbl_def)

lemma dbl_minus: "dbl (- x) = - dbl x"
  by (simp add: dbl_def Let_def round_even_minus)

text \<open>Half a unit of the last place, relative to the value at most \<open>1 / 2\<^sup>5\<^sup>3\<close>.\<close>

lemma dbl_error: "\<bar>dbl x - x\<bar> \<le> \<bar>x\<bar> / 2 ^ 53"
proof (cases "x = 0")
  case False
  let ?u = "2 powi (binade x - 52) :: real"
  have u: "0 < ?u" by simp
  have "\<bar>dbl x - x\<bar> = \<bar>real_of_int (round_even (x / ?u)) - x / ?u\<bar> * ?u"
    using False u by (simp add: dbl_def Let_def abs_mult_pos' [symmetric] left_diff_distrib abs_mult_pos)
  also have "\<dots> \<le> 1 / 2 * ?u" using round_even_error [of "x / ?u"] by (intro mult_right_mono) auto
  also have "?u = 2 powi binade x / 2 ^ 52" by (simp add: power_int_diff)
  also have "1 / 2 * (2 powi binade x / 2 ^ 52) \<le> \<bar>x\<bar> / 2 ^ 53" using binade_bounds(1) [OF False] by simp
  finally show ?thesis .
qed simp

lemma dbl_error_le: "\<bar>x\<bar> \<le> y \<Longrightarrow> \<bar>dbl x - x\<bar> \<le> y / 2 ^ 53"
  using dbl_error [of x] by (rule order_trans) (simp add: divide_right_mono)

lemma dbl_at_most_twice: "0 \<le> x \<Longrightarrow> dbl x \<le> 2 * x"
proof -
  assume x: "0 \<le> x"
  then have "\<bar>x\<bar> / 2 ^ 53 \<le> x" by simp
  with dbl_error [of x] have "\<bar>dbl x - x\<bar> \<le> x" by (rule order_trans)
  then show ?thesis by linarith
qed

text \<open>A value with at most 53 significant bits is kept.\<close>

lemma dbl_exact:
  assumes k: "\<bar>k\<bar> \<le> 2 ^ 53"
  shows "dbl (real_of_int k * 2 powi e) = real_of_int k * 2 powi e"
proof (cases "k = 0")
  case False
  define x where "x = real_of_int k * 2 powi e"
  define u :: real where "u = 2 powi (binade x - 52)"
  have x0: "x \<noteq> 0" and u: "u \<noteq> 0" using False by (simp_all add: x_def u_def)
  note b = binade_bounds [OF x0]
  have "\<exists>m. x = real_of_int m * u"
  proof (cases "binade x - 52 \<le> e")
    case True
    define n where "n = nat (e - (binade x - 52))"
    have "e = int n + (binade x - 52)" using True by (simp add: n_def)
    then have "2 powi e = 2 ^ n * u" unfolding u_def by (metis power_int_add power_int_of_nat zero_neq_numeral)
    then have "x = real_of_int (k * 2 ^ n) * u" unfolding x_def by simp
    then show ?thesis by blast
  next
    case False
    then have e: "e + 53 \<le> binade x" by simp
    have "real_of_int \<bar>k\<bar> \<le> real_of_int (2 ^ 53)" using k by (simp only: of_int_le_iff)
    then have "\<bar>x\<bar> \<le> 2 ^ 53 * 2 powi e" by (simp add: x_def abs_mult)
    also have "\<dots> = 2 powi (e + 53)" by (simp add: power_int_add)
    also have "\<dots> \<le> 2 powi binade x" by (rule power_int_increasing [OF e]) simp
    finally have "\<bar>x\<bar> = 2 ^ 52 * u" using b(1) by (simp add: u_def power_int_diff)
    then have "x = real_of_int (2 ^ 52) * u \<or> x = real_of_int (- (2 ^ 52)) * u" by (auto simp: abs_if split: if_splits)
    then show ?thesis by blast
  qed
  then obtain m where m: "x = real_of_int m * u" by blast
  then have "round_even (x / u) = m" using u by simp
  then have "real_of_int (round_even (x / u)) * u = x" using m by simp
  then have "dbl x = x" using x0 unfolding dbl_def u_def Let_def by simp
  then show ?thesis by (simp add: x_def)
qed simp

lemma dbl_of_int [simp]: "\<bar>k\<bar> \<le> 2 ^ 53 \<Longrightarrow> dbl (real_of_int k) = real_of_int k"
  using dbl_exact [of k 0] by simp

lemma dbl_of_nat [simp]: "n \<le> 2 ^ 53 \<Longrightarrow> dbl (real n) = real n"
  using dbl_of_int [of "int n"] by simp

lemma dbl_one [simp]: "dbl 1 = 1"
  using dbl_of_int [of 1] by simp

lemma dbl_numeral [simp]: "numeral n \<le> (2 :: int) ^ 53 \<Longrightarrow> dbl (numeral n) = numeral n"
  using dbl_of_int [of "numeral n"] by simp

lemma dbl_neg_numeral [simp]: "numeral n \<le> (2 :: int) ^ 53 \<Longrightarrow> dbl (- numeral n) = - numeral n"
  using dbl_of_int [of "- numeral n"] by simp

lemma dbl_positive_bounds:
  assumes "0 < x"
  shows "2 powi binade x \<le> dbl x" and "dbl x \<le> 2 powi (binade x + 1)"
proof -
  define u :: real where "u = 2 powi (binade x - 52)"
  have u: "0 < u" by (simp add: u_def)
  have dbl: "dbl x = real_of_int (round_even (x / u)) * u" using assms by (simp add: dbl_def u_def Let_def)
  have eq: "2 powi binade x = real_of_int (2 ^ 52) * u" "2 powi (binade x + 1) = real_of_int (2 ^ 53) * u"
    by (simp_all add: u_def power_int_diff power_int_add)
  have "2 powi binade x \<le> x" "x < 2 powi (binade x + 1)" using binade_bounds [of x] assms by simp_all
  then have "real_of_int (2 ^ 52) \<le> x / u" "x / u \<le> real_of_int (2 ^ 53)" unfolding eq using u
    by (simp_all add: pos_le_divide_eq pos_divide_le_eq)
  from round_even_mono [OF this(1)] round_even_mono [OF this(2)]
  have "2 ^ 52 \<le> round_even (x / u)" "round_even (x / u) \<le> 2 ^ 53" by (simp_all only: round_even_of_int)
  then have "real_of_int (2 ^ 52) \<le> real_of_int (round_even (x / u))" "real_of_int (round_even (x / u)) \<le> real_of_int (2 ^ 53)"
    by (simp_all only: of_int_le_iff)
  then show "2 powi binade x \<le> dbl x" "dbl x \<le> 2 powi (binade x + 1)"
    unfolding eq dbl using u by (simp_all only: mult_right_mono less_imp_le)
qed

lemma dbl_positive: "0 < x \<Longrightarrow> 0 < dbl x"
  using dbl_positive_bounds(1) [of x] by (smt (verit) zero_less_power_int)

lemma dbl_mono_positive: "0 < x \<Longrightarrow> x \<le> y \<Longrightarrow> dbl x \<le> dbl y"
proof (cases "binade x = binade y")
  case True
  assume "0 < x" "x \<le> y"
  then have "round_even (x / 2 powi (binade y - 52)) \<le> round_even (y / 2 powi (binade y - 52))"
    by (intro round_even_mono divide_right_mono) simp_all
  with True \<open>0 < x\<close> \<open>x \<le> y\<close> show ?thesis by (simp add: dbl_def Let_def mult_right_mono)
next
  case False
  assume xy: "0 < x" "x \<le> y"
  with False binade_mono [OF xy] have e: "binade x + 1 \<le> binade y" by simp
  have "dbl x \<le> 2 powi (binade x + 1)" by (rule dbl_positive_bounds(2) [OF xy(1)])
  also have "\<dots> \<le> 2 powi binade y" by (rule power_int_increasing [OF e]) simp
  also have "\<dots> \<le> dbl y" by (rule dbl_positive_bounds(1)) (use xy in simp)
  finally show ?thesis .
qed

lemma dbl_mono: "x \<le> y \<Longrightarrow> dbl x \<le> dbl y"
proof -
  assume le: "x \<le> y"
  consider "0 < x" | "y < 0" | "x \<le> 0" "0 \<le> y" by linarith
  then show ?thesis
  proof cases
    case 2
    with le dbl_mono_positive [of "- y" "- x"] show ?thesis by (simp add: dbl_minus)
  next
    case 3
    then have "dbl x \<le> 0" "0 \<le> dbl y" using dbl_positive [of "- x"] dbl_positive [of y]
      by (cases "x = 0"; simp add: dbl_minus; cases "y = 0"; simp)+
    then show ?thesis by simp
  qed (rule dbl_mono_positive [OF _ le])
qed

lemma dbl_nonneg: "0 \<le> x \<Longrightarrow> 0 \<le> dbl x"
  using dbl_mono [of 0 x] by simp

text \<open>Rounding does not leave an interval with integral ends.\<close>

lemma dbl_ge_int: "real_of_int k \<le> x \<Longrightarrow> \<bar>k\<bar> \<le> 2 ^ 53 \<Longrightarrow> real_of_int k \<le> dbl x"
  using dbl_mono [of "real_of_int k" x] by simp

lemma dbl_le_int: "x \<le> real_of_int k \<Longrightarrow> \<bar>k\<bar> \<le> 2 ^ 53 \<Longrightarrow> dbl x \<le> real_of_int k"
  using dbl_mono [of x "real_of_int k"] by simp

text \<open>A value within a quarter unit of the last place of an integer is rounded to it.\<close>

lemma dbl_near_int:
  assumes k: "0 < k" "k < 2 ^ 53" and near: "\<bar>y - real_of_int k\<bar> < real_of_int k / 2 ^ 54"
  shows "dbl y = real_of_int k"
proof -
  have kr: "1 \<le> real_of_int k" "real_of_int k \<le> 2 ^ 53 - 1"
  proof -
    have "k \<le> 2 ^ 53 - 1" using k(2) by simp
    then have "real_of_int k \<le> real_of_int (2 ^ 53 - 1)" by (simp only: of_int_le_iff)
    then show "real_of_int k \<le> 2 ^ 53 - 1" by simp
  qed (use k in simp)
  then have "0 \<le> real_of_int k / 2 ^ 54" "real_of_int k / 2 ^ 54 \<le> 1 / 2" by (simp_all add: field_simps)
  with near kr have y: "1 / 2 < y" "y < 2 ^ 53" by linarith+
  define u :: real where "u = 2 powi (binade y - 52)"
  have y0: "y \<noteq> 0" "\<bar>y\<bar> = y" "0 < u" using y(1) by (simp_all add: u_def)
  note b = binade_bounds [OF y0(1), unfolded y0(2)]
  have half: "(2 :: real) powi (- 1) = 1 / 2" "(2 :: real) powi 53 = 2 ^ 53" by (simp_all add: power_int_minus)
  have "(2 :: real) powi (- 1) < 2 powi (binade y + 1)" "(2 :: real) powi binade y < 2 powi 53"
    unfolding half using b y by linarith+
  from this [THEN powi_less_cancel] have e: "- 1 \<le> binade y" "binade y \<le> 52" by simp_all
  have ku: "real_of_int k = real_of_int (k * 2 ^ nat (52 - binade y)) * u"
  proof -
    have "2 ^ nat (52 - binade y) * u = 2 powi (int (nat (52 - binade y)) + (binade y - 52))"
      unfolding u_def by (simp add: power_int_add del: int_nat_eq)
    then have "2 ^ nat (52 - binade y) * u = 1" using e(2) by simp
    then show ?thesis by simp
  qed
  have "k \<le> 2 ^ nat (binade y + 1)"
  proof (rule ccontr)
    assume "\<not> k \<le> 2 ^ nat (binade y + 1)"
    then have "2 ^ nat (binade y + 1) + 1 \<le> k" by simp
    then have "real_of_int (2 ^ nat (binade y + 1) + 1) \<le> real_of_int k" by (simp only: of_int_le_iff)
    then have "2 ^ nat (binade y + 1) + 1 \<le> real_of_int k" by simp
    moreover have "2 powi (binade y + 1) = (2 :: real) ^ nat (binade y + 1)"
      using e(1) by (simp add: power_int_def)
    ultimately have "y + 1 < real_of_int k" using b(2) by linarith
    moreover have "real_of_int k / 2 ^ 54 \<le> 1" using kr(2) by simp
    ultimately show False using near by linarith
  qed
  then have "real_of_int k \<le> real_of_int (2 ^ nat (binade y + 1))" by (simp only: of_int_le_iff)
  also have "\<dots> = 2 powi (binade y + 1)" using e(1) by (simp add: power_int_def)
  also have "\<dots> = 2 ^ 53 * u" by (simp add: u_def power_int_add power_int_diff)
  finally have "\<bar>y - real_of_int k\<bar> < u / 2" using near by simp
  then have "\<bar>y - real_of_int k\<bar> / u < 1 / 2" using y0(3) by (simp add: pos_divide_less_eq)
  moreover have "real_of_int k / u = real_of_int (k * 2 ^ nat (52 - binade y))" using ku y0(3) by (simp add: field_simps)
  moreover have "\<bar>y - real_of_int k\<bar> / u = \<bar>y / u - real_of_int k / u\<bar>"
    using y0(3) by (simp add: abs_divide flip: diff_divide_distrib)
  ultimately have "\<bar>y / u - real_of_int (k * 2 ^ nat (52 - binade y))\<bar> < 1 / 2" by linarith
  then have "round_even (y / u) = k * 2 ^ nat (52 - binade y)" by (rule round_even_near)
  with ku y0(1) show ?thesis unfolding dbl_def u_def [symmetric] Let_def by simp
qed

section \<open>Conversions, quotients and ranks\<close>

text \<open>The conversion to an integer drops the fraction.\<close>

definition trunc_real :: "real \<Rightarrow> int" where
  "trunc_real x = (if x < 0 then \<lceil>x\<rceil> else \<lfloor>x\<rfloor>)"

lemma trunc_real_minus: "trunc_real (- x) = - trunc_real x"
  by (simp add: trunc_real_def ceiling_def)

lemma trunc_real_of_int [simp]: "trunc_real (real_of_int k) = k"
  by (simp add: trunc_real_def)

text \<open>A truncated quotient of integers below \<open>2\<^sup>5\<^sup>3\<close> is exact.\<close>

lemma floor_dbl_quotient:
  assumes a: "0 \<le> a" "a < 2 ^ 53" and b: "0 < b"
  shows "\<lfloor>dbl (real_of_int a / real_of_int b)\<rfloor> = a div b"
proof -
  let ?y = "real_of_int a / real_of_int b"
  have q: "real_of_int (a div b) \<le> ?y" "\<bar>a div b\<bar> \<le> 2 ^ 53"
  proof -
    show "real_of_int (a div b) \<le> ?y" using b by (simp add: pos_le_divide_eq minus_mod_eq_div_mult [symmetric] flip: of_int_mult)
    have "0 \<le> a div b" "a div b \<le> a" using a b zdiv_mono2 [of a 1 b] by (simp_all add: pos_imp_zdiv_nonneg_iff)
    with a show "\<bar>a div b\<bar> \<le> 2 ^ 53" by linarith
  qed
  have "a + 1 \<le> (a div b + 1) * b"
    unfolding distrib_right using pos_mod_bound [OF b, of a] div_mult_mod_eq [of a b] by linarith
  then have "real_of_int (a + 1) \<le> real_of_int ((a div b + 1) * b)" by (simp only: of_int_le_iff)
  then have "?y + 1 / real_of_int b \<le> real_of_int (a div b + 1)"
    using b by (simp add: pos_divide_le_eq flip: add_divide_distrib)
  moreover have "?y / 2 ^ 53 < 1 / real_of_int b"
  proof -
    have "real_of_int a < real_of_int (2 ^ 53)" using a(2) by (simp only: of_int_less_iff)
    then have "real_of_int a / 2 ^ 53 < 1" by simp
    then have "real_of_int a / 2 ^ 53 / real_of_int b < 1 / real_of_int b" using b by (intro divide_strict_right_mono) simp_all
    then show ?thesis by (simp add: mult.commute)
  qed
  moreover have "0 \<le> ?y" using a b by simp
  ultimately have "dbl ?y < real_of_int (a div b + 1)" using dbl_error [of ?y] by (simp add: abs_of_nonneg)
  then show ?thesis using dbl_ge_int [OF q] by (simp add: floor_eq_iff)
qed

lemma trunc_dbl_quotient:
  assumes "\<bar>a\<bar> < 2 ^ 53" and "0 < b"
  shows "trunc_real (dbl (real_of_int a / real_of_int b)) = trunc_real (real_of_int a / real_of_int b)"
proof -
  have pos: "trunc_real (dbl (real_of_int c / real_of_int b)) = trunc_real (real_of_int c / real_of_int b)"
    if "0 \<le> c" "c < 2 ^ 53" for c
  proof -
    have "0 \<le> real_of_int c / real_of_int b" using that assms(2) by simp
    then show ?thesis using floor_dbl_quotient [OF that assms(2)] dbl_nonneg [of "real_of_int c / real_of_int b"]
      by (simp add: trunc_real_def floor_divide_of_int_eq)
  qed
  show ?thesis
  proof (cases "0 \<le> a")
    case False
    with assms(1) pos [of "- a"] show ?thesis by (simp add: dbl_minus trunc_real_minus)
  qed (use assms pos in simp)
qed

text \<open>The literal for a fraction.\<close>

lemma dbl_literal:
  assumes "0 < x" and "2 powi e \<le> x" and "x < 2 powi (e + 1)" and "\<bar>x / 2 powi (e - 52) - real_of_int k\<bar> < 1 / 2"
  shows "dbl x = real_of_int k * 2 powi (e - 52)"
proof -
  have "binade x = e" using assms(1-3) by (intro binade_unique) simp_all
  with assms(1) round_even_near [OF assms(4)] show ?thesis by (simp add: dbl_def Let_def)
qed

text \<open>How near the literal \<open>c\<close> has to be to \<open>a / b\<close>, and the rank it then gives of \<open>n\<close> elements.\<close>

definition good_literal :: "real \<Rightarrow> nat \<Rightarrow> nat \<Rightarrow> bool" where
  "good_literal c a b \<longleftrightarrow> 0 < a \<and> a < b \<and> b \<le> 1000 \<and> \<bar>c - real a / real b\<bar> < real a / real b / 2 ^ 54"

lemma rounding_gap:
  assumes near: "\<bar>y - x\<bar> < x / 2 ^ 54" and x: "0 \<le> x" "x < 2 ^ 42"
  shows "\<bar>dbl y - x\<bar> < 1 / 1000"
proof -
  have "\<bar>y\<bar> \<le> x + x / 2 ^ 54" using near x(1) by linarith
  also have "\<dots> \<le> 5 / 4 * x" using x(1) by simp
  finally have "\<bar>y\<bar> / 2 ^ 53 \<le> 5 / 4 * x / 2 ^ 53" by (rule divide_right_mono) simp
  with dbl_error [of y] have "\<bar>dbl y - y\<bar> \<le> 5 / 4 * x / 2 ^ 53" by (rule order_trans)
  then have "\<bar>dbl y - x\<bar> < 5 / 4 * x / 2 ^ 53 + x / 2 ^ 54" using near by linarith
  also have "\<dots> \<le> x / 2 ^ 52" using x(1) by simp
  also have "\<dots> \<le> 1 / 1000" using x(2) by simp
  finally show ?thesis .
qed

lemma dbl_rank:
  assumes c: "good_literal c a b" and n: "n < 2 ^ 42"
  shows "\<lfloor>dbl (real n * c)\<rfloor> = int (n * a div b)" and "\<lceil>dbl (real n * c)\<rceil> = \<lceil>real (n * a) / real b\<rceil>"
proof -
  let ?p = "real a / real b" and ?y = "real n * c" and ?x = "real (n * a) / real b"
  have ab: "0 < a" "a < b" "b \<le> 1000" "\<bar>c - ?p\<bar> < ?p / 2 ^ 54" using c by (simp_all add: good_literal_def)
  have x: "?x = real n * ?p" "0 \<le> ?x" by simp_all
  have "\<lfloor>dbl ?y\<rfloor> = int (n * a div b) \<and> \<lceil>dbl ?y\<rceil> = \<lceil>?x\<rceil>"
  proof (cases "n = 0")
    case False
    have near: "\<bar>?y - ?x\<bar> < ?x / 2 ^ 54"
    proof -
      have "real n * \<bar>c - ?p\<bar> < real n * (?p / 2 ^ 54)" using ab(4) False by (intro mult_strict_left_mono) simp_all
      moreover have "?y - ?x = real n * (c - ?p)" by (simp add: right_diff_distrib)
      ultimately show ?thesis by (simp add: abs_mult)
    qed
    have xn: "?x \<le> real n" using ab by (simp add: pos_divide_le_eq mult_left_mono)
    have floorx: "\<lfloor>?x\<rfloor> = int (n * a div b)" by (metis floor_divide_of_nat_eq)
    show ?thesis
    proof (cases "b dvd n * a")
      case True
      then obtain k where k: "n * a = b * k" by blast
      with ab False have kpos: "0 < k" "?x = real_of_int (int k)" "k = n * a div b" by (auto intro: Nat.gr0I)
      with xn n have "int k < 2 ^ 53" by simp
      from dbl_near_int [OF _ this near [unfolded kpos(2)]] kpos(1) have "dbl ?y = real_of_int (int k)" by simp
      with kpos show ?thesis by simp
    next
      case False
      define q where "q = n * a div b"
      have "0 < n * a mod b" "n * a mod b < b" using False ab by (simp_all add: dvd_eq_mod_eq_0)
      then have "q * b + 1 \<le> n * a" "n * a + 1 \<le> (q + 1) * b"
        unfolding q_def distrib_right using div_mult_mod_eq [of "n * a" b] by linarith+
      then have "real (q * b + 1) / real b \<le> ?x" "real (n * a + 1) / real b \<le> real ((q + 1) * b) / real b"
        by (simp_all only: of_nat_le_iff divide_right_mono of_nat_0_le_iff)
      then have gap: "real q + 1 / real b \<le> ?x" "?x + 1 / real b \<le> real q + 1"
        using ab by (simp_all add: add_divide_distrib distrib_right)
      have b: "1 / 1000 \<le> 1 / real b" using ab by (simp add: field_simps)
      have "real n < real (2 ^ 42)" using n by (simp only: of_nat_less_iff)
      with xn have "?x < 2 ^ 42" by simp
      from rounding_gap [OF near x(2) this] b gap have "real q < dbl ?y" "dbl ?y < real q + 1"
        by (simp_all only: abs_less_iff) linarith+
      then have "\<lfloor>dbl ?y\<rfloor> = int q" "\<lceil>dbl ?y\<rceil> = int q + 1"
        by (simp_all add: floor_eq_iff ceiling_eq_iff)
      moreover have "\<lceil>?x\<rceil> = int q + 1" by (rule ceiling_unique) (use gap b in linarith)+
      ultimately show ?thesis by (simp only: q_def simp_thms)
    qed
  qed simp
  then show "\<lfloor>dbl ?y\<rfloor> = int (n * a div b)" "\<lceil>dbl ?y\<rceil> = \<lceil>?x\<rceil>" by simp_all
qed

lemma good_literals:
  "good_literal (dbl (1 / 2)) 1 2" "good_literal (dbl (9 / 10)) 9 10" "good_literal (dbl (95 / 100)) 95 100"
  "good_literal (dbl (99 / 100)) 99 100" "good_literal (dbl (999 / 1000)) 999 1000"
proof -
  have p: "(2 :: real) powi (- 1) = 1 / 2" "(2 :: real) powi (- 53) = 1 / 2 ^ 53" by (simp_all add: power_int_minus)
  have "dbl (1 / 2) = real_of_int 4503599627370496 * 2 powi (- 1 - 52)" by (rule dbl_literal) (simp_all add: p)
  then show "good_literal (dbl (1 / 2)) 1 2" by (simp add: good_literal_def p)
  have "dbl (9 / 10) = real_of_int 8106479329266893 * 2 powi (- 1 - 52)" by (rule dbl_literal) (simp_all add: p)
  then show "good_literal (dbl (9 / 10)) 9 10" by (simp add: good_literal_def p)
  have "dbl (95 / 100) = real_of_int 8556839292003942 * 2 powi (- 1 - 52)" by (rule dbl_literal) (simp_all add: p)
  then show "good_literal (dbl (95 / 100)) 95 100" by (simp add: good_literal_def p)
  have "dbl (99 / 100) = real_of_int 8917127262193582 * 2 powi (- 1 - 52)" by (rule dbl_literal) (simp_all add: p)
  then show "good_literal (dbl (99 / 100)) 99 100" by (simp add: good_literal_def p)
  have "dbl (999 / 1000) = real_of_int 8998192055486251 * 2 powi (- 1 - 52)" by (rule dbl_literal) (simp_all add: p)
  then show "good_literal (dbl (999 / 1000)) 999 1000" by (simp add: good_literal_def p)
qed

end
