(* ===== verification/Market_Views.thy ===== *)
theory Market_Views
  imports Binary64 L3_Reports
begin

text \<open>
  The two read models on top of the L3 book: \<open>L2Aggregator\<close> of
  \<^verbatim>\<open>src/src/orderbook/l2_aggregator.h\<close> and \<^verbatim>\<open>.cpp\<close>, which copies the best price levels into
  fixed arrays, and \<open>L1Feed\<close> of \<^verbatim>\<open>src/src/orderbook/l1_feed.h\<close> and \<^verbatim>\<open>.cpp\<close>, which keeps the
  last top of book and two bounded histories.

  Both hold a reference to the book, which here is an argument of the operations that read it.
  Depths and array indices are natural numbers.  Averages are computed in
  doubles, every step rounded with \<open>dbl\<close>; \<open>None\<close> stands for the NaN of a division of zero by
  zero.  The levels of the initial \<^verbatim>\<open>last_tob_\<close> are indeterminate in C++ and
  a parameter of \<open>new_l1\<close>.
\<close>

section \<open>L2: depth snapshots\<close>

definition new_l2 :: "nat \<Rightarrow> nat" where
  "new_l2 depth = min depth MAX_L2_DEPTH"

definition set_depth :: "nat \<Rightarrow> nat \<Rightarrow> nat" where
  "set_depth depth l2 = min depth MAX_L2_DEPTH"

text \<open>The copy loop from a vector of levels to the fixed array.\<close>

function copy_levels :: "nat \<Rightarrow> BookLevel list \<Rightarrow> BookLevel list \<Rightarrow> BookLevel list" where
  "copy_levels i src dst =
     (if i < length src \<and> i < MAX_DEPTH_LEVELS then copy_levels (Suc i) src (dst[i := src ! i]) else dst)"
  by pat_completeness auto
termination by (relation "measure (\<lambda>(i, src, dst). length src - i)") auto

declare copy_levels.simps [simp del]

definition snapshot :: "nat \<Rightarrow> Timestamp \<Rightarrow> L3OrderBook \<Rightarrow> DepthSnapshot" where
  "snapshot depth ts book =
     (let snap = default_depth\<lparr>dep_symbol := bk_symbol book, dep_timestamp := ts\<rparr>;
          bids = bid_depth depth book; asks = ask_depth depth book;
          snap = snap\<lparr>dep_bid_levels := word_of_nat (length bids),
                   dep_ask_levels := word_of_nat (length asks)\<rparr>;
          snap = snap\<lparr>dep_bids := copy_levels 0 bids (dep_bids snap)\<rparr>
      in snap\<lparr>dep_asks := copy_levels 0 asks (dep_asks snap)\<rparr>)"

definition bid_levels :: "nat \<Rightarrow> L3OrderBook \<Rightarrow> BookLevel list" where
  "bid_levels depth book = bid_depth depth book"

definition ask_levels :: "nat \<Rightarrow> L3OrderBook \<Rightarrow> BookLevel list" where
  "ask_levels depth book = ask_depth depth book"

section \<open>L1: top of book and statistics\<close>

definition MAX_TRADE_HISTORY :: nat where
  "MAX_TRADE_HISTORY = 1000"

definition MAX_SPREAD_HISTORY :: nat where
  "MAX_SPREAD_HISTORY = 500"

record L1Feed =
  last_tob :: TopOfBook
  l1_callback :: bool
  recent_trades :: "(Price \<times> Quantity) list"
  spread_history :: "Price list"
  l1_log :: "TopOfBook list"

definition new_l1 :: "BookLevel \<Rightarrow> BookLevel \<Rightarrow> L1Feed" where
  "new_l1 any_bid any_ask = \<lparr>last_tob = default_tob\<lparr>tob_best_bid := any_bid, tob_best_ask := any_ask\<rparr>,
     l1_callback = False, recent_trades = [], spread_history = [], l1_log = []\<rparr>"

definition on_update :: "L1Feed \<Rightarrow> L1Feed" where
  "on_update l1 = l1\<lparr>l1_callback := True\<rparr>"

definition l1_update :: "Timestamp \<Rightarrow> L3OrderBook \<Rightarrow> L1Feed \<Rightarrow> TopOfBook \<times> L1Feed" where
  "l1_update ts book l1 =
     (let l1 = l1\<lparr>last_tob := top_of_book ts book\<rparr>;
          l1 = (if tob_valid (last_tob l1) \<and> tob_spread (last_tob l1) > 0
            then let h = spread_history l1 @ [tob_spread (last_tob l1)]
                 in l1\<lparr>spread_history := (if length h > MAX_SPREAD_HISTORY then tl h else h)\<rparr>
            else l1);
          l1 = (if l1_callback l1 then l1\<lparr>l1_log := l1_log l1 @ [last_tob l1]\<rparr> else l1)
      in (last_tob l1, l1))"

definition record_trade :: "Price \<Rightarrow> Quantity \<Rightarrow> L1Feed \<Rightarrow> L1Feed" where
  "record_trade price qty l1 =
     (let h = recent_trades l1 @ [(price, qty)]
      in l1\<lparr>recent_trades := (if length h > MAX_TRADE_HISTORY then tl h else h)\<rparr>)"

definition vwap :: "L1Feed \<Rightarrow> real" where
  "vwap l1 =
     (if recent_trades l1 = [] then 0
      else let (sum_pv, sum_v) = foldl (\<lambda>(pv, v) (price, qty).
               (dbl (pv + dbl (dbl (real_of_int price) * dbl (real_of_int qty))), dbl (v + dbl (real_of_int qty))))
               (0, 0) (recent_trades l1)
           in if sum_v > 0 then dbl (sum_pv / sum_v) else 0)"

text \<open>The loop walks back from the end; a window of zero divides zero by zero.\<close>

definition rolling_spread :: "nat \<Rightarrow> L1Feed \<Rightarrow> real option" where
  "rolling_spread window l1 =
     (if spread_history l1 = [] then Some 0
      else let n = min window (length (spread_history l1));
               sum = foldl (\<lambda>s i. dbl (s + dbl (real_of_int (spread_history l1 ! (length (spread_history l1) - 1 - i)))))
                 0 [0..<n]
           in if n = 0 then None else Some (dbl (sum / dbl (real n))))"

section \<open>Level totals\<close>

definition visible_sum :: "L3Order queue \<Rightarrow> int" where
  "visible_sum q = sum_list (map (\<lambda>(h, r). l3_visible_qty r) q)"

lemma level_total_fold:
  "foldl (\<lambda>(total, count) (h, r). (i64 (total + l3_visible_qty r), count + 1)) (i64 a, c) q =
     (i64 (a + visible_sum q), c + word_of_nat (length q))"
proof (induction q arbitrary: a c)
  case Nil
  then show ?case by (simp add: visible_sum_def)
next
  case (Cons x q)
  obtain h r where x: "x = (h, r)" by (cases x)
  from Cons [of "a + l3_visible_qty r" "c + 1"] show ?case
    by (simp add: x visible_sum_def i64_add_left add.assoc)
qed

lemma level_total_eq: "level_total q = (i64 (visible_sum q), word_of_nat (length q))"
  using level_total_fold [of 0 0 q] by (simp add: level_total_def i64_id)

lemma book_level_eq:
  "book_level (p, q) = \<lparr>lvl_price = p, lvl_qty = i64 (visible_sum q), lvl_order_count = word_of_nat (length q)\<rparr>"
  by (simp add: book_level_def level_total_eq)

lemma depth_loop_eq: "depth_loop n levels L = map book_level (take (levels - n) L)"
  by (induction n levels L rule: depth_loop.induct) (auto simp: take_Cons' Suc_diff_le not_le)

text \<open>The depth of one side, best price first.\<close>

definition depth_of :: "Side \<Rightarrow> nat \<Rightarrow> L3OrderBook \<Rightarrow> BookLevel list" where
  "depth_of sd n b = (case sd of Buy \<Rightarrow> bid_depth n b | Sell \<Rightarrow> ask_depth n b)"

lemma depth_of_eq: "depth_of sd n b = map book_level (take n (levels_of sd b))"
  by (cases sd) (simp_all add: depth_of_def bid_depth_def ask_depth_def depth_loop_eq)

lemma copy_levels_eq:
  assumes "length src \<le> MAX_DEPTH_LEVELS" "length src \<le> length dst" "i \<le> length src"
  shows "copy_levels i src dst = take i dst @ drop i src @ drop (length src) dst"
  using assms
proof (induction i src dst rule: copy_levels.induct)
  case (1 i src dst)
  show ?case
  proof (cases "i < length src")
    case True
    with 1(2) have c: "i < length src \<and> i < MAX_DEPTH_LEVELS" by simp
    from 1(1) [OF c] 1 c have "copy_levels i src dst =
        take (Suc i) (dst[i := src ! i]) @ drop (Suc i) src @ drop (length src) (dst[i := src ! i])"
      by (subst copy_levels.simps) simp
    also have "take (Suc i) (dst[i := src ! i]) = take i dst @ [src ! i]"
      using True 1(3) by (simp add: take_Suc_conv_app_nth)
    finally show ?thesis using True by (simp add: Cons_nth_drop_Suc)
  qed (use 1 in \<open>subst copy_levels.simps, simp\<close>)
qed

text \<open>The aggregate of the resting orders of one side at one price.\<close>

definition at_price :: "Side \<Rightarrow> Price \<Rightarrow> L3OrderBook \<Rightarrow> (Price \<times> node \<times> L3Order) list" where
  "at_price sd p b = filter (\<lambda>e. fst e = p) (entries sd b)"

definition aggregate :: "Side \<Rightarrow> L3OrderBook \<Rightarrow> Price \<Rightarrow> BookLevel" where
  "aggregate sd b p = \<lparr>lvl_price = p,
     lvl_qty = i64 (sum_list (map (\<lambda>(p, h, r). l3_visible_qty r) (at_price sd p b))),
     lvl_order_count = word_of_nat (length (at_price sd p b))\<rparr>"

lemma flat_at_price:
  "distinct (map fst L) \<Longrightarrow> (p, q) \<in> set L \<Longrightarrow> filter (\<lambda>e. fst e = p) (lv_flat L) = map (Pair p) q"
proof (induction L)
  case (Cons x L)
  obtain p' q' where x: "x = (p', q')" by (cases x)
  have none: "filter (\<lambda>e. fst e = p') (lv_flat L) = []"
    using Cons.prems(1) by (fastforce simp: x filter_empty_conv in_set_lv_flat image_iff)
  show ?case
  proof (cases "p' = p")
    case True
    with Cons.prems have "q' = q" by (auto simp: x image_iff)
    with True none show ?thesis by (simp add: x comp_def)
  next
    case False
    with Cons show ?thesis by (simp add: x comp_def)
  qed
qed simp

lemma book_level_aggregate:
  assumes "book_inv b" and "(p, q) \<in> set (levels_of sd b)"
  shows "book_level (p, q) = aggregate sd b p"
proof -
  have "distinct (map fst (levels_of sd b))"
    by (rule side_order.keys_distinct [OF inv_levels [OF assms(1)]])
  from flat_at_price [OF this assms(2)] have "at_price sd p b = map (Pair p) q"
    by (simp add: at_price_def entries_def)
  then show ?thesis by (simp add: book_level_eq aggregate_def visible_sum_def comp_def)
qed

lemma depth_aggregates:
  assumes inv: "book_inv b"
  shows "depth_of sd n b = map (aggregate sd b) (take n (map fst (levels_of sd b)))"
  using book_level_aggregate [OF inv]
  by (auto simp: depth_of_eq take_map dest: in_set_takeD)

text \<open>The L2 snapshot is the aggregation of the L3 book.  On a reachable book each side's array
  starts with the aggregates (price, sum of the visible quantities, number of orders) of the
  best prices, in priority order and as many as the depth allows, followed by zero levels; the
  prices aggregated are exactly those at which an order rests.\<close>

theorem l2_snapshot_aggregates:
  assumes reach: "book_reach b"
  shows "\<exists>P. (\<forall>sd. sorted_wrt (before_of sd) (P sd) \<and> set (P sd) = fst ` set (entries sd b)) \<and>
    dep_bids (snapshot (new_l2 depth) ts b) = map (aggregate Buy b) (take (new_l2 depth) (P Buy)) @
      replicate (MAX_DEPTH_LEVELS - min (new_l2 depth) (length (P Buy))) zero_level \<and>
    dep_asks (snapshot (new_l2 depth) ts b) = map (aggregate Sell b) (take (new_l2 depth) (P Sell)) @
      replicate (MAX_DEPTH_LEVELS - min (new_l2 depth) (length (P Sell))) zero_level \<and>
    unat (dep_bid_levels (snapshot (new_l2 depth) ts b)) = min (new_l2 depth) (length (P Buy)) \<and>
    unat (dep_ask_levels (snapshot (new_l2 depth) ts b)) = min (new_l2 depth) (length (P Sell))"
proof -
  from reach have inv: "book_inv b" by (rule book_reach_inv)
  let ?n = "new_l2 depth" and ?P = "\<lambda>sd. map fst (levels_of sd b)"
  have n: "?n \<le> MAX_DEPTH_LEVELS" "?n \<le> 20" by (simp_all add: new_l2_def MAX_L2_DEPTH_def MAX_DEPTH_LEVELS_def)
  have P: "sorted_wrt (before_of sd) (?P sd) \<and> set (?P sd) = fst ` set (entries sd b)" for sd
    using inv_levels [OF inv, of sd] fst_lv_flat [OF inv_levels [OF inv, of sd]]
    by (simp add: lv_ok_def entries_def)
  have copied: "copy_levels 0 (depth_of sd ?n b) (replicate MAX_DEPTH_LEVELS zero_level) =
      map (aggregate sd b) (take ?n (?P sd)) @
      replicate (MAX_DEPTH_LEVELS - min ?n (length (?P sd))) zero_level" for sd
    using n by (subst copy_levels_eq) (simp_all add: depth_aggregates [OF inv] min.commute)
  have len: "unat (word_of_nat (length (depth_of sd ?n b)) :: u32) = min ?n (length (?P sd))" for sd
    using n by (simp add: depth_of_eq unat_of_nat min.commute)
  show ?thesis
    using P copied [of Buy] copied [of Sell] len [of Buy] len [of Sell]
    by (intro exI [of _ ?P]) (simp add: snapshot_def Let_def default_depth_def depth_of_def)
qed

theorem l2_snapshot_aggregates_witness:
  "dep_asks (snapshot (new_l2 1) 5 demo_book) =
     \<lparr>lvl_price = 101, lvl_qty = 15, lvl_order_count = 2\<rparr> # replicate 19 zero_level \<and>
   length (dep_bids (snapshot (new_l2 1) 5 demo_book)) = 20"
proof
  show "dep_asks (snapshot (new_l2 1) 5 demo_book) =
     \<lparr>lvl_price = 101, lvl_qty = 15, lvl_order_count = 2\<rparr> # replicate 19 zero_level"
    by code_simp
  from l2_snapshot_aggregates [OF demo_book_reach, of 1 5]
  show "length (dep_bids (snapshot (new_l2 1) 5 demo_book)) = 20"
    by (auto simp: MAX_DEPTH_LEVELS_def new_l2_def MAX_L2_DEPTH_def min_def)
qed

section \<open>The top of the book\<close>

lemma top_of_book_both:
  assumes "best_bid b = Some bb" "best_ask b = Some ba"
  shows "tob_valid (top_of_book ts b)"
    "tob_best_bid (top_of_book ts b) = bb" "tob_best_ask (top_of_book ts b) = ba"
    "tob_spread (top_of_book ts b) = i64 (lvl_price ba - lvl_price bb)"
    "tob_mid_price (top_of_book ts b) = tdiv (i64 (lvl_price bb + lvl_price ba)) 2"
    "tob_micro_price (top_of_book ts b) = (let total_qty = i64 (lvl_qty bb + lvl_qty ba) in
       if total_qty > 0
       then tdiv (i64 (i64 (lvl_price bb * lvl_qty ba) + i64 (lvl_price ba * lvl_qty bb))) total_qty
       else tdiv (i64 (lvl_price bb + lvl_price ba)) 2)"
  by (simp_all add: top_of_book_def assms Let_def)

lemma weighted_between:
  fixes p q m n :: int
  assumes "p \<le> q" "0 \<le> m" "0 \<le> n" "0 < m + n"
  shows "p \<le> (p * n + q * m) div (m + n)" "(p * n + q * m) div (m + n) \<le> q"
proof -
  have "p * (m + n) \<le> p * n + q * m" "p * n + q * m \<le> q * (m + n)"
    using mult_right_mono [OF assms(1,2)] mult_right_mono [OF assms(1,3)] by (simp_all add: algebra_simps)
  then have "p * (m + n) div (m + n) \<le> (p * n + q * m) div (m + n)"
    "(p * n + q * m) div (m + n) \<le> q * (m + n) div (m + n)"
    using assms(4) by (intro zdiv_mono1; simp)+
  then show "p \<le> (p * n + q * m) div (m + n)" "(p * n + q * m) div (m + n) \<le> q"
    using assms(4) by simp_all
qed

lemma small_product:
  fixes p m :: int
  assumes "0 \<le> p" "p < 2147483648" "0 \<le> m" "m < 2147483648"
  shows "0 \<le> p * m" "p * m < 4611686018427387904"
proof -
  show "0 \<le> p * m" using assms by simp
  have "p * m \<le> 2147483647 * 2147483647" using assms by (intro mult_mono) auto
  then show "p * m < 4611686018427387904" by simp
qed

text \<open>The published top of book is sane.  On a reachable book with both sides non-empty, prices
  and best quantities in the range 0 to 2^31 - 1 and a positive best quantity, the spread is
  the positive difference of the best prices, the mid price lies between the best prices and
  strictly below the ask, and the microprice, the quantity-weighted average, lies between them.\<close>

theorem top_of_book_sane:
  assumes reach: "book_reach b" and bid: "best_bid b = Some bb" and ask: "best_ask b = Some ba"
    and prices: "0 \<le> lvl_price bb" "lvl_price ba < 2147483648"
    and qty: "0 \<le> lvl_qty bb" "lvl_qty bb < 2147483648" "0 \<le> lvl_qty ba" "lvl_qty ba < 2147483648"
      "0 < lvl_qty bb + lvl_qty ba"
  shows "tob_valid (top_of_book ts b) \<and>
    0 < tob_spread (top_of_book ts b) \<and> tob_spread (top_of_book ts b) = lvl_price ba - lvl_price bb \<and>
    lvl_price bb \<le> tob_mid_price (top_of_book ts b) \<and> tob_mid_price (top_of_book ts b) < lvl_price ba \<and>
    lvl_price bb \<le> tob_micro_price (top_of_book ts b) \<and> tob_micro_price (top_of_book ts b) \<le> lvl_price ba"
proof -
  let ?p = "lvl_price bb" and ?q = "lvl_price ba" and ?m = "lvl_qty bb" and ?n = "lvl_qty ba"
  have less: "?p < ?q" by (rule inv_uncrossed_best [OF book_reach_inv [OF reach] bid ask])
  have id: "i64 x = x" if "0 \<le> x" "x \<le> 9223372036854775807" for x
    using that by (intro i64_id) (simp add: in_i64_def i64_min_def i64_max_def)
  have small: "?p < 2147483648" "0 \<le> ?q" using prices less by linarith+
  note bounds = small_product [OF prices(1) small(1) qty(3,4)]
    small_product [OF small(2) prices(2) qty(1,2)]
  have sums: "i64 (?q - ?p) = ?q - ?p" "i64 (?p + ?q) = ?p + ?q" "i64 (?m + ?n) = ?m + ?n"
    "i64 (?p * ?n) = ?p * ?n" "i64 (?q * ?m) = ?q * ?m" "i64 (?p * ?n + ?q * ?m) = ?p * ?n + ?q * ?m"
    by (rule id; use prices qty less small bounds in linarith)+
  have div: "tdiv (?p + ?q) 2 = (?p + ?q) div 2"
    "tdiv (?p * ?n + ?q * ?m) (?m + ?n) = (?p * ?n + ?q * ?m) div (?m + ?n)"
    using prices qty less by (simp_all add: tdiv_nonneg)
  have "?p \<le> (?p + ?q) div 2" "(?p + ?q) div 2 < ?q" using less by linarith+
  moreover note weighted_between [of ?p ?q ?m ?n]
  ultimately show ?thesis
    using top_of_book_both [OF bid ask, of ts] less qty by (simp add: sums div)
qed

theorem top_of_book_sane_witness:
  "let t = top_of_book 5 demo_book in
     tob_spread t = 2 \<and> tob_mid_price t = 100 \<and> 99 \<le> tob_micro_price t \<and> tob_micro_price t \<le> 101"
proof -
  have bid: "best_bid demo_book = Some \<lparr>lvl_price = 99, lvl_qty = 7, lvl_order_count = 1\<rparr>"
    and ask: "best_ask demo_book = Some \<lparr>lvl_price = 101, lvl_qty = 15, lvl_order_count = 2\<rparr>"
    by code_simp+
  have "tob_mid_price (top_of_book 5 demo_book) = 100"
    by (simp add: top_of_book_both [OF bid ask] i64_def tdiv_def)
  with top_of_book_sane [OF demo_book_reach bid ask, of 5] show ?thesis by (simp add: Let_def)
qed

section \<open>Histories and averages\<close>

text \<open>The sequence of operations on a feed: book updates and recorded trades.\<close>

datatype L1Event = Update Timestamp L3OrderBook | Record Price Quantity

fun l1_step :: "L1Event \<Rightarrow> L1Feed \<Rightarrow> L1Feed" where
  "l1_step (Update ts book) l1 = snd (l1_update ts book l1)"
| "l1_step (Record p q) l1 = record_trade p q l1"

definition l1_run :: "L1Event list \<Rightarrow> L1Feed \<Rightarrow> L1Feed" where
  "l1_run evs l1 = fold l1_step evs l1"

fun trades_in :: "L1Event list \<Rightarrow> (Price \<times> Quantity) list" where
  "trades_in [] = []"
| "trades_in (Update ts book # evs) = trades_in evs"
| "trades_in (Record p q # evs) = (p, q) # trades_in evs"

fun spreads_in :: "L1Event list \<Rightarrow> Price list" where
  "spreads_in [] = []"
| "spreads_in (Update ts book # evs) =
     (let t = top_of_book ts book
      in if tob_valid t \<and> tob_spread t > 0 then tob_spread t # spreads_in evs else spreads_in evs)"
| "spreads_in (Record p q # evs) = spreads_in evs"

definition last_n :: "nat \<Rightarrow> 'a list \<Rightarrow> 'a list" where
  "last_n n xs = drop (length xs - n) xs"

lemma last_n_push:
  "0 < n \<Longrightarrow> last_n n (xs @ [x]) =
     (let h = last_n n xs @ [x] in if length h > n then tl h else h)"
  by (cases "n \<le> length xs")
    (auto simp: last_n_def Let_def Suc_diff_le drop_Suc tl_drop not_le tl_append2)

lemma l1_run_history:
  assumes "recent_trades l1 = last_n MAX_TRADE_HISTORY ts" "spread_history l1 = last_n MAX_SPREAD_HISTORY ss"
  shows "recent_trades (l1_run evs l1) = last_n MAX_TRADE_HISTORY (ts @ trades_in evs) \<and>
    spread_history (l1_run evs l1) = last_n MAX_SPREAD_HISTORY (ss @ spreads_in evs)"
  using assms
proof (induction evs arbitrary: l1 ts ss)
  case Nil
  then show ?case by (simp add: l1_run_def)
next
  case (Cons ev evs)
  note push = last_n_push [of MAX_TRADE_HISTORY] last_n_push [of MAX_SPREAD_HISTORY]
  have pos: "0 < MAX_TRADE_HISTORY" "0 < MAX_SPREAD_HISTORY"
    by (simp_all add: MAX_TRADE_HISTORY_def MAX_SPREAD_HISTORY_def)
  have step: "recent_trades (l1_step ev l1) = last_n MAX_TRADE_HISTORY (ts @ trades_in [ev])"
    "spread_history (l1_step ev l1) = last_n MAX_SPREAD_HISTORY (ss @ spreads_in [ev])"
    using Cons.prems pos
    by (cases ev; simp add: record_trade_def l1_update_def Let_def push)+
  have "trades_in (ev # evs) = trades_in [ev] @ trades_in evs"
    "spreads_in (ev # evs) = spreads_in [ev] @ spreads_in evs"
    by (cases ev; simp add: Let_def)+
  with Cons.IH [OF step] show ?case by (simp add: l1_run_def)
qed

text \<open>The L1 histories are sliding windows: after any sequence of updates and trades, the feed
  holds exactly the last 1000 recorded trades and the last 500 positive spreads, in order.\<close>

theorem l1_histories:
  "recent_trades (l1_run evs (new_l1 any_bid any_ask)) = last_n MAX_TRADE_HISTORY (trades_in evs) \<and>
   spread_history (l1_run evs (new_l1 any_bid any_ask)) = last_n MAX_SPREAD_HISTORY (spreads_in evs)"
  using l1_run_history [of "new_l1 any_bid any_ask" "[]" "[]" evs]
  by (simp add: new_l1_def last_n_def)

text \<open>Sums of integers whose absolute values stay below \<open>2\<^sup>5\<^sup>3\<close> are exact in doubles.\<close>

lemma dbl_step: "\<bar>a\<bar> + \<bar>x\<bar> \<le> 2 ^ 53 \<Longrightarrow> dbl (real_of_int a + dbl (real_of_int x)) = real_of_int (a + x)" for a x :: int
  using dbl_of_int [of "a + x"] by simp

lemma vwap_fold:
  assumes "\<bar>a\<bar> + (\<Sum>(p, q)\<leftarrow>ts. \<bar>p * q\<bar>) \<le> 2 ^ 53" and "\<bar>c\<bar> + (\<Sum>(p, q)\<leftarrow>ts. \<bar>q\<bar>) \<le> 2 ^ 53"
    and "\<forall>(p, q) \<in> set ts. \<bar>p\<bar> \<le> 2 ^ 53"
  shows "foldl (\<lambda>(pv, v) (price, qty). (dbl (pv + dbl (dbl (real_of_int price) * dbl (real_of_int qty))), dbl (v + dbl (real_of_int qty))))
       (real_of_int a, real_of_int c) ts =
     (real_of_int (a + (\<Sum>(p, q)\<leftarrow>ts. p * q)), real_of_int (c + (\<Sum>(p, q)\<leftarrow>ts. q)))"
  using assms
proof (induction ts arbitrary: a c)
  case (Cons x ts)
  obtain p q where x: "x = (p, q)" by fastforce
  have pos: "0 \<le> (\<Sum>(p, q)\<leftarrow>ts. \<bar>p * q\<bar>)" "0 \<le> (\<Sum>(p, q)\<leftarrow>ts. \<bar>q\<bar>)"
    by (auto intro!: sum_list_nonneg)
  from Cons.prems x have b: "\<bar>a\<bar> + \<bar>p * q\<bar> + (\<Sum>(p, q)\<leftarrow>ts. \<bar>p * q\<bar>) \<le> 2 ^ 53" "\<bar>c\<bar> + \<bar>q\<bar> + (\<Sum>(p, q)\<leftarrow>ts. \<bar>q\<bar>) \<le> 2 ^ 53"
    "\<bar>p\<bar> \<le> 2 ^ 53" by (simp_all add: add.assoc)
  have q: "\<bar>q\<bar> \<le> 2 ^ 53" using b(2) pos by linarith
  have pq: "dbl (real_of_int p) * dbl (real_of_int q) = real_of_int (p * q)" using b(3) q by simp
  have "dbl (real_of_int a + dbl (real_of_int (p * q))) = real_of_int (a + p * q)"
    "dbl (real_of_int c + dbl (real_of_int q)) = real_of_int (c + q)"
    using b pos by (intro dbl_step; linarith)+
  moreover have "\<bar>a + p * q\<bar> + (\<Sum>(p, q)\<leftarrow>ts. \<bar>p * q\<bar>) \<le> 2 ^ 53" "\<bar>c + q\<bar> + (\<Sum>(p, q)\<leftarrow>ts. \<bar>q\<bar>) \<le> 2 ^ 53"
    using b(1,2) abs_triangle_ineq [of a "p * q"] abs_triangle_ineq [of c q] by linarith+
  moreover have "\<forall>(p, q) \<in> set ts. \<bar>p\<bar> \<le> 2 ^ 53" using Cons.prems(3) by simp
  ultimately show ?case using Cons.IH [of "a + p * q" "c + q"] by (simp add: x pq add.assoc del: of_int_add)
qed simp

text \<open>The volume-weighted average price is the exact average, rounded once: as long as the prices
  times quantities of the recorded trades sum up to at most \<open>2\<^sup>5\<^sup>3\<close>, the sums are exact.  So the
  average lies between any bounds on the recorded prices.\<close>

theorem vwap_rounded_once:
  assumes "recent_trades l1 \<noteq> []" and trades: "\<forall>(p, q) \<in> set (recent_trades l1). 0 < q \<and> lo \<le> p \<and> p \<le> hi"
    and bounds: "\<bar>lo\<bar> \<le> 2 ^ 53" "\<bar>hi\<bar> \<le> 2 ^ 53"
    and small: "(\<Sum>(p, q)\<leftarrow>recent_trades l1. \<bar>p * q\<bar>) \<le> 2 ^ 53" "(\<Sum>(p, q)\<leftarrow>recent_trades l1. q) \<le> 2 ^ 53"
  shows "vwap l1 = dbl (real_of_int (\<Sum>(p, q)\<leftarrow>recent_trades l1. p * q) / real_of_int (\<Sum>(p, q)\<leftarrow>recent_trades l1. q)) \<and>
    real_of_int lo \<le> vwap l1 \<and> vwap l1 \<le> real_of_int hi"
proof -
  let ?ts = "recent_trades l1"
  let ?pv = "\<Sum>(p, q)\<leftarrow>?ts. p * q" and ?v = "\<Sum>(p, q)\<leftarrow>?ts. q"
  have "(\<forall>(p, q) \<in> set ts. 0 < q \<and> lo \<le> p \<and> p \<le> hi) \<Longrightarrow>
      lo * (\<Sum>(p, q)\<leftarrow>ts. q) \<le> (\<Sum>(p, q)\<leftarrow>ts. p * q) \<and> (\<Sum>(p, q)\<leftarrow>ts. p * q) \<le> hi * (\<Sum>(p, q)\<leftarrow>ts. q) \<and>
      0 \<le> (\<Sum>(p, q)\<leftarrow>ts. q) \<and> (ts \<noteq> [] \<longrightarrow> 0 < (\<Sum>(p, q)\<leftarrow>ts. q)) \<and> (\<Sum>(p, q)\<leftarrow>ts. \<bar>q\<bar>) = (\<Sum>(p, q)\<leftarrow>ts. q)" for ts
    by (induction ts) (auto simp: algebra_simps add_mono mult_right_mono)
  from this [OF trades] assms(1) have b: "lo * ?v \<le> ?pv" "?pv \<le> hi * ?v" "0 < ?v" "(\<Sum>(p, q)\<leftarrow>?ts. \<bar>q\<bar>) = ?v" by auto
  have "\<forall>(p, q) \<in> set ?ts. \<bar>p\<bar> \<le> 2 ^ 53" using trades bounds by fastforce
  from vwap_fold [of 0 ?ts 0, OF _ _ this] small b(4)
  have "vwap l1 = dbl (real_of_int ?pv / real_of_int ?v)" using assms(1) b(3) by (simp add: vwap_def)
  moreover have "real_of_int (lo * ?v) \<le> real_of_int ?pv" "real_of_int ?pv \<le> real_of_int (hi * ?v)" using b by (simp_all only: of_int_le_iff)
  then have "real_of_int lo \<le> real_of_int ?pv / real_of_int ?v" "real_of_int ?pv / real_of_int ?v \<le> real_of_int hi"
    using b(3) by (simp_all add: pos_le_divide_eq pos_divide_le_eq)
  ultimately show ?thesis using dbl_ge_int [OF _ bounds(1)] dbl_le_int [OF _ bounds(2)] by simp
qed

theorem vwap_rounded_once_witness:
  "100 \<le> vwap ((new_l1 zero_level zero_level)\<lparr>recent_trades := [(100, 3), (104, 1)]\<rparr>)"
  using vwap_rounded_once [of "(new_l1 zero_level zero_level)\<lparr>recent_trades := [(100, 3), (104, 1)]\<rparr>" 100 104]
  by simp

lemma last_n_Suc: "n < length h \<Longrightarrow> last_n (Suc n) h = h ! (length h - 1 - n) # last_n n h"
  using Cons_nth_drop_Suc [of "length h - 1 - n" h] by (simp add: last_n_def Suc_diff_Suc)

text \<open>The rolling spread is the mean of the last \<open>window\<close> spreads, or of all if there are fewer, rounded
  once; it lies between the smallest and the largest of them.\<close>

theorem rolling_spread_mean:
  assumes nonempty: "spread_history l1 \<noteq> []" "0 < window" and bounds: "\<forall>x \<in> set (spread_history l1). lo \<le> x \<and> x \<le> hi"
    and small: "0 \<le> lo" "hi \<le> 2 ^ 53" "sum_list (spread_history l1) \<le> 2 ^ 53" "length (spread_history l1) \<le> 2 ^ 53"
  defines "xs \<equiv> last_n window (spread_history l1)"
  shows "\<exists>avg. rolling_spread window l1 = Some avg \<and> avg = dbl (real_of_int (sum_list xs) / real (length xs)) \<and>
    real_of_int lo \<le> avg \<and> avg \<le> real_of_int hi"
proof -
  let ?h = "spread_history l1" and ?n = "min window (length (spread_history l1))"
  have mem: "set (last_n k ?h) \<subseteq> set ?h" for k by (simp add: last_n_def set_drop_subset)
  have le: "sum_list (last_n k ?h) \<le> sum_list ?h" for k
  proof -
    have "0 \<le> sum_list (take (length ?h - k) ?h)" using bounds small(1) by (intro sum_list_nonneg) (fastforce dest: in_set_takeD)
    then show ?thesis using sum_list_append [of "take (length ?h - k) ?h" "drop (length ?h - k) ?h"] by (simp add: last_n_def)
  qed
  have nonneg: "0 \<le> sum_list (last_n k ?h)" for k using bounds small(1) mem [of k] by (intro sum_list_nonneg) fastforce
  have "k \<le> length ?h \<Longrightarrow> foldl (\<lambda>s i. dbl (s + dbl (real_of_int (?h ! (length ?h - 1 - i))))) 0 [0..<k] =
      real_of_int (sum_list (last_n k ?h))" for k
  proof (induction k)
    case (Suc k)
    then have split: "last_n (Suc k) ?h = ?h ! (length ?h - 1 - k) # last_n k ?h" by (intro last_n_Suc) simp
    moreover have "?h ! (length ?h - 1 - k) \<in> set ?h" using Suc by simp
    then have "0 \<le> ?h ! (length ?h - 1 - k)" using bounds small(1) by fastforce
    ultimately have "\<bar>sum_list (last_n k ?h)\<bar> + \<bar>?h ! (length ?h - 1 - k)\<bar> \<le> 2 ^ 53"
      using le [of "Suc k"] small(3) nonneg [of k] by simp
    from dbl_step [OF this] Suc split show ?case by (simp add: add.commute)
  qed (simp add: last_n_def)
  moreover have xs: "xs = last_n ?n ?h" "length xs = ?n" by (simp_all add: xs_def last_n_def min_def)
  moreover have n: "0 < ?n" "?n \<le> 2 ^ 53" using nonempty small(4) by simp_all
  ultimately have avg: "rolling_spread window l1 = Some (dbl (real_of_int (sum_list xs) / real (length xs)))"
    using nonempty(1) by (simp add: rolling_spread_def Let_def)
  have "lo * int (length ys) \<le> sum_list ys \<and> sum_list ys \<le> hi * int (length ys)" if "\<forall>x \<in> set ys. lo \<le> x \<and> x \<le> hi" for ys
    using that by (induction ys) (simp_all add: distrib_left)
  moreover have "\<forall>x \<in> set xs. lo \<le> x \<and> x \<le> hi" using bounds mem xs(1) by blast
  ultimately have "lo * int (length xs) \<le> sum_list xs" "sum_list xs \<le> hi * int (length xs)" by blast+
  then have "real_of_int (lo * int (length xs)) \<le> real_of_int (sum_list xs)" "real_of_int (sum_list xs) \<le> real_of_int (hi * int (length xs))"
    by (simp_all only: of_int_le_iff)
  then have "real_of_int lo \<le> real_of_int (sum_list xs) / real (length xs)" "real_of_int (sum_list xs) / real (length xs) \<le> real_of_int hi"
    using n(1) xs(2) by (simp_all add: pos_le_divide_eq pos_divide_le_eq)
  moreover have "lo \<le> hi" using nonempty(1) bounds by (cases ?h) auto
  then have "\<bar>lo\<bar> \<le> 2 ^ 53" "\<bar>hi\<bar> \<le> 2 ^ 53" using small(1,2) by simp_all
  ultimately show ?thesis using avg dbl_ge_int [of lo] dbl_le_int [of _ hi] by blast
qed

theorem rolling_spread_mean_witness:
  "\<exists>avg. rolling_spread 2 ((new_l1 zero_level zero_level)\<lparr>spread_history := [9, 2, 4]\<rparr>) = Some avg \<and> avg = 3"
proof -
  have "last_n 2 [9, 2, 4 :: int] = [2, 4]" by (simp add: last_n_def)
  moreover have "dbl 3 = 3" using dbl_of_int [of 3] by simp
  ultimately show ?thesis
    using rolling_spread_mean [of "(new_l1 zero_level zero_level)\<lparr>spread_history := [9, 2, 4]\<rparr>" 2 2 9] by simp
qed

end
