(* ===== verification/Risk_Engine.thy ===== *)
theory Risk_Engine
  imports HFT_Types
begin

text \<open>
  The pre-trade risk engine of \<^verbatim>\<open>src/src/risk/risk_engine.h\<close> and \<^verbatim>\<open>.cpp\<close>: limits, per-trader
  state, the five checks in the order of the source, fills and the kill switches.

  The unordered maps are functions to \<open>option\<close>; \<open>get_state\<close> default-inserts an entry, as
  \<^verbatim>\<open>operator[]\<close> does.  The deque of order timestamps is a list with its front first.
  Timestamps are 64-bit words, so the age \<open>now - t\<close> wraps around.  \<^verbatim>\<open>std::abs\<close> of the least
  64-bit value is undefined in C++; \<open>abs64\<close> writes the two's complement result out.
\<close>

section \<open>State\<close>

record TraderRiskLimits =
  max_position_per_symbol :: Quantity
  max_net_position :: Quantity
  max_order_rate :: u32
  rate_window_ms :: u32
  self_trade_prevention :: bool

definition default_risk_limits :: TraderRiskLimits where
  "default_risk_limits = \<lparr>max_position_per_symbol = DEFAULT_POSITION_LIMIT,
     max_net_position = i64 (DEFAULT_POSITION_LIMIT * 10),
     max_order_rate = DEFAULT_ORDER_RATE_LIMIT,
     rate_window_ms = DEFAULT_RATE_LIMIT_WINDOW_MS, self_trade_prevention = True\<rparr>"

record TraderRiskState =
  positions :: "Symbol \<Rightarrow> Quantity option"
  order_timestamps :: "Timestamp list"
  net_position :: Quantity
  killed :: bool

definition new_risk_state :: TraderRiskState where
  "new_risk_state = \<lparr>positions = (\<lambda>_. None), order_timestamps = [], net_position = 0,
     killed = False\<rparr>"

record RiskEngine =
  default_limits :: TraderRiskLimits
  trader_limits :: "TraderId \<Rightarrow> TraderRiskLimits option"
  trader_states :: "TraderId \<Rightarrow> TraderRiskState option"
  global_kill :: bool
  orders_checked :: u64
  orders_rejected :: u64

definition new_risk_engine :: RiskEngine where
  "new_risk_engine = \<lparr>default_limits = default_risk_limits, trader_limits = (\<lambda>_. None),
     trader_states = (\<lambda>_. None), global_kill = False, orders_checked = 0, orders_rejected = 0\<rparr>"

section \<open>Configuration, kill switches and queries\<close>

definition setTraderLimits :: "TraderId \<Rightarrow> TraderRiskLimits \<Rightarrow> RiskEngine \<Rightarrow> RiskEngine" where
  "setTraderLimits tid limits e = e\<lparr>trader_limits := (trader_limits e)(tid \<mapsto> limits)\<rparr>"

definition setDefaultLimits :: "TraderRiskLimits \<Rightarrow> RiskEngine \<Rightarrow> RiskEngine" where
  "setDefaultLimits limits e = e\<lparr>default_limits := limits\<rparr>"

definition get_limits :: "TraderId \<Rightarrow> RiskEngine \<Rightarrow> TraderRiskLimits" where
  "get_limits tid e = (case trader_limits e tid of Some l \<Rightarrow> l | None \<Rightarrow> default_limits e)"

text \<open>The reference \<^verbatim>\<open>get_state\<close> returns: the state it denotes, and the engine after the insertion.\<close>

definition get_state :: "TraderId \<Rightarrow> RiskEngine \<Rightarrow> TraderRiskState \<times> RiskEngine" where
  "get_state tid e =
     (case trader_states e tid of
        Some st \<Rightarrow> (st, e)
      | None \<Rightarrow> (new_risk_state, e\<lparr>trader_states := (trader_states e)(tid \<mapsto> new_risk_state)\<rparr>))"

definition put_state :: "TraderId \<Rightarrow> TraderRiskState \<Rightarrow> RiskEngine \<Rightarrow> RiskEngine" where
  "put_state tid st e = e\<lparr>trader_states := (trader_states e)(tid \<mapsto> st)\<rparr>"

definition kill_trader :: "TraderId \<Rightarrow> RiskEngine \<Rightarrow> RiskEngine" where
  "kill_trader tid e = (case get_state tid e of (st, e1) \<Rightarrow> put_state tid (st\<lparr>killed := True\<rparr>) e1)"

definition kill_all :: "RiskEngine \<Rightarrow> RiskEngine" where
  "kill_all e = e\<lparr>global_kill := True\<rparr>"

definition unkill_trader :: "TraderId \<Rightarrow> RiskEngine \<Rightarrow> RiskEngine" where
  "unkill_trader tid e = (case get_state tid e of (st, e1) \<Rightarrow> put_state tid (st\<lparr>killed := False\<rparr>) e1)"

definition unkill_all :: "RiskEngine \<Rightarrow> RiskEngine" where
  "unkill_all e = e\<lparr>global_kill := False,
     trader_states := (\<lambda>tid. map_option (\<lambda>st. st\<lparr>killed := False\<rparr>) (trader_states e tid))\<rparr>"

definition is_killed :: "TraderId \<Rightarrow> RiskEngine \<Rightarrow> bool" where
  "is_killed tid e =
     (if global_kill e then True
      else case trader_states e tid of None \<Rightarrow> False | Some st \<Rightarrow> killed st)"

definition get_position :: "TraderId \<Rightarrow> Symbol \<Rightarrow> RiskEngine \<Rightarrow> Quantity" where
  "get_position tid symbol e =
     (case trader_states e tid of None \<Rightarrow> 0
      | Some st \<Rightarrow> (case positions st symbol of None \<Rightarrow> 0 | Some q \<Rightarrow> q))"

definition on_fill ::
  "TraderId \<Rightarrow> Symbol \<Rightarrow> Side \<Rightarrow> Quantity \<Rightarrow> Price \<Rightarrow> RiskEngine \<Rightarrow> RiskEngine" where
  "on_fill tid symbol sd qty price e =
     (case get_state tid e of (st, e1) \<Rightarrow>
        let pos = (case positions st symbol of None \<Rightarrow> 0 | Some q \<Rightarrow> q)
        in (case sd of
              Buy \<Rightarrow> put_state tid (st\<lparr>positions := (positions st)(symbol \<mapsto> i64 (pos + qty)),
                       net_position := i64 (net_position st + qty)\<rparr>) e1
            | Sell \<Rightarrow> put_state tid (st\<lparr>positions := (positions st)(symbol \<mapsto> i64 (pos - qty)),
                       net_position := i64 (net_position st - qty)\<rparr>) e1))"

section \<open>The checks\<close>

definition abs64 :: "int \<Rightarrow> int" where
  "abs64 x = i64 \<bar>x\<bar>"

definition check_kill_switch :: "TraderId \<Rightarrow> RiskEngine \<Rightarrow> RejectReason" where
  "check_kill_switch tid e =
     (if global_kill e then KillSwitchActive
      else if is_killed tid e then KillSwitchActive else NoReject)"

definition projected :: "Side \<Rightarrow> Quantity \<Rightarrow> Quantity \<Rightarrow> Quantity" where
  "projected sd current qty = (case sd of Buy \<Rightarrow> i64 (current + qty) | Sell \<Rightarrow> i64 (current - qty))"

definition check_position_limit :: "TraderId \<Rightarrow> Order \<Rightarrow> RiskEngine \<Rightarrow> RejectReason \<times> RiskEngine" where
  "check_position_limit tid order e =
     (let limits = get_limits tid e; (st, e1) = get_state tid e;
          current_pos = (case positions st (ord_symbol order) of None \<Rightarrow> 0 | Some q \<Rightarrow> q);
          projected_pos = projected (ord_side order) current_pos (ord_quantity order)
      in if abs64 projected_pos > max_position_per_symbol limits then (PositionLimit, e1)
         else let projected_net = projected (ord_side order) (net_position st) (ord_quantity order)
              in if abs64 projected_net > max_net_position limits then (PositionLimit, e1)
                 else (NoReject, e1))"

text \<open>The loop that pops expired timestamps off the front.\<close>

fun expire :: "Timestamp \<Rightarrow> u64 \<Rightarrow> Timestamp list \<Rightarrow> Timestamp list" where
  "expire now window [] = []"
| "expire now window (t # ts) = (if now - t > window then expire now window ts else t # ts)"

definition window_ns :: "TraderRiskLimits \<Rightarrow> u64" where
  "window_ns limits = ucast (rate_window_ms limits) * 1000000"

definition check_rate_limit :: "TraderId \<Rightarrow> Timestamp \<Rightarrow> RiskEngine \<Rightarrow> RejectReason \<times> RiskEngine" where
  "check_rate_limit tid now e =
     (let limits = get_limits tid e; (st, e1) = get_state tid e;
          ts = expire now (window_ns limits) (order_timestamps st)
      in if length ts \<ge> unat (max_order_rate limits)
         then (RateLimit, put_state tid (st\<lparr>order_timestamps := ts\<rparr>) e1)
         else (NoReject, put_state tid (st\<lparr>order_timestamps := ts @ [now]\<rparr>) e1))"

definition check_self_trade :: "TraderId \<Rightarrow> Order \<Rightarrow> RiskEngine \<Rightarrow> RejectReason" where
  "check_self_trade tid order e = NoReject"

definition check_price_validity :: "Order \<Rightarrow> RejectReason" where
  "check_price_validity order =
     (if ord_type order = Limit \<and> ord_price order \<le> 0 then InvalidPrice else NoReject)"

definition check_quantity_validity :: "Order \<Rightarrow> RejectReason" where
  "check_quantity_validity order = (if ord_quantity order \<le> 0 then InvalidQuantity else NoReject)"

definition count_reject :: "RiskEngine \<Rightarrow> RiskEngine" where
  "count_reject e = e\<lparr>orders_rejected := orders_rejected e + 1\<rparr>"

definition check_order :: "Order \<Rightarrow> RiskEngine \<Rightarrow> RejectReason \<times> RiskEngine" where
  "check_order order e0 =
     (let e = e0\<lparr>orders_checked := orders_checked e0 + 1\<rparr>;
          tid = ord_trader_id order;
          r = check_kill_switch tid e
      in if r \<noteq> NoReject then (r, count_reject e)
      else let r = check_price_validity order
      in if r \<noteq> NoReject then (r, count_reject e)
      else let r = check_quantity_validity order
      in if r \<noteq> NoReject then (r, count_reject e)
      else let (r, e) = check_position_limit tid order e
      in if r \<noteq> NoReject then (r, count_reject e)
      else let (r, e) = check_rate_limit tid (ord_submit_time order) e
      in if r \<noteq> NoReject then (r, count_reject e)
      else (NoReject, e))"

section \<open>The state of a trader\<close>

definition state_of :: "TraderId \<Rightarrow> RiskEngine \<Rightarrow> TraderRiskState" where
  "state_of tid e = fst (get_state tid e)"

named_theorems risk_simps

lemma get_state_split [risk_simps]:
  "case_prod f (get_state tid e) = f (state_of tid e) (snd (get_state tid e))"
  by (simp add: state_of_def case_prod_unfold)

lemma state_of_put [risk_simps, simp]:
  "state_of t (put_state tid st e) = (if t = tid then st else state_of t e)"
  by (simp add: state_of_def put_state_def get_state_def split: option.split)

lemma state_of_got [simp]: "state_of t (snd (get_state tid e)) = state_of t e"
  by (simp add: state_of_def get_state_def split: option.split)

lemma got_frame [simp]:
  "global_kill (snd (get_state tid e)) = global_kill e"
  "get_limits t (snd (get_state tid e)) = get_limits t e"
  "orders_checked (snd (get_state tid e)) = orders_checked e"
  "orders_rejected (snd (get_state tid e)) = orders_rejected e"
  by (simp_all add: get_state_def get_limits_def split: option.split)

lemma put_frame [simp]:
  "global_kill (put_state tid st e) = global_kill e"
  "get_limits t (put_state tid st e) = get_limits t e"
  "orders_checked (put_state tid st e) = orders_checked e"
  "orders_rejected (put_state tid st e) = orders_rejected e"
  by (simp_all add: put_state_def get_limits_def split: option.split)

lemma counter_frame [simp]:
  "state_of t (e\<lparr>orders_checked := c\<rparr>) = state_of t e"
  "state_of t (e\<lparr>orders_rejected := c\<rparr>) = state_of t e"
  "state_of t (e\<lparr>global_kill := k\<rparr>) = state_of t e"
  "state_of t (count_reject e) = state_of t e"
  "get_limits t (e\<lparr>orders_checked := c\<rparr>) = get_limits t e"
  "get_limits t (e\<lparr>global_kill := k\<rparr>) = get_limits t e"
  "get_limits t (count_reject e) = get_limits t e"
  "global_kill (count_reject e) = global_kill e"
  "orders_checked (count_reject e) = orders_checked e"
  by (simp_all add: state_of_def get_state_def get_limits_def count_reject_def split: option.split)

lemma is_killed_state: "is_killed tid e \<longleftrightarrow> global_kill e \<or> killed (state_of tid e)"
  by (simp add: is_killed_def state_of_def get_state_def new_risk_state_def split: option.split)

lemma get_position_state:
  "get_position tid s e = (case positions (state_of tid e) s of None \<Rightarrow> 0 | Some q \<Rightarrow> q)"
  by (simp add: get_position_def state_of_def get_state_def new_risk_state_def split: option.split)

lemma kill_frame [simp]:
  "state_of t (kill_trader tid e) = (if t = tid then (state_of t e)\<lparr>killed := True\<rparr> else state_of t e)"
  "state_of t (unkill_trader tid e) = (if t = tid then (state_of t e)\<lparr>killed := False\<rparr> else state_of t e)"
  "state_of t (kill_all e) = state_of t e"
  "state_of t (unkill_all e) = (state_of t e)\<lparr>killed := False\<rparr>"
  "global_kill (kill_trader tid e) = global_kill e" "global_kill (unkill_trader tid e) = global_kill e"
  "global_kill (kill_all e)" "\<not> global_kill (unkill_all e)"
  "get_limits t (kill_trader tid e) = get_limits t e" "get_limits t (unkill_trader tid e) = get_limits t e"
  "get_limits t (kill_all e) = get_limits t e" "get_limits t (unkill_all e) = get_limits t e"
  by (simp_all add: kill_trader_def unkill_trader_def kill_all_def unkill_all_def risk_simps)
    (simp_all add: state_of_def get_state_def get_limits_def new_risk_state_def split: option.split)

text \<open>The signed quantity of a fill.\<close>

definition signed_qty :: "Side \<Rightarrow> Quantity \<Rightarrow> int" where
  "signed_qty sd qty = (case sd of Buy \<Rightarrow> qty | Sell \<Rightarrow> - qty)"

lemma projected_signed: "projected sd cur qty = i64 (cur + signed_qty sd qty)"
  by (simp add: projected_def signed_qty_def split: Side.split)

lemma fill_frame [simp]:
  "global_kill (on_fill tid s sd q p e) = global_kill e"
  "get_limits t (on_fill tid s sd q p e) = get_limits t e"
  "order_timestamps (state_of t (on_fill tid s sd q p e)) = order_timestamps (state_of t e)"
  "killed (state_of t (on_fill tid s sd q p e)) = killed (state_of t e)"
  "net_position (state_of t (on_fill tid s sd q p e)) =
     (if t = tid then i64 (net_position (state_of t e) + signed_qty sd q) else net_position (state_of t e))"
  "get_position t y (on_fill tid s sd q p e) =
     (if t = tid \<and> y = s then i64 (get_position t y e + signed_qty sd q) else get_position t y e)"
  by (simp_all add: on_fill_def get_position_state signed_qty_def risk_simps Let_def
      split: Side.split)

section \<open>The verdict of a check\<close>

text \<open>The verdict as one table, in the order of the checks.\<close>

definition rate_ok :: "TraderId \<Rightarrow> Timestamp \<Rightarrow> RiskEngine \<Rightarrow> bool" where
  "rate_ok tid now e \<longleftrightarrow> length (expire now (window_ns (get_limits tid e))
     (order_timestamps (state_of tid e))) < unat (max_order_rate (get_limits tid e))"

definition position_ok :: "TraderId \<Rightarrow> Order \<Rightarrow> RiskEngine \<Rightarrow> bool" where
  "position_ok tid order e \<longleftrightarrow>
     abs64 (projected (ord_side order) (get_position tid (ord_symbol order) e) (ord_quantity order))
       \<le> max_position_per_symbol (get_limits tid e) \<and>
     abs64 (projected (ord_side order) (net_position (state_of tid e)) (ord_quantity order))
       \<le> max_net_position (get_limits tid e)"

definition verdict :: "Order \<Rightarrow> RiskEngine \<Rightarrow> RejectReason" where
  "verdict order e =
     (if is_killed (ord_trader_id order) e then KillSwitchActive
      else if ord_type order = Limit \<and> ord_price order \<le> 0 then InvalidPrice
      else if ord_quantity order \<le> 0 then InvalidQuantity
      else if \<not> position_ok (ord_trader_id order) order e then PositionLimit
      else if \<not> rate_ok (ord_trader_id order) (ord_submit_time order) e then RateLimit
      else NoReject)"

definition checked_times :: "Order \<Rightarrow> RiskEngine \<Rightarrow> Timestamp list" where
  "checked_times order e =
     (let tid = ord_trader_id order; q = order_timestamps (state_of tid e);
          ts = expire (ord_submit_time order) (window_ns (get_limits tid e)) q
      in case verdict order e of NoReject \<Rightarrow> ts @ [ord_submit_time order] | RateLimit \<Rightarrow> ts | _ \<Rightarrow> q)"

lemma check_position_limit_eq:
  "check_position_limit tid order e =
     (if position_ok tid order e then NoReject else PositionLimit, snd (get_state tid e))"
  by (auto simp: check_position_limit_def position_ok_def get_position_state risk_simps Let_def)

lemma check_rate_limit_eq:
  "check_rate_limit tid now e =
     (let ts = expire now (window_ns (get_limits tid e)) (order_timestamps (state_of tid e))
      in (if rate_ok tid now e then NoReject else RateLimit,
          put_state tid ((state_of tid e)\<lparr>order_timestamps :=
            (if rate_ok tid now e then ts @ [now] else ts)\<rparr>) (snd (get_state tid e))))"
  by (simp add: check_rate_limit_def rate_ok_def risk_simps Let_def not_le)

lemma check_kill_switch_eq:
  "check_kill_switch tid e = (if is_killed tid e then KillSwitchActive else NoReject)"
  by (simp add: check_kill_switch_def is_killed_state)

lemma ok_frame [simp]:
  "is_killed tid (e\<lparr>orders_checked := c\<rparr>) = is_killed tid e"
  "position_ok tid order (e\<lparr>orders_checked := c\<rparr>) = position_ok tid order e"
  "rate_ok tid now (e\<lparr>orders_checked := c\<rparr>) = rate_ok tid now e"
  "rate_ok tid now (snd (get_state t e)) = rate_ok tid now e"
  by (simp_all add: is_killed_state position_ok_def rate_ok_def get_position_state)

lemma check_order_verdict: "fst (check_order order e) = verdict order e"
  by (simp add: check_order_def verdict_def check_kill_switch_eq check_price_validity_def
      check_quantity_validity_def check_position_limit_eq check_rate_limit_eq Let_def)

lemma check_order_state:
  "state_of t (snd (check_order order e)) =
     (if t = ord_trader_id order then (state_of t e)\<lparr>order_timestamps := checked_times order e\<rparr>
      else state_of t e)"
  by (simp add: check_order_def verdict_def checked_times_def check_kill_switch_eq
      check_price_validity_def check_quantity_validity_def check_position_limit_eq
      check_rate_limit_eq Let_def)

lemma check_order_frame [simp]:
  "get_limits t (snd (check_order order e)) = get_limits t e"
  "global_kill (snd (check_order order e)) = global_kill e"
  "orders_checked (snd (check_order order e)) = orders_checked e + 1"
  by (simp_all add: check_order_def check_position_limit_eq check_rate_limit_eq Let_def)

lemma check_order_rejected:
  "orders_rejected (snd (check_order order e)) =
     orders_rejected e + (if verdict order e = NoReject then 0 else 1)"
  by (simp add: check_order_def verdict_def check_kill_switch_eq check_price_validity_def
      check_quantity_validity_def check_position_limit_eq check_rate_limit_eq Let_def count_reject_def)

end
