(* ===== verification/Risk_Properties.thy ===== *)
theory Risk_Properties
  imports Risk_Engine
begin

text \<open>
  What the risk engine guarantees over any sequence of its operations: the table of verdicts,
  the sliding-window rate limit, the kill switches, the tracking of positions, and the
  position limit, with the inputs on which the 64-bit arithmetic defeats a check.
\<close>

section \<open>Sequences of operations\<close>

datatype RiskEvent =
  CheckOrder Order
| Fill TraderId Symbol Side Quantity Price
| KillTrader TraderId
| KillAll
| UnkillTrader TraderId
| UnkillAll

fun risk_step :: "RiskEvent \<Rightarrow> RiskEngine \<Rightarrow> RejectReason \<times> RiskEngine" where
  "risk_step (CheckOrder order) e = check_order order e"
| "risk_step (Fill tid s sd q p) e = (NoReject, on_fill tid s sd q p e)"
| "risk_step (KillTrader tid) e = (NoReject, kill_trader tid e)"
| "risk_step KillAll e = (NoReject, kill_all e)"
| "risk_step (UnkillTrader tid) e = (NoReject, unkill_trader tid e)"
| "risk_step UnkillAll e = (NoReject, unkill_all e)"

text \<open>A run returns each event with its verdict, and the final engine.\<close>

fun risk_run :: "RiskEvent list \<Rightarrow> RiskEngine \<Rightarrow> (RiskEvent \<times> RejectReason) list \<times> RiskEngine" where
  "risk_run [] e = ([], e)"
| "risk_run (ev # evs) e =
     (let (r, e1) = risk_step ev e; (log, e2) = risk_run evs e1 in ((ev, r) # log, e2))"

text \<open>The submit times of a trader's orders, and of those the engine let through.\<close>

fun times_of :: "TraderId \<Rightarrow> RiskEvent list \<Rightarrow> Timestamp list" where
  "times_of tid [] = []"
| "times_of tid (CheckOrder order # evs) =
     (if ord_trader_id order = tid then ord_submit_time order # times_of tid evs else times_of tid evs)"
| "times_of tid (_ # evs) = times_of tid evs"

definition accepted :: "TraderId \<Rightarrow> (RiskEvent \<times> RejectReason) list \<Rightarrow> Timestamp list" where
  "accepted tid log = times_of tid (map fst (filter (\<lambda>(ev, r). r = NoReject) log))"

lemma times_of_append: "times_of tid (xs @ ys) = times_of tid xs @ times_of tid ys"
  by (induction tid xs rule: times_of.induct) auto

lemma risk_step_frame [simp]: "get_limits t (snd (risk_step ev e)) = get_limits t e"
  by (cases ev) simp_all

lemma risk_run_frame [simp]: "get_limits t (snd (risk_run evs e)) = get_limits t e"
proof (induction evs arbitrary: e)
  case (Cons ev evs)
  from Cons [of "snd (risk_step ev e)"] show ?case by (simp add: case_prod_unfold Let_def)
qed simp

lemma risk_run_Cons:
  "fst (risk_run (ev # evs) e) =
     (ev, fst (risk_step ev e)) # fst (risk_run evs (snd (risk_step ev e)))"
  "snd (risk_run (ev # evs) e) = snd (risk_run evs (snd (risk_step ev e)))"
  by (simp_all add: case_prod_unfold Let_def)

section \<open>The rate limit\<close>

text \<open>Ages of timestamps are word differences; below \<open>now\<close> they do not wrap around.\<close>

lemma age_mono:
  fixes t now :: u64
  shows "t \<le> now \<Longrightarrow> now \<le> now' \<Longrightarrow> now - t \<le> now' - t"
  by (rule word_le_minus_mono_left)

lemma age_anti:
  fixes t now :: u64
  shows "a \<le> t \<Longrightarrow> t \<le> now \<Longrightarrow> now - t \<le> now - a"
  by uint_arith

lemma expire_suffix:
  "\<exists>d. q = d @ expire now w q \<and> (\<forall>t \<in> set d. now - t > w)"
proof (induction q)
  case (Cons t ts)
  then obtain d where "ts = d @ expire now w ts" "\<forall>t \<in> set d. now - t > w" by blast
  then show ?case by (cases "now - t > w") (force intro: exI [of _ "t # d"], simp)
qed simp

lemma expire_all: "\<forall>t \<in> set q. w < now - t \<Longrightarrow> expire now w q = []"
  by (induction q) simp_all

lemma expire_sorted:
  assumes "sorted q" and "\<forall>t \<in> set q. t \<le> now"
  shows "expire now w q = filter (\<lambda>t. now - t \<le> w) q"
  using assms
proof (induction q)
  case (Cons t ts)
  show ?case
  proof (cases "now - t > w")
    case True
    with Cons show ?thesis by simp
  next
    case False
    with Cons.prems have "\<forall>x \<in> set ts. now - x \<le> w"
      by (auto intro: order.trans [OF age_anti])
    then have "filter (\<lambda>t. now - t \<le> w) ts = ts" by simp
    with False show ?thesis by simp
  qed
qed simp

text \<open>The accepted times within one window that begins at \<open>a\<close>.\<close>

definition in_window :: "u64 \<Rightarrow> u64 \<Rightarrow> Timestamp list \<Rightarrow> Timestamp list" where
  "in_window w a ts = filter (\<lambda>t. a \<le> t \<and> t - a \<le> w) ts"

text \<open>The limiter's invariant: the queue is the tail of all accepted times \<open>acc\<close>, whatever was
  dropped is older than the window, and no window holds more than \<open>n\<close> accepted times.\<close>

definition rate_inv :: "u64 \<Rightarrow> nat \<Rightarrow> u64 \<Rightarrow> Timestamp list \<Rightarrow> Timestamp list \<Rightarrow> bool" where
  "rate_inv w n now acc q \<longleftrightarrow> (\<forall>t \<in> set acc. t \<le> now) \<and>
     (\<exists>d. acc = d @ q \<and> (\<forall>t \<in> set d. now - t > w)) \<and> (\<forall>a. length (in_window w a acc) \<le> n)"

lemma rate_inv_empty: "rate_inv w n now [] []"
  by (simp add: rate_inv_def in_window_def)

lemma rate_inv_later:
  assumes inv: "rate_inv w n now acc q" and later: "now \<le> now'"
  shows "rate_inv w n now' acc q"
proof -
  from inv obtain d where le: "\<forall>t \<in> set acc. t \<le> now" and d: "acc = d @ q"
    and old: "\<forall>t \<in> set d. now - t > w"
    and n: "\<forall>a. length (in_window w a acc) \<le> n" by (auto simp: rate_inv_def)
  have "w < now' - t" if "t \<in> set d" for t
  proof -
    have "now - t \<le> now' - t" using that le d later by (intro age_mono) auto
    with old that show ?thesis by (auto intro: less_le_trans)
  qed
  with le d n later show ?thesis by (auto simp: rate_inv_def intro: order.trans)
qed

lemma rate_inv_expire:
  assumes "rate_inv w n now acc q"
  shows "rate_inv w n now acc (expire now w q)"
proof -
  from assms obtain d where d: "acc = d @ q" "\<forall>t \<in> set d. now - t > w" by (auto simp: rate_inv_def)
  from expire_suffix [of q now w] obtain d' where d': "q = d' @ expire now w q"
    "\<forall>t \<in> set d'. now - t > w" by blast
  have "acc = (d @ d') @ expire now w q" using d(1) d'(1) by simp
  with assms d(2) d'(2) show ?thesis unfolding rate_inv_def by (metis Un_iff set_append)
qed

lemma rate_inv_push:
  assumes inv: "rate_inv w n now acc q" and room: "length q < n"
  shows "rate_inv w n now (acc @ [now]) (q @ [now])"
proof -
  from inv obtain d where le: "\<forall>t \<in> set acc. t \<le> now" and d: "acc = d @ q"
    and old: "\<forall>t \<in> set d. now - t > w"
    and n: "\<forall>a. length (in_window w a acc) \<le> n" by (auto simp: rate_inv_def)
  have "length (in_window w a (acc @ [now])) \<le> n" for a
  proof (cases "a \<le> now \<and> now - a \<le> w")
    case True
    have "in_window w a d = []"
    proof -
      have "\<not> (a \<le> t \<and> t - a \<le> w)" if "t \<in> set d" for t
      proof
        assume "a \<le> t \<and> t - a \<le> w"
        then have "now - t \<le> now - a" using that le d by (intro age_anti) auto
        with True old that show False by (meson leD le_less_trans)
      qed
      then show ?thesis by (simp add: in_window_def filter_empty_conv)
    qed
    then have "length (in_window w a acc) \<le> length q"
      by (simp add: d in_window_def)
    with room True show ?thesis by (simp add: in_window_def)
  next
    case False
    then have "in_window w a (acc @ [now]) = in_window w a acc" by (auto simp: in_window_def)
    with n show ?thesis by simp
  qed
  with le d old show ?thesis by (auto simp: rate_inv_def)
qed

lemma risk_step_times:
  assumes "\<forall>o'. ev = CheckOrder o' \<longrightarrow> ord_trader_id o' \<noteq> tid"
  shows "order_timestamps (state_of tid (snd (risk_step ev e))) = order_timestamps (state_of tid e)"
  using assms by (cases ev) (auto simp: check_order_state)

lemma rate_inv_step:
  assumes inv: "rate_inv (window_ns (get_limits tid e)) (unat (max_order_rate (get_limits tid e))) now
      acc (order_timestamps (state_of tid e))"
    and mono: "\<forall>t \<in> set (times_of tid [ev]). now \<le> t"
  shows "rate_inv (window_ns (get_limits tid e)) (unat (max_order_rate (get_limits tid e)))
      (last (now # times_of tid [ev])) (acc @ accepted tid [(ev, fst (risk_step ev e))])
      (order_timestamps (state_of tid (snd (risk_step ev e))))"
proof (cases "\<exists>o'. ev = CheckOrder o' \<and> ord_trader_id o' = tid")
  case True
  then obtain o' where ev: "ev = CheckOrder o'" "ord_trader_id o' = tid" by blast
  note inv' = rate_inv_later [OF inv, of "ord_submit_time o'"]
  from mono ev have "now \<le> ord_submit_time o'" by simp
  from rate_inv_expire [OF inv' [OF this]] rate_inv_push inv' [OF this] ev show ?thesis
    by (auto simp: accepted_def check_order_verdict check_order_state checked_times_def verdict_def
        rate_ok_def Let_def)
next
  case False
  then have "times_of tid [ev] = []" by (cases ev) auto
  moreover from this have "accepted tid [(ev, r)] = []" for r by (simp add: accepted_def)
  ultimately show ?thesis using inv False by (subst risk_step_times) auto
qed

lemma rate_inv_run:
  assumes "rate_inv (window_ns (get_limits tid e)) (unat (max_order_rate (get_limits tid e))) now
      acc (order_timestamps (state_of tid e))"
    and "sorted (now # times_of tid evs)"
  shows "\<exists>now' \<in> set (now # times_of tid evs). rate_inv (window_ns (get_limits tid e)) (unat (max_order_rate (get_limits tid e))) now'
      (acc @ accepted tid (fst (risk_run evs e)))
      (order_timestamps (state_of tid (snd (risk_run evs e))))"
  using assms
proof (induction evs arbitrary: e now acc)
  case Nil
  then show ?case by (auto simp: accepted_def)
next
  case (Cons ev evs)
  let ?e = "snd (risk_step ev e)" and ?now = "last (now # times_of tid [ev])"
  have split: "times_of tid (ev # evs) = times_of tid [ev] @ times_of tid evs"
    using times_of_append [of tid "[ev]" evs] by simp
  from Cons.prems(2) have mono: "\<forall>t \<in> set (times_of tid [ev]). now \<le> t" by (simp add: split)
  have sorted: "sorted (?now # times_of tid evs)"
    using Cons.prems(2) by (cases ev) (auto simp: split)
  have log: "accepted tid (fst (risk_run (ev # evs) e)) =
      accepted tid [(ev, fst (risk_step ev e))] @ accepted tid (fst (risk_run evs ?e))"
    by (simp add: risk_run_Cons accepted_def times_of_append [symmetric] del: risk_run.simps)
  have "set (?now # times_of tid evs) \<subseteq> set (now # times_of tid (ev # evs))"
    by (cases ev) (auto simp: split)
  moreover from Cons.IH [of ?e ?now "acc @ accepted tid [(ev, fst (risk_step ev e))]"] sorted
    rate_inv_step [OF Cons.prems(1) mono]
  obtain now' where "now' \<in> set (?now # times_of tid evs)"
    "rate_inv (window_ns (get_limits tid e)) (unat (max_order_rate (get_limits tid e))) now'
      (acc @ accepted tid (fst (risk_run (ev # evs) e)))
      (order_timestamps (state_of tid (snd (risk_run (ev # evs) e))))"
    unfolding log risk_run_Cons(2) by auto
  ultimately show ?case by blast
qed

text \<open>C12. The sliding-window rate limit.  Along any sequence of checks, fills and kill switches in
  which a trader's submit times do not decrease, every window of the configured length, wherever
  it starts, holds at most the configured number of the trader's accepted orders.\<close>

theorem rate_limit_window:
  assumes "trader_states e tid = None" and "sorted (times_of tid evs)"
  shows "length (filter (\<lambda>t. a \<le> t \<and> t - a \<le> window_ns (get_limits tid e))
       (accepted tid (fst (risk_run evs e))))
     \<le> unat (max_order_rate (get_limits tid e))"
proof -
  have "order_timestamps (state_of tid e) = []"
    using assms(1) by (simp add: state_of_def get_state_def new_risk_state_def)
  moreover have "sorted (0 # times_of tid evs)" using assms(2) by simp
  ultimately obtain now' where "rate_inv (window_ns (get_limits tid e))
      (unat (max_order_rate (get_limits tid e))) now' (accepted tid (fst (risk_run evs e)))
      (order_timestamps (state_of tid (snd (risk_run evs e))))"
    using rate_inv_run [of tid e 0 "[]" evs] rate_inv_empty by auto
  then show ?thesis by (simp add: rate_inv_def in_window_def)
qed

definition demo_check :: "Timestamp \<Rightarrow> Quantity \<Rightarrow> Order" where
  "demo_check ts qty = default_order\<lparr>ord_id := ts, ord_trader_id := 7, ord_price := 100,
     ord_quantity := qty, ord_submit_time := ts\<rparr>"

definition demo_limits :: TraderRiskLimits where
  "demo_limits = \<lparr>max_position_per_symbol = 1000, max_net_position = 5000, max_order_rate = 2,
     rate_window_ms = 1, self_trade_prevention = True\<rparr>"

definition demo_engine :: RiskEngine where
  "demo_engine = setTraderLimits 7 demo_limits new_risk_engine"

lemmas risk_demo_simps = demo_check_def demo_limits_def demo_engine_def setTraderLimits_def
  new_risk_engine_def default_order_def default_risk_limits_def get_limits_def window_ns_def

theorem rate_limit_window_witness:
  "accepted 7 (fst (risk_run (map (\<lambda>t. CheckOrder (demo_check t 1)) [10, 20, 30]) demo_engine)) = [10, 20]
   \<and> length (filter (\<lambda>t. 5 \<le> t \<and> t - 5 \<le> window_ns (get_limits 7 demo_engine))
       (accepted 7 (fst (risk_run (map (\<lambda>t. CheckOrder (demo_check t 1)) [10, 20, 30]) demo_engine))))
     \<le> unat (max_order_rate (get_limits 7 demo_engine))"
proof
  show "accepted 7 (fst (risk_run (map (\<lambda>t. CheckOrder (demo_check t 1)) [10, 20, 30]) demo_engine)) = [10, 20]"
    by code_simp
  show "length (filter (\<lambda>t. 5 \<le> t \<and> t - 5 \<le> window_ns (get_limits 7 demo_engine))
       (accepted 7 (fst (risk_run (map (\<lambda>t. CheckOrder (demo_check t 1)) [10, 20, 30]) demo_engine))))
     \<le> unat (max_order_rate (get_limits 7 demo_engine))"
    by (rule rate_limit_window) (simp_all add: risk_demo_simps)
qed

text \<open>The accepted times of a run are a sorted part of the submitted ones.\<close>

lemma accepted_sorted:
  "sorted (times_of tid evs) \<Longrightarrow> sorted (accepted tid (fst (risk_run evs e))) \<and>
     set (accepted tid (fst (risk_run evs e))) \<subseteq> set (times_of tid evs)"
proof (induction evs arbitrary: e)
  case Nil
  then show ?case by (simp add: accepted_def)
next
  case (Cons ev evs)
  have split: "times_of tid (ev # evs) = times_of tid [ev] @ times_of tid evs"
    using times_of_append [of tid "[ev]" evs] by simp
  have log: "accepted tid (fst (risk_run (ev # evs) e)) =
      accepted tid [(ev, fst (risk_step ev e))] @ accepted tid (fst (risk_run evs (snd (risk_step ev e))))"
    by (simp add: risk_run_Cons accepted_def times_of_append [symmetric] del: risk_run.simps)
  have "set (accepted tid [(ev, r)]) \<subseteq> set (times_of tid [ev])" "sorted (accepted tid [(ev, r)])" for r
    by (cases ev; simp add: accepted_def)+
  moreover from Cons.prems have "sorted (times_of tid evs)" by (simp add: split sorted_append)
  note Cons.IH [OF this, of "snd (risk_step ev e)"]
  ultimately show ?case
    using Cons.prems unfolding split log by (simp add: sorted_append) blast
qed

text \<open>The rate limiter refuses nothing it should admit: after any run with non-decreasing submit
  times, a check at a later time is refused if and only if the accepted orders of age at most
  the window already number the configured maximum.\<close>

theorem rate_limit_exact:
  assumes fresh: "trader_states e tid = None" and sorted: "sorted (times_of tid evs @ [now])"
  shows "fst (check_rate_limit tid now (snd (risk_run evs e))) = RateLimit \<longleftrightarrow>
    unat (max_order_rate (get_limits tid e)) \<le>
      length (filter (\<lambda>t. now - t \<le> window_ns (get_limits tid e)) (accepted tid (fst (risk_run evs e))))"
proof -
  let ?w = "window_ns (get_limits tid e)" and ?e = "snd (risk_run evs e)"
    and ?acc = "accepted tid (fst (risk_run evs e))"
  have "order_timestamps (state_of tid e) = []"
    using fresh by (simp add: state_of_def get_state_def new_risk_state_def)
  moreover have "sorted (0 # times_of tid evs)" using sorted by (simp add: sorted_append)
  ultimately obtain now' where now': "now' \<in> set (0 # times_of tid evs)"
      and "rate_inv ?w (unat (max_order_rate (get_limits tid e))) now' ?acc
      (order_timestamps (state_of tid ?e))"
    using rate_inv_run [of tid e 0 "[]" evs] rate_inv_empty by fastforce
  then obtain d where acc: "?acc = d @ order_timestamps (state_of tid ?e)"
    and old: "\<forall>t \<in> set d. t \<le> now' \<and> ?w < now' - t" by (auto simp: rate_inv_def)
  from now' sorted have "now' \<le> now" by (auto simp: sorted_append)
  with old have old: "\<forall>t \<in> set d. ?w < now - t" by (meson age_mono less_le_trans)
  from accepted_sorted [of tid evs e] sorted have s: "sorted ?acc" "\<forall>t \<in> set ?acc. t \<le> now"
    by (auto simp: sorted_append)
  have "expire now ?w (order_timestamps (state_of tid ?e)) =
      filter (\<lambda>t. now - t \<le> ?w) (order_timestamps (state_of tid ?e))"
    using s by (intro expire_sorted) (simp_all add: acc sorted_append)
  moreover have "filter (\<lambda>t. now - t \<le> ?w) d = []"
    using old by (simp add: filter_empty_conv not_le)
  ultimately show ?thesis
    by (simp add: check_rate_limit_eq rate_ok_def acc not_less Let_def)
qed

theorem rate_limit_exact_witness:
  "fst (check_rate_limit 7 30 (snd (risk_run (map (\<lambda>t. CheckOrder (demo_check t 1)) [10, 20]) demo_engine)))
     = RateLimit"
proof -
  have "accepted 7 (fst (risk_run (map (\<lambda>t. CheckOrder (demo_check t 1)) [10, 20]) demo_engine)) = [10, 20]"
    by code_simp
  then show ?thesis
    by (subst rate_limit_exact) (simp_all add: risk_demo_simps)
qed

text \<open>Clock steps backwards.\<close>

lemma window_ns_bound: "unat (window_ns l) \<le> 4294967295000000"
proof -
  have "unat (window_ns l) \<le> unat (rate_window_ms l) * 1000000"
    unfolding window_ns_def unat_word_ariths unsigned_ucast_eq
    by (rule order.trans [OF mod_less_eq_dividend]) (simp add: take_bit_nat_less_eq_self)
  moreover have "unat (rate_window_ms l) \<le> 4294967295"
    using unsigned_less [of "rate_window_ms l", where ?'a = nat] by simp
  ultimately show ?thesis by simp
qed

lemma age_wraps:
  fixes t now :: u64
  assumes "now < t" "t - now \<le> 9223372036854775808" and w: "unat w \<le> 4294967295000000"
  shows "w < now - t"
proof -
  have "uint w \<le> 4294967295000000" using w by (simp add: nat_le_iff flip: nat_uint_eq)
  moreover have "uint now < uint t" "uint (t - now) \<le> 9223372036854775808"
    using assms(1,2) by (simp_all only: word_less_def word_le_def) simp
  moreover from this
  have "uint (now - t) = uint now - uint t + 18446744073709551616" "uint (t - now) = uint t - uint now"
    by (simp_all add: uint_sub_if')
  ultimately show ?thesis unfolding word_less_def by linarith
qed

text \<open>The hole in the rate limit: submit times come from the client and ages are unsigned.
  When every queued time lies in the future of a check, by at most half the range of the
  clock, the ages wrap around, the queue is emptied and the check is admitted, whatever
  (positive) rate is configured.\<close>

theorem rate_limit_wraps:
  assumes "0 < max_order_rate (get_limits tid e)"
    and "\<forall>t \<in> set (order_timestamps (state_of tid e)). now < t \<and> t - now \<le> 9223372036854775808"
  shows "fst (check_rate_limit tid now e) = NoReject \<and>
    order_timestamps (state_of tid (snd (check_rate_limit tid now e))) = [now]"
proof -
  have "\<forall>t \<in> set (order_timestamps (state_of tid e)). window_ns (get_limits tid e) < now - t"
    using assms(2) age_wraps window_ns_bound by blast
  then have "expire now (window_ns (get_limits tid e)) (order_timestamps (state_of tid e)) = []"
    by (rule expire_all)
  then show ?thesis
    using assms(1) by (simp add: check_rate_limit_eq rate_ok_def Let_def unat_gt_0 word_gt_0)
qed

theorem rate_limit_wraps_witness:
  "fst (check_rate_limit 7 5 (snd (risk_run [CheckOrder (demo_check 10 1), CheckOrder (demo_check 20 1)] demo_engine)))
     = NoReject"
proof -
  have q: "order_timestamps (state_of 7 (snd (risk_run [CheckOrder (demo_check 10 1), CheckOrder (demo_check 20 1)]
      demo_engine))) = [10, 20]" by code_simp
  have lim: "get_limits 7 demo_engine = demo_limits" "max_order_rate demo_limits = 2"
    by (simp_all add: risk_demo_simps)
  show ?thesis
    by (rule conjunct1 [OF rate_limit_wraps]) (simp_all add: q lim del: risk_run.simps)
qed

section \<open>Kill switches\<close>

definition lifts_kill :: "TraderId \<Rightarrow> RiskEvent \<Rightarrow> bool" where
  "lifts_kill tid ev \<longleftrightarrow> ev = UnkillAll \<or> ev = UnkillTrader tid"

lemma killed_step:
  "killed (state_of tid e) \<Longrightarrow> \<not> lifts_kill tid ev \<Longrightarrow> killed (state_of tid (snd (risk_step ev e)))"
  by (cases ev) (auto simp: check_order_state lifts_kill_def)

lemma global_killed_step:
  "global_kill e \<Longrightarrow> ev \<noteq> UnkillAll \<Longrightarrow> global_kill (snd (risk_step ev e))"
  by (cases ev) simp_all

lemma killed_verdict:
  "is_killed (ord_trader_id order) e \<Longrightarrow> fst (risk_step (CheckOrder order) e) = KillSwitchActive"
  by (simp add: check_order_verdict verdict_def)

lemma run_member:
  "x \<in> set (fst (risk_run (ev # evs) e)) \<longleftrightarrow>
     x = (ev, fst (risk_step ev e)) \<or> x \<in> set (fst (risk_run evs (snd (risk_step ev e))))"
  by (simp add: risk_run_Cons del: risk_run.simps)

lemma killed_run:
  assumes "(CheckOrder order, r) \<in> set (fst (risk_run evs e))"
    and "killed (state_of (ord_trader_id order) e)"
    and "\<forall>ev \<in> set evs. \<not> lifts_kill (ord_trader_id order) ev"
  shows "r = KillSwitchActive"
  using assms
proof (induction evs arbitrary: e)
  case (Cons ev evs)
  from Cons.prems(1) show ?case unfolding run_member
  proof
    assume "(CheckOrder order, r) = (ev, fst (risk_step ev e))"
    with killed_verdict [of order e] Cons.prems(2) show ?thesis by (auto simp: is_killed_state)
  next
    assume "(CheckOrder order, r) \<in> set (fst (risk_run evs (snd (risk_step ev e))))"
    with Cons.IH Cons.prems killed_step show ?thesis by auto
  qed
qed simp

lemma global_killed_run:
  assumes "(CheckOrder order, r) \<in> set (fst (risk_run evs e))"
    and "global_kill e" and "UnkillAll \<notin> set evs"
  shows "r = KillSwitchActive"
  using assms
proof (induction evs arbitrary: e)
  case (Cons ev evs)
  from Cons.prems(1) show ?case unfolding run_member
  proof
    assume "(CheckOrder order, r) = (ev, fst (risk_step ev e))"
    with killed_verdict [of order e] Cons.prems(2) show ?thesis by (auto simp: is_killed_state)
  next
    assume "(CheckOrder order, r) \<in> set (fst (risk_run evs (snd (risk_step ev e))))"
    with Cons.IH Cons.prems global_killed_step show ?thesis by auto
  qed
qed simp

text \<open>C13. The kill switches hold.  After a trader is killed, every order of that trader is refused
  with the kill-switch reason until the trader, or everybody, is released; after the global
  kill every order of everybody is, and releasing a single trader does not lift it.\<close>

theorem kill_switch_blocks:
  assumes "(CheckOrder order, r) \<in> set (fst (risk_run (kill # evs) e))"
    and "kill = KillTrader (ord_trader_id order) \<and> (\<forall>ev \<in> set evs. \<not> lifts_kill (ord_trader_id order) ev)
      \<or> kill = KillAll \<and> UnkillAll \<notin> set evs"
  shows "r = KillSwitchActive"
proof -
  let ?e = "snd (risk_step kill e)"
  from assms have run: "(CheckOrder order, r) \<in> set (fst (risk_run evs ?e))"
    by (auto simp: run_member simp del: risk_run.simps)
  from assms(2) killed_run [OF run] global_killed_run [OF run] show ?thesis by auto
qed

theorem kill_switch_blocks_witness:
  "fst (risk_run [KillTrader 7, CheckOrder (demo_check 10 1)] demo_engine) =
     [(KillTrader 7, NoReject), (CheckOrder (demo_check 10 1), KillSwitchActive)]"
proof -
  obtain r where r: "fst (risk_run [KillTrader 7, CheckOrder (demo_check 10 1)] demo_engine) =
     [(KillTrader 7, NoReject), (CheckOrder (demo_check 10 1), r)]"
    by (simp add: risk_run_Cons del: risk_run.simps(2))
  have "r = KillSwitchActive"
    by (rule kill_switch_blocks [of "demo_check 10 1" r "KillTrader 7" "[CheckOrder (demo_check 10 1)]"
          demo_engine, unfolded r])
      (simp_all add: lifts_kill_def demo_check_def)
  with r show ?thesis by simp
qed

section \<open>Positions\<close>

fun filled_sum :: "TraderId \<Rightarrow> Symbol option \<Rightarrow> RiskEvent list \<Rightarrow> int" where
  "filled_sum tid which [] = 0"
| "filled_sum tid which (Fill t s sd q p # evs) =
     (if t = tid \<and> (which = None \<or> which = Some s) then signed_qty sd q else 0) + filled_sum tid which evs"
| "filled_sum tid which (_ # evs) = filled_sum tid which evs"

lemma position_check [simp]:
  "get_position t s (snd (check_order order e)) = get_position t s e"
  by (simp add: get_position_state check_order_state)

lemma net_frame [simp]:
  "net_position (state_of t (snd (check_order order e))) = net_position (state_of t e)"
  "net_position (state_of t (kill_trader tid e)) = net_position (state_of t e)"
  "net_position (state_of t (unkill_trader tid e)) = net_position (state_of t e)"
  by (simp_all add: check_order_state)

lemma position_kill [simp]:
  "get_position t s (kill_trader tid e) = get_position t s e"
  "get_position t s (unkill_trader tid e) = get_position t s e"
  "get_position t s (kill_all e) = get_position t s e"
  "get_position t s (unkill_all e) = get_position t s e"
  by (simp_all add: get_position_state)

lemma positions_run:
  assumes "in_i64 (get_position tid s e)"
  shows "get_position tid s (snd (risk_run evs e)) = i64 (get_position tid s e + filled_sum tid (Some s) evs)"
  using assms
proof (induction evs arbitrary: e)
  case (Cons ev evs)
  then show ?case
    by (cases ev) (simp_all add: risk_run_Cons i64_add_left add.assoc del: risk_run.simps(2))
qed (simp add: i64_id)

lemma net_run:
  assumes "in_i64 (net_position (state_of tid e))"
  shows "net_position (state_of tid (snd (risk_run evs e))) =
    i64 (net_position (state_of tid e) + filled_sum tid None evs)"
  using assms
proof (induction evs arbitrary: e)
  case (Cons ev evs)
  then show ?case
    by (cases ev) (simp_all add: risk_run_Cons i64_add_left add.assoc
        del: risk_run.simps(2) kill_frame(1,2))
qed (simp add: i64_id)

text \<open>Positions are the signed sums of the fills.  From a new engine with any limits, after any
  operations, a trader's position in a symbol is the sum of the trader's fills in it, buys
  counted positive and sells negative, and the net position is the sum over all symbols, both
  in 64-bit arithmetic; checks and kill switches never touch them.\<close>

theorem positions_track_fills:
  "get_position tid s (snd (risk_run evs (new_risk_engine\<lparr>default_limits := dl, trader_limits := lims\<rparr>)))
     = i64 (filled_sum tid (Some s) evs) \<and>
   net_position (state_of tid (snd (risk_run evs (new_risk_engine\<lparr>default_limits := dl, trader_limits := lims\<rparr>))))
     = i64 (filled_sum tid None evs)"
proof -
  let ?e = "new_risk_engine\<lparr>default_limits := dl, trader_limits := lims\<rparr>"
  have "get_position tid s ?e = 0" "net_position (state_of tid ?e) = 0"
    by (simp_all add: new_risk_engine_def get_position_def state_of_def get_state_def new_risk_state_def)
  with positions_run [of tid s ?e evs] net_run [of tid ?e evs] show ?thesis by simp
qed

text \<open>C14. The position limit.  If a trader is within the limits and the check admits an order, then
  filling any part of that order leaves the trader within the limits, for the symbol and for
  the net position, as long as the sums stay inside 64 bits.\<close>

theorem admitted_fill_within_limits:
  assumes pass: "fst (check_order order e) = NoReject"
    and tid: "tid = ord_trader_id order" and s: "s = ord_symbol order"
    and within: "\<bar>get_position tid s e\<bar> \<le> max_position_per_symbol (get_limits tid e)"
      "\<bar>net_position (state_of tid e)\<bar> \<le> max_net_position (get_limits tid e)"
    and range: "\<bar>get_position tid s e\<bar> + ord_quantity order \<le> i64_max"
      "\<bar>net_position (state_of tid e)\<bar> + ord_quantity order \<le> i64_max"
    and part: "0 \<le> qty" "qty \<le> ord_quantity order"
  shows "let e' = on_fill tid s (ord_side order) qty px (snd (check_order order e))
    in \<bar>get_position tid s e'\<bar> \<le> max_position_per_symbol (get_limits tid e') \<and>
       \<bar>net_position (state_of tid e')\<bar> \<le> max_net_position (get_limits tid e')"
proof -
  let ?p = "get_position tid s e" and ?n = "net_position (state_of tid e)"
    and ?q = "signed_qty (ord_side order) (ord_quantity order)" and ?k = "signed_qty (ord_side order) qty"
  have q: "\<bar>?q\<bar> = ord_quantity order" "\<bar>?k\<bar> = qty" "0 \<le> ?k \<longleftrightarrow> 0 \<le> ?q \<or> ?k = 0"
    using part by (auto simp: signed_qty_def split: Side.split)
  have in64: "in_i64 \<bar>x\<bar> \<and> in_i64 x" if "\<bar>x\<bar> \<le> i64_max" for x
    using that by (auto simp: in_i64_def i64_max_def i64_min_def)
  from pass have "position_ok tid order e"
    by (auto simp: check_order_verdict verdict_def tid split: if_splits)
  moreover have "\<bar>?p + ?q\<bar> \<le> i64_max" "\<bar>?n + ?q\<bar> \<le> i64_max"
    using range q by linarith+
  ultimately have lim: "\<bar>?p + ?q\<bar> \<le> max_position_per_symbol (get_limits tid e)"
    "\<bar>?n + ?q\<bar> \<le> max_net_position (get_limits tid e)"
    using in64 by (simp_all add: position_ok_def projected_signed abs64_def s i64_id)
  have "\<bar>?p + ?k\<bar> \<le> i64_max" "\<bar>?n + ?k\<bar> \<le> i64_max" using range q part by linarith+
  then have "i64 (?p + ?k) = ?p + ?k" "i64 (?n + ?k) = ?n + ?k" using in64 i64_id by simp_all
  moreover have "\<bar>?p + ?k\<bar> \<le> max_position_per_symbol (get_limits tid e)"
    "\<bar>?n + ?k\<bar> \<le> max_net_position (get_limits tid e)"
    using lim within part q by linarith+
  ultimately show ?thesis by (simp add: Let_def)
qed

theorem admitted_fill_within_limits_witness:
  "\<bar>get_position 7 default_symbol (on_fill 7 default_symbol Buy 600 100
      (snd (check_order (demo_check 10 900) demo_engine)))\<bar> \<le> (1000 :: int)"
proof -
  have lim: "get_limits 7 demo_engine = demo_limits" "max_position_per_symbol demo_limits = 1000"
    "max_net_position demo_limits = 5000" by (simp_all add: risk_demo_simps)
  have pos: "get_position 7 default_symbol demo_engine = 0" "net_position (state_of 7 demo_engine) = 0"
    by code_simp+
  have o: "ord_trader_id (demo_check 10 900) = 7" "ord_symbol (demo_check 10 900) = default_symbol"
    "ord_side (demo_check 10 900) = Buy" "ord_quantity (demo_check 10 900) = 900"
    by (simp_all add: demo_check_def default_order_def)
  have "fst (check_order (demo_check 10 900) demo_engine) = NoReject" by code_simp
  from admitted_fill_within_limits [OF this, of 7 default_symbol 600 100] show ?thesis
    by (simp add: lim pos o i64_max_def Let_def)
qed

text \<open>The hole in the position limit.  With a short position \<open>p\<close> and the same net position, a
  sell of \<open>p + 2^63\<close> units projects to the least 64-bit value, whose \<^verbatim>\<open>std::abs\<close> overflows:
  in two's complement it stays negative, and the order is admitted under any non-negative
  limits.\<close>

theorem position_limit_overflows:
  assumes "\<not> is_killed (ord_trader_id order) e"
    and "ord_type order = Market \<or> 0 < ord_price order"
    and "rate_ok (ord_trader_id order) (ord_submit_time order) e"
    and "ord_side order = Sell" "ord_quantity order = p - i64_min"
    and "get_position (ord_trader_id order) (ord_symbol order) e = p"
      "net_position (state_of (ord_trader_id order) e) = p" "i64_min < p" "p < 0"
    and "0 \<le> max_position_per_symbol (get_limits (ord_trader_id order) e)"
      "0 \<le> max_net_position (get_limits (ord_trader_id order) e)"
  shows "fst (check_order order e) = NoReject"
proof -
  have "abs64 (i64 i64_min) = i64_min"
    by (simp add: abs64_def i64_def i64_min_def)
  with assms have "position_ok (ord_trader_id order) order e"
    by (simp add: position_ok_def projected_def i64_min_def)
  with assms show ?thesis
    by (auto simp: check_order_verdict verdict_def)
qed

theorem position_limit_overflows_witness:
  "fst (check_order ((demo_check 10 i64_max)\<lparr>ord_side := Sell\<rparr>)
     (on_fill 7 default_symbol Sell 1 100 demo_engine)) = NoReject"
  by (rule position_limit_overflows [where p = "- 1"])
    (simp_all add: risk_demo_simps is_killed_state rate_ok_def get_position_state state_of_def
      get_state_def new_risk_state_def on_fill_def put_state_def i64_max_def i64_min_def i64_def)

end
