(* ===== verification/Clock.thy ===== *)
theory Clock
  imports HFT_Prelude
begin

text \<open>
  The clock of \<^verbatim>\<open>src/src/common/clock.h\<close> and \<^verbatim>\<open>clock.cpp\<close>.  A simulated clock returns what it
  was set or advanced to; a wall clock returns the reading of \<^verbatim>\<open>std::chrono::steady_clock\<close>,
  whose signed count of nanoseconds is the argument \<open>steady\<close>.  Each operation is one atomic access, so a sequence of calls
  from any threads is a sequence of these steps.
\<close>

datatype ClockMode = WallClock | Simulated

record Clock =
  clk_mode :: ClockMode
  simulated_time :: Timestamp

definition new_clock :: "ClockMode \<Rightarrow> Clock" where
  "new_clock mode = \<lparr>clk_mode = mode, simulated_time = 0\<rparr>"

text \<open>The cast to an unsigned timestamp.\<close>

definition wall_clock_now :: "int \<Rightarrow> Timestamp" where
  "wall_clock_now steady = word_of_int steady"

definition clk_now :: "int \<Rightarrow> Clock \<Rightarrow> Timestamp" where
  "clk_now steady c = (if clk_mode c = Simulated then simulated_time c else wall_clock_now steady)"

definition clk_advance :: "u64 \<Rightarrow> Clock \<Rightarrow> Clock" where
  "clk_advance delta_ns c =
     (if clk_mode c = Simulated then c\<lparr>simulated_time := simulated_time c + delta_ns\<rparr> else c)"

definition clk_set_time :: "Timestamp \<Rightarrow> Clock \<Rightarrow> Clock" where
  "clk_set_time ts c = (if clk_mode c = Simulated then c\<lparr>simulated_time := ts\<rparr> else c)"

definition clk_reset :: "Clock \<Rightarrow> Clock" where
  "clk_reset c = (if clk_mode c = Simulated then c\<lparr>simulated_time := 0\<rparr> else c)"

datatype ClockOp = Advance u64 | SetTime Timestamp | Reset

fun clock_step :: "ClockOp \<Rightarrow> Clock \<Rightarrow> Clock" where
  "clock_step (Advance d) c = clk_advance d c"
| "clock_step (SetTime ts) c = clk_set_time ts c"
| "clock_step Reset c = clk_reset c"

lemma clock_mode_step [simp]: "clk_mode (clock_step op c) = clk_mode c"
  by (cases op) (simp_all add: clk_advance_def clk_set_time_def clk_reset_def)

text \<open>The advances since the last absolute setting, with the value it set.\<close>

fun replay_time :: "ClockOp list \<Rightarrow> Timestamp \<Rightarrow> Timestamp" where
  "replay_time [] t = t"
| "replay_time (Advance d # ops) t = replay_time ops (t + d)"
| "replay_time (SetTime ts # ops) t = replay_time ops ts"
| "replay_time (Reset # ops) t = replay_time ops 0"

lemma clock_replay:
  "clk_now steady (fold clock_step ops c) =
     (if clk_mode c = Simulated then replay_time ops (simulated_time c) else wall_clock_now steady)"
proof (induction ops arbitrary: c)
  case (Cons op ops)
  from Cons [of "clock_step op c"] show ?case
    by (cases op) (simp_all add: clk_advance_def clk_set_time_def clk_reset_def)
qed (simp add: clk_now_def)

text \<open>The steady clock does not run backwards, and neither do the timestamps of a wall clock.\<close>

lemma wall_clock_mono:
  assumes "0 \<le> t" and "t \<le> t'" and "t' \<le> i64_max" and "clk_mode c = WallClock"
  shows "clk_now t c \<le> clk_now t' c"
  using assms by (simp add: clk_now_def wall_clock_now_def word_le_def uint_word_of_int i64_max_def take_bit_int_eq_self)

end
