(* ===== verification/Matching_Engine.thy ===== *)
theory Matching_Engine
  imports L3_Service Market_Views Risk_Properties Clock
begin

text \<open>
  The multi-symbol engine of \<^verbatim>\<open>src/src/market/matching_engine.h\<close> and \<^verbatim>\<open>.cpp\<close>: symbols with
  their book, L2 aggregator and L1 feed, the routing index, the optional risk engine, the
  installed callbacks and the counters.

  Callback invocations are appended to \<open>me_log\<close>.  While a command runs, the book records its
  own callback invocations; \<open>settle\<close> then replays them through the engine's lambdas, in order,
  and empties the record.  The lambdas only touch the L1 feed, the trade counter and the
  external callbacks, and the book touches none of these, so replaying them after the call is
  the interleaving of the source.  The readings of \<^verbatim>\<open>clock_.now()\<close> are arguments: \<open>ts\<close> at the
  start of a command, \<open>ts'\<close> in \<open>publish_market_data\<close>.  A command that cancels returns \<open>None\<close>
  where the book would read through a dangling iterator.
\<close>

section \<open>State\<close>

record SymbolState =
  st_book :: L3OrderBook
  st_l2 :: nat
  st_l1 :: L1Feed

datatype EngineOutput =
  ExecutionOut ExecutionReport | TradeOut Trade | L1Out TopOfBook | L2Out DepthSnapshot

record MatchingEngine =
  me_symbols :: "Symbol \<Rightarrow> SymbolState option"
  order_symbol_index :: "OrderId \<Rightarrow> Symbol option"
  risk_engine :: "RiskEngine option"
  exec_cb :: bool
  me_trade_cb :: bool
  l1_cb :: bool
  l2_cb :: bool
  orders_processed :: u64
  trades_generated :: u64
  cancels_processed :: u64
  rejects :: u64
  me_log :: "EngineOutput list"

definition new_engine :: MatchingEngine where
  "new_engine = \<lparr>me_symbols = (\<lambda>_. None), order_symbol_index = (\<lambda>_. None), risk_engine = None,
     exec_cb = False, me_trade_cb = False, l1_cb = False, l2_cb = False, orders_processed = 0,
     trades_generated = 0, cancels_processed = 0, rejects = 0, me_log = []\<rparr>"

definition me_on_execution :: "MatchingEngine \<Rightarrow> MatchingEngine" where
  "me_on_execution e = e\<lparr>exec_cb := True\<rparr>"

definition me_on_trade :: "MatchingEngine \<Rightarrow> MatchingEngine" where
  "me_on_trade e = e\<lparr>me_trade_cb := True\<rparr>"

definition me_on_l1_update :: "MatchingEngine \<Rightarrow> MatchingEngine" where
  "me_on_l1_update e = e\<lparr>l1_cb := True\<rparr>"

definition me_on_l2_update :: "MatchingEngine \<Rightarrow> MatchingEngine" where
  "me_on_l2_update e = e\<lparr>l2_cb := True\<rparr>"

definition set_risk_engine :: "RiskEngine option \<Rightarrow> MatchingEngine \<Rightarrow> MatchingEngine" where
  "set_risk_engine risk e = e\<lparr>risk_engine := risk\<rparr>"

section \<open>Symbols\<close>

definition has_symbol :: "Symbol \<Rightarrow> MatchingEngine \<Rightarrow> bool" where
  "has_symbol symbol e \<longleftrightarrow> me_symbols e symbol \<noteq> None"

definition symbols :: "MatchingEngine \<Rightarrow> Symbol set" where
  "symbols e = dom (me_symbols e)"

definition add_symbol :: "BookLevel \<Rightarrow> BookLevel \<Rightarrow> Symbol \<Rightarrow> MatchingEngine \<Rightarrow> MatchingEngine" where
  "add_symbol any_bid any_ask symbol e =
     (if me_symbols e symbol \<noteq> None then e
      else e\<lparr>me_symbols := (me_symbols e)(symbol \<mapsto>
        \<lparr>st_book = on_top_of_book (on_trade (new_book symbol)), st_l2 = new_l2 DEFAULT_L2_DEPTH,
         st_l1 = new_l1 any_bid any_ask\<rparr>)\<rparr>)"

definition add_symbol_id :: "BookLevel \<Rightarrow> BookLevel \<Rightarrow> string \<Rightarrow> MatchingEngine \<Rightarrow> MatchingEngine" where
  "add_symbol_id any_bid any_ask symbol e = add_symbol any_bid any_ask (symbol_of_cstr symbol) e"

section \<open>Callbacks and market data\<close>

definition emit :: "bool \<Rightarrow> EngineOutput \<Rightarrow> MatchingEngine \<Rightarrow> MatchingEngine" where
  "emit installed out e = (if installed then e\<lparr>me_log := me_log e @ [out]\<rparr> else e)"

text \<open>The two lambdas that \<open>add_symbol\<close> installs on a book.\<close>

fun book_callback :: "BookEvent \<Rightarrow> MatchingEngine \<Rightarrow> MatchingEngine" where
  "book_callback (TradeEvent trade) e =
     (let e = e\<lparr>trades_generated := trades_generated e + 1\<rparr>;
          e = (case me_symbols e (trd_symbol trade) of
                 None \<Rightarrow> e
               | Some st \<Rightarrow> e\<lparr>me_symbols := (me_symbols e)(trd_symbol trade \<mapsto>
                   st\<lparr>st_l1 := record_trade (trd_price trade) (trd_qty trade) (st_l1 st)\<rparr>)\<rparr>)
      in emit (me_trade_cb e) (TradeOut trade) e)"
| "book_callback (TobEvent tob) e = emit (l1_cb e) (L1Out tob) e"

definition settle :: "Symbol \<Rightarrow> SymbolState \<Rightarrow> L3OrderBook \<Rightarrow> MatchingEngine \<Rightarrow> MatchingEngine" where
  "settle symbol st book e =
     fold book_callback (bk_log book)
       (e\<lparr>me_symbols := (me_symbols e)(symbol \<mapsto> st\<lparr>st_book := book\<lparr>bk_log := []\<rparr>\<rparr>)\<rparr>)"

definition publish_market_data :: "Symbol \<Rightarrow> Timestamp \<Rightarrow> MatchingEngine \<Rightarrow> MatchingEngine" where
  "publish_market_data symbol ts e =
     (case me_symbols e symbol of
        None \<Rightarrow> e
      | Some st \<Rightarrow>
          (let e = e\<lparr>me_symbols := (me_symbols e)(symbol \<mapsto>
                 st\<lparr>st_l1 := snd (l1_update ts (st_book st) (st_l1 st))\<rparr>)\<rparr>
           in emit (l2_cb e) (L2Out (snapshot (st_l2 st) ts (st_book st))) e))"

definition get_top_of_book :: "Symbol \<Rightarrow> MatchingEngine \<Rightarrow> TopOfBook" where
  "get_top_of_book symbol e =
     (case me_symbols e symbol of None \<Rightarrow> default_tob | Some st \<Rightarrow> last_tob (st_l1 st))"

definition get_depth :: "Symbol \<Rightarrow> Timestamp \<Rightarrow> MatchingEngine \<Rightarrow> DepthSnapshot" where
  "get_depth symbol ts e =
     (case me_symbols e symbol of None \<Rightarrow> default_depth
      | Some st \<Rightarrow> snapshot (st_l2 st) ts (st_book st))"

definition get_book :: "Symbol \<Rightarrow> MatchingEngine \<Rightarrow> L3OrderBook option" where
  "get_book symbol e = map_option st_book (me_symbols e symbol)"

section \<open>Commands\<close>

definition order_rejection :: "Order \<Rightarrow> RejectReason \<Rightarrow> Timestamp \<Rightarrow> ExecutionReport" where
  "order_rejection order reason ts =
     default_report\<lparr>rpt_order_id := ord_id order, rpt_trader_id := ord_trader_id order,
       rpt_symbol := ord_symbol order, rpt_status := Rejected, rpt_reject_reason := reason,
       rpt_transact_time := ts\<rparr>"

definition reject_order ::
  "Order \<Rightarrow> RejectReason \<Rightarrow> Timestamp \<Rightarrow> MatchingEngine \<Rightarrow> ExecutionReport \<times> MatchingEngine" where
  "reject_order order reason ts e =
     (let rpt = order_rejection order reason ts; e = e\<lparr>rejects := rejects e + 1\<rparr>
      in (rpt, emit (exec_cb e) (ExecutionOut rpt) e))"

definition risk_check :: "Order \<Rightarrow> MatchingEngine \<Rightarrow> RejectReason \<times> MatchingEngine" where
  "risk_check order e =
     (case risk_engine e of
        None \<Rightarrow> (NoReject, e)
      | Some risk \<Rightarrow> (case check_order order risk of (r, risk') \<Rightarrow> (r, e\<lparr>risk_engine := Some risk'\<rparr>)))"

definition risk_fill :: "Order \<Rightarrow> ExecutionReport \<Rightarrow> MatchingEngine \<Rightarrow> MatchingEngine" where
  "risk_fill order rpt e =
     (case risk_engine e of
        None \<Rightarrow> e
      | Some risk \<Rightarrow>
          if rpt_filled_qty rpt > 0
          then e\<lparr>risk_engine := Some (on_fill (ord_trader_id order) (ord_symbol order) (ord_side order)
                 (rpt_filled_qty rpt) (rpt_last_price rpt) risk)\<rparr>
          else e)"

definition process_new_order ::
  "Order \<Rightarrow> Timestamp \<Rightarrow> Timestamp \<Rightarrow> MatchingEngine \<Rightarrow> ExecutionReport \<times> MatchingEngine" where
  "process_new_order order ts ts' e0 =
     (let e = e0\<lparr>orders_processed := orders_processed e0 + 1\<rparr>
      in case me_symbols e (ord_symbol order) of
        None \<Rightarrow> reject_order order UnknownSymbol ts e
      | Some st \<Rightarrow>
          (let (reject, e) = risk_check order e
           in if reject \<noteq> NoReject then reject_order order reject ts e
           else
             (let (rpt, book) = add_order order ts (st_book st);
                  e = settle (ord_symbol order) st book e;
                  e = (if rpt_status rpt \<noteq> Rejected \<and> rpt_status rpt \<noteq> Filled
                       then e\<lparr>order_symbol_index := (order_symbol_index e)(ord_id order \<mapsto> ord_symbol order)\<rparr>
                       else e);
                  e = risk_fill order rpt e;
                  e = emit (exec_cb e) (ExecutionOut rpt) e
              in (rpt, publish_market_data (ord_symbol order) ts' e))))"

definition cancel_on ::
  "CancelRequest \<Rightarrow> Symbol \<Rightarrow> Timestamp \<Rightarrow> Timestamp \<Rightarrow> MatchingEngine \<Rightarrow>
     (ExecutionReport \<times> MatchingEngine) option" where
  "cancel_on cancel symbol ts ts' e =
     (case me_symbols e symbol of
        None \<Rightarrow> Some (default_report\<lparr>rpt_order_id := cxl_order_id cancel, rpt_status := Rejected,
                  rpt_reject_reason := UnknownSymbol, rpt_transact_time := ts\<rparr>, e)
      | Some st \<Rightarrow>
          (case cancel_order (cxl_order_id cancel) ts (st_book st) of
             None \<Rightarrow> None
           | Some (rpt, book) \<Rightarrow>
               (let e = settle symbol st book e;
                    e = (if rpt_status rpt = Canceled
                         then e\<lparr>cancels_processed := cancels_processed e + 1,
                                order_symbol_index := (order_symbol_index e)(cxl_order_id cancel := None)\<rparr>
                         else e);
                    e = emit (exec_cb e) (ExecutionOut rpt) e
                in Some (rpt, publish_market_data symbol ts' e))))"

definition process_cancel ::
  "CancelRequest \<Rightarrow> Timestamp \<Rightarrow> Timestamp \<Rightarrow> MatchingEngine \<Rightarrow>
     (ExecutionReport \<times> MatchingEngine) option" where
  "process_cancel cancel ts ts' e =
     (if cxl_symbol cancel = default_symbol
      then (case order_symbol_index e (cxl_order_id cancel) of
              None \<Rightarrow> Some (default_report\<lparr>rpt_order_id := cxl_order_id cancel, rpt_status := Rejected,
                        rpt_transact_time := ts\<rparr>, e)
            | Some symbol \<Rightarrow> cancel_on cancel symbol ts ts' e)
      else cancel_on cancel (cxl_symbol cancel) ts ts' e)"

definition process_replace ::
  "ReplaceRequest \<Rightarrow> Timestamp \<Rightarrow> Timestamp \<Rightarrow> MatchingEngine \<Rightarrow>
     (ExecutionReport \<times> MatchingEngine) option" where
  "process_replace replace ts ts' e =
     (case me_symbols e (rep_symbol replace) of
        None \<Rightarrow> Some (default_report\<lparr>rpt_order_id := rep_order_id replace, rpt_status := Rejected,
                  rpt_reject_reason := UnknownSymbol, rpt_transact_time := ts\<rparr>, e)
      | Some st \<Rightarrow>
          (case replace_order replace ts (st_book st) of
             None \<Rightarrow> None
           | Some (rpt, book) \<Rightarrow>
               (let e = settle (rep_symbol replace) st book e;
                    e = emit (exec_cb e) (ExecutionOut rpt) e
                in Some (rpt, publish_market_data (rep_symbol replace) ts' e))))"

end
