(* ===== verification/Engine_Properties.thy ===== *)
theory Engine_Properties
  imports Matching_Engine
begin

text \<open>
  The matching engine's invariant over every sequence of its commands, and what each command
  promises: which book it may change, what it publishes and in which order, how it counts
  trades and positions, how cancels are routed, and what the risk engine does not see.
\<close>

section \<open>Frames\<close>

lemma emit_frame [simp]:
  "me_symbols (emit c out e) = me_symbols e" "order_symbol_index (emit c out e) = order_symbol_index e"
  "risk_engine (emit c out e) = risk_engine e" "trades_generated (emit c out e) = trades_generated e"
  "exec_cb (emit c out e) = exec_cb e" "me_trade_cb (emit c out e) = me_trade_cb e"
  "l1_cb (emit c out e) = l1_cb e" "l2_cb (emit c out e) = l2_cb e"
  "get_book s (emit c out e) = get_book s e"
  by (simp_all add: emit_def get_book_def)

lemma emit_log: "me_log (emit c out e) = me_log e @ (if c then [out] else [])"
  by (simp add: emit_def)

lemma get_book_update [simp]:
  "get_book s (e\<lparr>trades_generated := n\<rparr>) = get_book s e"
  "get_book s (e\<lparr>order_symbol_index := i\<rparr>) = get_book s e"
  "get_book s (e\<lparr>orders_processed := n\<rparr>) = get_book s e"
  "get_book s (e\<lparr>cancels_processed := n\<rparr>) = get_book s e"
  "get_book s (e\<lparr>rejects := n\<rparr>) = get_book s e"
  "get_book s (e\<lparr>risk_engine := r\<rparr>) = get_book s e"
  by (simp_all add: get_book_def)

text \<open>A callback changes neither the books nor the routing nor the risk engine.\<close>

fun is_trade :: "BookEvent \<Rightarrow> bool" where
  "is_trade (TradeEvent t) = True"
| "is_trade (TobEvent t) = False"

fun output_of :: "MatchingEngine \<Rightarrow> BookEvent \<Rightarrow> EngineOutput list" where
  "output_of e (TradeEvent t) = (if me_trade_cb e then [TradeOut t] else [])"
| "output_of e (TobEvent t) = (if l1_cb e then [L1Out t] else [])"

lemma book_callback_frame [simp]:
  "get_book s (book_callback ev e) = get_book s e"
  "order_symbol_index (book_callback ev e) = order_symbol_index e"
  "risk_engine (book_callback ev e) = risk_engine e"
  "exec_cb (book_callback ev e) = exec_cb e" "me_trade_cb (book_callback ev e) = me_trade_cb e"
  "l1_cb (book_callback ev e) = l1_cb e" "l2_cb (book_callback ev e) = l2_cb e"
  "trades_generated (book_callback ev e) = trades_generated e + (if is_trade ev then 1 else 0)"
  "me_log (book_callback ev e) = me_log e @ output_of e ev"
  "map_option st_l2 (me_symbols (book_callback ev e) s) = map_option st_l2 (me_symbols e s)"
  by (cases ev; simp add: get_book_def emit_log Let_def split: option.split)+

lemma fold_callback_frame [simp]:
  "get_book s (fold book_callback evs e) = get_book s e"
  "order_symbol_index (fold book_callback evs e) = order_symbol_index e"
  "risk_engine (fold book_callback evs e) = risk_engine e"
  "exec_cb (fold book_callback evs e) = exec_cb e" "me_trade_cb (fold book_callback evs e) = me_trade_cb e"
  "l1_cb (fold book_callback evs e) = l1_cb e" "l2_cb (fold book_callback evs e) = l2_cb e"
  "map_option st_l2 (me_symbols (fold book_callback evs e) s) = map_option st_l2 (me_symbols e s)"
  by (induction evs arbitrary: e) simp_all

lemma fold_callback_trades:
  "trades_generated (fold book_callback evs e) =
     trades_generated e + word_of_nat (length (filter is_trade evs))"
  by (induction evs arbitrary: e) (auto simp: add.assoc)

lemma output_of_callback [simp]: "output_of (book_callback ev e) = output_of e"
proof
  fix x show "output_of (book_callback ev e) x = output_of e x" by (cases x) simp_all
qed

lemma fold_callback_log:
  "me_log (fold book_callback evs e) = me_log e @ concat (map (output_of e) evs)"
  by (induction evs arbitrary: e) simp_all

lemma settle_frame [simp]:
  "get_book s (settle symbol st book e) =
     (if s = symbol then Some (book\<lparr>bk_log := []\<rparr>) else get_book s e)"
  "order_symbol_index (settle symbol st book e) = order_symbol_index e"
  "risk_engine (settle symbol st book e) = risk_engine e"
  "exec_cb (settle symbol st book e) = exec_cb e" "me_trade_cb (settle symbol st book e) = me_trade_cb e"
  "l1_cb (settle symbol st book e) = l1_cb e" "l2_cb (settle symbol st book e) = l2_cb e"
  by (simp_all add: settle_def) (simp add: get_book_def)

lemma settle_trades:
  "trades_generated (settle symbol st book e) =
     trades_generated e + word_of_nat (length (filter is_trade (bk_log book)))"
  by (simp add: settle_def fold_callback_trades)

lemma settle_log:
  "me_log (settle symbol st book e) = me_log e @ concat (map (output_of e) (bk_log book))"
proof -
  have "output_of (e\<lparr>me_symbols := m\<rparr>) = output_of e" for m
  proof
    fix x show "output_of (e\<lparr>me_symbols := m\<rparr>) x = output_of e x" by (cases x) simp_all
  qed
  then show ?thesis by (simp add: settle_def fold_callback_log)
qed

lemma publish_frame [simp]:
  "get_book s (publish_market_data symbol ts e) = get_book s e"
  "order_symbol_index (publish_market_data symbol ts e) = order_symbol_index e"
  "risk_engine (publish_market_data symbol ts e) = risk_engine e"
  "trades_generated (publish_market_data symbol ts e) = trades_generated e"
  by (simp_all add: publish_market_data_def Let_def split: option.split) (simp add: get_book_def)

lemma risk_frame [simp]:
  "get_book s (risk_fill order rpt e) = get_book s e"
  "order_symbol_index (risk_fill order rpt e) = order_symbol_index e"
  "trades_generated (risk_fill order rpt e) = trades_generated e"
  "me_log (risk_fill order rpt e) = me_log e" "me_symbols (risk_fill order rpt e) = me_symbols e"
  "exec_cb (risk_fill order rpt e) = exec_cb e" "l2_cb (risk_fill order rpt e) = l2_cb e"
  "get_book s (snd (risk_check order e)) = get_book s e"
  "order_symbol_index (snd (risk_check order e)) = order_symbol_index e"
  "trades_generated (snd (risk_check order e)) = trades_generated e"
  "me_log (snd (risk_check order e)) = me_log e" "me_symbols (snd (risk_check order e)) = me_symbols e"
  "exec_cb (snd (risk_check order e)) = exec_cb e" "me_trade_cb (snd (risk_check order e)) = me_trade_cb e"
  "l1_cb (snd (risk_check order e)) = l1_cb e" "l2_cb (snd (risk_check order e)) = l2_cb e"
  by (simp_all add: risk_fill_def risk_check_def case_prod_unfold split: option.split)

lemma reject_frame [simp]:
  "get_book s (snd (reject_order order reason ts e)) = get_book s e"
  "order_symbol_index (snd (reject_order order reason ts e)) = order_symbol_index e"
  "risk_engine (snd (reject_order order reason ts e)) = risk_engine e"
  "trades_generated (snd (reject_order order reason ts e)) = trades_generated e"
  "fst (reject_order order reason ts e) = order_rejection order reason ts"
  by (simp_all add: reject_order_def Let_def)

section \<open>The gate in front of the book\<close>

lemma risk_check_verdict:
  "fst (risk_check order e) = (case risk_engine e of None \<Rightarrow> NoReject | Some risk \<Rightarrow> verdict order risk)"
  by (simp add: risk_check_def case_prod_unfold check_order_verdict split: option.split)

definition gate :: "Order \<Rightarrow> MatchingEngine \<Rightarrow> RejectReason" where
  "gate order e =
     (if get_book (ord_symbol order) e = None then UnknownSymbol
      else case risk_engine e of None \<Rightarrow> NoReject | Some risk \<Rightarrow> verdict order risk)"

lemma risk_check_orders [simp]:
  "fst (risk_check order (e\<lparr>orders_processed := n\<rparr>)) = fst (risk_check order e)"
  by (simp add: risk_check_def case_prod_unfold split: option.split)

lemma get_book_None: "get_book s e = None \<longleftrightarrow> me_symbols e s = None"
  by (simp add: get_book_def)

lemma gate_shut:
  assumes "gate order e \<noteq> NoReject"
  shows "fst (process_new_order order ts ts' e) = order_rejection order (gate order e) ts"
    and "get_book s (snd (process_new_order order ts ts' e)) = get_book s e"
    and "order_symbol_index (snd (process_new_order order ts ts' e)) = order_symbol_index e"
    and "trades_generated (snd (process_new_order order ts ts' e)) = trades_generated e"
proof -
  let ?e = "e\<lparr>orders_processed := orders_processed e + 1\<rparr>"
  have "\<exists>e1. process_new_order order ts ts' e = reject_order order (gate order e) ts e1 \<and>
      (\<forall>s. get_book s e1 = get_book s e) \<and> order_symbol_index e1 = order_symbol_index e \<and>
      trades_generated e1 = trades_generated e"
  proof (cases "me_symbols e (ord_symbol order)")
    case None
    then show ?thesis
      by (intro exI [of _ ?e]) (simp add: process_new_order_def gate_def get_book_None Let_def)
  next
    case (Some st)
    then have "gate order e = fst (risk_check order e)"
      by (simp add: gate_def risk_check_verdict get_book_None)
    with assms Some show ?thesis
      by (intro exI [of _ "snd (risk_check order ?e)"])
        (simp add: process_new_order_def case_prod_unfold Let_def)
  qed
  then obtain e1 where e1: "process_new_order order ts ts' e = reject_order order (gate order e) ts e1"
    "\<And>s. get_book s e1 = get_book s e" "order_symbol_index e1 = order_symbol_index e"
    "trades_generated e1 = trades_generated e" by blast
  show "fst (process_new_order order ts ts' e) = order_rejection order (gate order e) ts"
    and "get_book s (snd (process_new_order order ts ts' e)) = get_book s e"
    and "order_symbol_index (snd (process_new_order order ts ts' e)) = order_symbol_index e"
    and "trades_generated (snd (process_new_order order ts ts' e)) = trades_generated e"
    by (simp_all add: e1)
qed

text \<open>The engine after an order passed the gate, step by step.\<close>

definition booked :: "Order \<Rightarrow> Timestamp \<Rightarrow> SymbolState \<Rightarrow> MatchingEngine \<Rightarrow> MatchingEngine" where
  "booked order ts st e =
     settle (ord_symbol order) st (snd (add_order order ts (st_book st)))
       (snd (risk_check order (e\<lparr>orders_processed := orders_processed e + 1\<rparr>)))"

lemma gate_open:
  assumes "gate order e = NoReject"
  obtains st where "me_symbols e (ord_symbol order) = Some st"
    "get_book (ord_symbol order) e = Some (st_book st)"
    "fst (process_new_order order ts ts' e) = fst (add_order order ts (st_book st))"
    "snd (process_new_order order ts ts' e) =
      (let rpt = fst (add_order order ts (st_book st)); e1 = booked order ts st e;
           e2 = (if rpt_status rpt \<noteq> Rejected \<and> rpt_status rpt \<noteq> Filled
                 then e1\<lparr>order_symbol_index := (order_symbol_index e1)(ord_id order \<mapsto> ord_symbol order)\<rparr>
                 else e1);
           e3 = risk_fill order rpt e2
       in publish_market_data (ord_symbol order) ts' (emit (exec_cb e3) (ExecutionOut rpt) e3))"
proof -
  from assms obtain st where st: "me_symbols e (ord_symbol order) = Some st"
    by (auto simp: gate_def get_book_def split: if_splits option.splits)
  have "fst (risk_check order e) = NoReject"
    using assms by (simp add: gate_def risk_check_verdict get_book_def split: if_splits)
  with st show thesis
    by (intro that [of st])
      (simp_all add: process_new_order_def booked_def case_prod_unfold Let_def get_book_def)
qed

lemma gate_open_book:
  assumes "gate order e = NoReject" and "get_book (ord_symbol order) e = Some b"
  shows "fst (process_new_order order ts ts' e) = fst (add_order order ts b)"
    and "get_book s (snd (process_new_order order ts ts' e)) =
      (if s = ord_symbol order then Some ((snd (add_order order ts b))\<lparr>bk_log := []\<rparr>) else get_book s e)"
    and "order_symbol_index (snd (process_new_order order ts ts' e)) =
      (let rpt = fst (add_order order ts b) in
       if rpt_status rpt \<noteq> Rejected \<and> rpt_status rpt \<noteq> Filled
       then (order_symbol_index e)(ord_id order \<mapsto> ord_symbol order) else order_symbol_index e)"
    and "trades_generated (snd (process_new_order order ts ts' e)) =
      trades_generated e + word_of_nat (length (filter is_trade (bk_log (snd (add_order order ts b)))))"
proof -
  from gate_open [OF assms(1), of ts ts'] assms(2) obtain st where st: "st_book st = b"
    and new: "fst (process_new_order order ts ts' e) = fst (add_order order ts b)"
      "snd (process_new_order order ts ts' e) =
      (let rpt = fst (add_order order ts b); e1 = booked order ts st e;
           e2 = (if rpt_status rpt \<noteq> Rejected \<and> rpt_status rpt \<noteq> Filled
                 then e1\<lparr>order_symbol_index := (order_symbol_index e1)(ord_id order \<mapsto> ord_symbol order)\<rparr>
                 else e1);
           e3 = risk_fill order rpt e2
       in publish_market_data (ord_symbol order) ts' (emit (exec_cb e3) (ExecutionOut rpt) e3))"
    by auto
  show "fst (process_new_order order ts ts' e) = fst (add_order order ts b)" by (rule new)
  show "get_book s (snd (process_new_order order ts ts' e)) =
      (if s = ord_symbol order then Some ((snd (add_order order ts b))\<lparr>bk_log := []\<rparr>) else get_book s e)"
    by (simp add: new(2) booked_def st Let_def)
  show "order_symbol_index (snd (process_new_order order ts ts' e)) =
      (let rpt = fst (add_order order ts b) in
       if rpt_status rpt \<noteq> Rejected \<and> rpt_status rpt \<noteq> Filled
       then (order_symbol_index e)(ord_id order \<mapsto> ord_symbol order) else order_symbol_index e)"
    by (simp add: new(2) booked_def st Let_def)
  show "trades_generated (snd (process_new_order order ts ts' e)) =
      trades_generated e + word_of_nat (length (filter is_trade (bk_log (snd (add_order order ts b)))))"
    by (simp add: new(2) booked_def st Let_def settle_trades)
qed

section \<open>The invariant\<close>

definition book_ok :: "Symbol \<Rightarrow> L3OrderBook \<Rightarrow> bool" where
  "book_ok s b \<longleftrightarrow> book_inv b \<and> bk_symbol b = s \<and> trade_cb b \<and> tob_cb b \<and> bk_log b = []"

definition known :: "MatchingEngine \<Rightarrow> Symbol set" where
  "known e = {s. get_book s e \<noteq> None}"

definition trades_in_books :: "MatchingEngine \<Rightarrow> u64" where
  "trades_in_books e = (\<Sum>s \<in> known e. trade_count (the (get_book s e)))"

definition engine_inv :: "MatchingEngine \<Rightarrow> bool" where
  "engine_inv e \<longleftrightarrow> finite (known e) \<and> (\<forall>s b. get_book s e = Some b \<longrightarrow> book_ok s b) \<and>
     trades_generated e = trades_in_books e"

lemma engine_inv_cong:
  assumes "\<And>s. get_book s e' = get_book s e" "trades_generated e' = trades_generated e"
  shows "engine_inv e' = engine_inv e"
  using assms by (simp add: engine_inv_def known_def trades_in_books_def)

lemma book_ok_settled:
  "book_inv b \<Longrightarrow> bk_symbol b = s \<Longrightarrow> trade_cb b \<Longrightarrow> tob_cb b \<Longrightarrow> book_ok s (b\<lparr>bk_log := []\<rparr>)"
  unfolding book_ok_def by (subst book_inv_cong [of _ b]) simp_all

text \<open>Replacing one book by what a command made of it keeps the invariant, if the engine counted
  the trades the book did.\<close>

lemma engine_inv_command:
  assumes inv: "engine_inv e" and b: "get_book sy e = Some b"
    and b': "book_inv b'" "bk_symbol b' = sy" "trade_cb b'" "tob_cb b'"
    and count: "trade_count b' = trade_count b + word_of_nat n"
    and e': "\<And>s. get_book s e' = (if s = sy then Some (b'\<lparr>bk_log := []\<rparr>) else get_book s e)"
      "trades_generated e' = trades_generated e + word_of_nat n"
  shows "engine_inv e'"
proof -
  have known: "known e' = known e" using b by (auto simp: known_def e'(1))
  have fin: "finite (known e)" and sy: "sy \<in> known e"
    using inv b by (auto simp: engine_inv_def known_def)
  have "trades_in_books e' = trade_count b' + (\<Sum>s \<in> known e - {sy}. trade_count (the (get_book s e)))"
    unfolding trades_in_books_def known
    by (subst sum.remove [OF fin sy]) (simp add: e'(1))
  moreover have "trades_in_books e = trade_count b + (\<Sum>s \<in> known e - {sy}. trade_count (the (get_book s e)))"
    unfolding trades_in_books_def by (subst sum.remove [OF fin sy]) (simp add: b)
  ultimately have "trades_in_books e' = trades_in_books e + word_of_nat n" by (simp add: count)
  then have "trades_generated e' = trades_in_books e'"
    using inv by (simp add: e'(2) engine_inv_def)
  then show ?thesis
    using inv book_ok_settled [OF b'] by (auto simp: engine_inv_def known e'(1))
qed

lemma trade_events [simp]: "length (filter is_trade (map TradeEvent ts)) = length ts"
  by (induction ts) simp_all

lemma engine_inv_new_order:
  assumes inv: "engine_inv e" and q: "in_i64 (ord_quantity order)"
  shows "engine_inv (snd (process_new_order order ts ts' e))"
proof (cases "gate order e = NoReject")
  case False
  show ?thesis
    by (subst engine_inv_cong [of _ e]) (use inv gate_shut [OF False] in simp_all)
next
  case True
  then obtain b where b: "get_book (ord_symbol order) e = Some b"
    by (auto simp: gate_def split: if_splits)
  with inv have ok: "book_inv b" "bk_symbol b = ord_symbol order" "trade_cb b" "tob_cb b" "bk_log b = []"
    by (auto simp: engine_inv_def book_ok_def)
  note log = add_order_log [OF ok(1) q, of ts]
  show ?thesis
    by (rule engine_inv_command [OF inv b, where b' = "snd (add_order order ts b)"
          and n = "length (trades_of order ts b)"])
      (use ok log gate_open_book [OF True b] in \<open>simp_all add: add_order_inv q\<close>)
qed

section \<open>Cancels and replaces\<close>

lemma cancel_on_book:
  assumes inv: "engine_inv e" and b: "get_book sy e = Some b"
    and c: "cancel_order (cxl_order_id cancel) ts b = Some (rpt, b')"
  shows "\<exists>e'. cancel_on cancel sy ts ts' e = Some (rpt, e') \<and>
    (\<forall>s. get_book s e' = (if s = sy then Some (b'\<lparr>bk_log := []\<rparr>) else get_book s e)) \<and>
    trades_generated e' = trades_generated e \<and> risk_engine e' = risk_engine e"
proof -
  from inv b have ok: "book_inv b" "bk_log b = []" by (auto simp: engine_inv_def book_ok_def)
  have "filter is_trade (bk_log b') = []"
    using cancel_order_log(1) [OF ok(1) c] ok(2) by simp
  moreover from b obtain st where "me_symbols e sy = Some st" "b = st_book st"
    by (auto simp: get_book_def)
  ultimately show ?thesis
    using c by (simp add: cancel_on_def Let_def settle_trades)
qed

lemma cancel_on_unknown:
  "get_book sy e = None \<Longrightarrow> \<exists>rpt. cancel_on cancel sy ts ts' e = Some (rpt, e) \<and> rpt_status rpt = Rejected"
  by (simp add: cancel_on_def get_book_def)

lemma engine_inv_cancel_on:
  assumes inv: "engine_inv e"
  shows "\<exists>rpt e'. cancel_on cancel sy ts ts' e = Some (rpt, e') \<and> engine_inv e' \<and>
    risk_engine e' = risk_engine e"
proof (cases "get_book sy e")
  case None
  with inv cancel_on_unknown [OF None] show ?thesis by blast
next
  case (Some b)
  with inv have ok: "book_inv b" "bk_symbol b = sy" "trade_cb b" "tob_cb b"
    by (auto simp: engine_inv_def book_ok_def)
  obtain rpt b' where c: "cancel_order (cxl_order_id cancel) ts b = Some (rpt, b')"
    using l3.cancel_total [OF ok(1)] by blast
  from cancel_on_book [OF inv Some c, of ts'] obtain e' where
    e': "cancel_on cancel sy ts ts' e = Some (rpt, e')"
    "\<And>s. get_book s e' = (if s = sy then Some (b'\<lparr>bk_log := []\<rparr>) else get_book s e)"
    "trades_generated e' = trades_generated e" "risk_engine e' = risk_engine e" by blast
  have "engine_inv e'"
    by (rule engine_inv_command [OF inv Some l3.cancel_keeps [OF ok(1) c], where n = 0])
      (use ok cancel_order_log [OF ok(1) c] e' in simp_all)
  with e' show ?thesis by blast
qed

lemma engine_inv_cancel:
  assumes "engine_inv e"
  shows "\<exists>rpt e'. process_cancel cancel ts ts' e = Some (rpt, e') \<and> engine_inv e' \<and>
    risk_engine e' = risk_engine e"
  using assms engine_inv_cancel_on [OF assms]
  by (auto simp: process_cancel_def split: option.split)

lemma replace_order_log:
  assumes inv: "book_inv b" and q: "in_i64 (rep_new_qty req)"
    and on: "trade_cb b" "tob_cb b" "bk_log b = []"
    and replace: "replace_order req ts b = Some (rpt, b')"
  shows "trade_count b' = trade_count b + word_of_nat (length (filter is_trade (bk_log b')))"
    and "trade_cb b'" "tob_cb b'" "bk_symbol b' = bk_symbol b"
proof -
  obtain crpt b1 where c: "cancel_order (rep_order_id req) ts b = Some (crpt, b1)"
    using l3.cancel_total [OF inv] by blast
  note log1 = cancel_order_log [OF inv c]
  have trades1: "filter is_trade (bk_log b1) = []" using log1(1) on by simp
  let ?o = "replacement req (rpt_side crpt) ts"
  have "in_i64 (ord_quantity ?o)" using q by (simp add: replacement_def)
  note log2 = add_order_log [OF l3.cancel_keeps [OF inv c] this, of ts]
  show "trade_count b' = trade_count b + word_of_nat (length (filter is_trade (bk_log b')))"
    and "trade_cb b'" "tob_cb b'" "bk_symbol b' = bk_symbol b"
    using replace log1 log2 trades1 on
    by (auto simp: replace_order_def c split: if_splits)
qed

lemma process_replace_book:
  assumes b: "get_book (rep_symbol req) e = Some b" and r: "replace_order req ts b = Some (rpt, b')"
  shows "\<exists>e'. process_replace req ts ts' e = Some (rpt, e') \<and>
    (\<forall>s. get_book s e' = (if s = rep_symbol req then Some (b'\<lparr>bk_log := []\<rparr>) else get_book s e)) \<and>
    trades_generated e' = trades_generated e + word_of_nat (length (filter is_trade (bk_log b'))) \<and>
    risk_engine e' = risk_engine e \<and> order_symbol_index e' = order_symbol_index e"
proof -
  from b obtain st where "me_symbols e (rep_symbol req) = Some st" "b = st_book st"
    by (auto simp: get_book_def)
  with r show ?thesis by (simp add: process_replace_def Let_def settle_trades)
qed

lemma engine_inv_replace:
  assumes inv: "engine_inv e" and q: "in_i64 (rep_new_qty req)"
  shows "\<exists>rpt e'. process_replace req ts ts' e = Some (rpt, e') \<and> engine_inv e'"
proof (cases "get_book (rep_symbol req) e")
  case None
  with inv show ?thesis by (simp add: process_replace_def get_book_def)
next
  case (Some b)
  with inv have ok: "book_inv b" "bk_symbol b = rep_symbol req" "trade_cb b" "tob_cb b" "bk_log b = []"
    by (auto simp: engine_inv_def book_ok_def)
  obtain rpt b' where r: "replace_order req ts b = Some (rpt, b')"
    using l3.replace_total [OF ok(1)] by blast
  note log = replace_order_log [OF ok(1) q ok(3-5) r]
  from process_replace_book [OF Some r, of ts'] obtain e' where
    e': "process_replace req ts ts' e = Some (rpt, e')"
    "\<And>s. get_book s e' = (if s = rep_symbol req then Some (b'\<lparr>bk_log := []\<rparr>) else get_book s e)"
    "trades_generated e' = trades_generated e + word_of_nat (length (filter is_trade (bk_log b')))"
    by blast
  have "engine_inv e'"
    by (rule engine_inv_command [OF inv Some l3.replace_keeps [OF ok(1) q r]])
      (use ok log e' in simp_all)
  with e' show ?thesis by blast
qed

section \<open>Reachable engines\<close>

definition tune :: "(MatchingEngine \<Rightarrow> MatchingEngine) \<Rightarrow> bool" where
  "tune f \<longleftrightarrow> f \<in> {me_on_execution, me_on_trade, me_on_l1_update, me_on_l2_update} \<or>
     (\<exists>risk. f = set_risk_engine risk)"

inductive engine_step :: "MatchingEngine \<Rightarrow> MatchingEngine \<Rightarrow> bool" where
  new_order: "in_i64 (ord_quantity order) \<Longrightarrow>
    engine_step e (snd (process_new_order order ts ts' e))"
| cancel: "process_cancel req ts ts' e = Some (rpt, e') \<Longrightarrow> engine_step e e'"
| replace: "in_i64 (rep_new_qty req) \<Longrightarrow> process_replace req ts ts' e = Some (rpt, e') \<Longrightarrow>
    engine_step e e'"
| symbol: "engine_step e (add_symbol any_bid any_ask s e)"
| tune: "tune f \<Longrightarrow> engine_step e (f e)"

inductive engine_reach :: "MatchingEngine \<Rightarrow> bool" where
  empty: "engine_reach new_engine"
| step: "engine_reach e \<Longrightarrow> engine_step e e' \<Longrightarrow> engine_reach e'"

lemma engine_inv_new: "engine_inv new_engine"
  by (simp add: engine_inv_def new_engine_def known_def trades_in_books_def get_book_def)

lemma engine_inv_symbol:
  assumes inv: "engine_inv e"
  shows "engine_inv (add_symbol any_bid any_ask s e)"
proof (cases "me_symbols e s")
  case None
  let ?b = "on_top_of_book (on_trade (new_book s))" and ?e = "add_symbol any_bid any_ask s e"
  have ok: "book_ok s ?b" "trade_count ?b = 0"
    by (simp_all add: book_ok_def book_inv_callbacks book_inv_new)
      (simp_all add: on_top_of_book_def on_trade_def new_book_def)
  have get: "get_book s' ?e = (if s' = s then Some ?b else get_book s' e)" for s'
    using None by (simp add: add_symbol_def get_book_def)
  have fresh: "s \<notin> known e" using None by (simp add: known_def get_book_def)
  have known: "known ?e = insert s (known e)" by (auto simp: known_def get)
  have "trades_in_books ?e = trades_in_books e"
    using inv fresh unfolding trades_in_books_def known
    by (subst sum.insert) (auto simp: engine_inv_def get ok(2) intro!: sum.cong)
  moreover have "trades_generated ?e = trades_generated e" by (simp add: add_symbol_def)
  ultimately show ?thesis using inv ok by (auto simp: engine_inv_def known get)
qed (simp add: add_symbol_def inv)

lemma engine_inv_tune: "tune f \<Longrightarrow> engine_inv (f e) = engine_inv e"
  by (rule engine_inv_cong)
    (auto simp: tune_def me_on_execution_def me_on_trade_def me_on_l1_update_def
      me_on_l2_update_def set_risk_engine_def get_book_def)

lemma engine_step_inv: "engine_step e e' \<Longrightarrow> engine_inv e \<Longrightarrow> engine_inv e'"
proof (induction rule: engine_step.induct)
  case (cancel req ts ts' e rpt e')
  with engine_inv_cancel [of e req ts ts'] show ?case by auto
next
  case (replace req ts ts' e rpt e')
  with engine_inv_replace [of e req ts ts'] show ?case by auto
qed (simp_all add: engine_inv_new_order engine_inv_symbol engine_inv_tune)

lemma engine_reach_inv: "engine_reach e \<Longrightarrow> engine_inv e"
  by (induction rule: engine_reach.induct) (auto simp: engine_inv_new dest: engine_step_inv)

section \<open>Market data\<close>

lemma depth_log [simp]:
  "bid_depth n (b\<lparr>bk_log := l\<rparr>) = bid_depth n b" "ask_depth n (b\<lparr>bk_log := l\<rparr>) = ask_depth n b"
  by (simp_all add: bid_depth_def ask_depth_def)

lemma publish_log:
  assumes "get_book s e = Some b"
  shows "me_log (publish_market_data s ts e) = me_log e @ (if l2_cb e then [L2Out (get_depth s ts e)] else [])"
    and "get_depth s ts (publish_market_data s ts e) = get_depth s ts e"
    and "get_top_of_book s (publish_market_data s ts e) = top_of_book ts b"
  using assms
  by (auto simp: publish_market_data_def Let_def emit_log get_depth_def get_book_def
      get_top_of_book_def l1_update_def)

lemma get_depth_frame [simp]:
  "get_depth s ts (emit c out e) = get_depth s ts e"
  "get_depth s ts (risk_fill order rpt e) = get_depth s ts e"
  "get_depth s ts (e\<lparr>order_symbol_index := i\<rparr>) = get_depth s ts e"
  by (simp_all add: get_depth_def)

lemma output_of_checked [simp]: "output_of (snd (risk_check order (e\<lparr>orders_processed := n\<rparr>))) = output_of e"
proof
  fix x show "output_of (snd (risk_check order (e\<lparr>orders_processed := n\<rparr>))) x = output_of e x"
    by (cases x) simp_all
qed

lemma gate_open_log:
  assumes open_gate: "gate order e = NoReject" and b: "get_book (ord_symbol order) e = Some b"
    and rpt: "rpt = fst (process_new_order order ts ts' e)" and e': "e' = snd (process_new_order order ts ts' e)"
  shows "me_log e' = me_log e @ concat (map (output_of e) (bk_log (snd (add_order order ts b)))) @
      (if exec_cb e then [ExecutionOut rpt] else []) @
      (if l2_cb e then [L2Out (get_depth (ord_symbol order) ts' e')] else [])"
    and "get_top_of_book (ord_symbol order) e' = top_of_book ts' (snd (add_order order ts b))"
    and "risk_engine e' = map_option (\<lambda>risk. if rpt_filled_qty rpt > 0
      then on_fill (ord_trader_id order) (ord_symbol order) (ord_side order) (rpt_filled_qty rpt)
        (rpt_last_price rpt) (snd (check_order order risk))
      else snd (check_order order risk)) (risk_engine e)"
proof -
  from gate_open [OF open_gate, of ts ts'] b obtain st where st: "st_book st = b"
    and new: "fst (process_new_order order ts ts' e) = fst (add_order order ts b)"
      "snd (process_new_order order ts ts' e) =
      (let rpt = fst (add_order order ts b); e1 = booked order ts st e;
           e2 = (if rpt_status rpt \<noteq> Rejected \<and> rpt_status rpt \<noteq> Filled
                 then e1\<lparr>order_symbol_index := (order_symbol_index e1)(ord_id order \<mapsto> ord_symbol order)\<rparr>
                 else e1);
           e3 = risk_fill order rpt e2
       in publish_market_data (ord_symbol order) ts' (emit (exec_cb e3) (ExecutionOut rpt) e3))"
    by auto
  define e2 where "e2 = (let e1 = booked order ts st e in
    if rpt_status rpt \<noteq> Rejected \<and> rpt_status rpt \<noteq> Filled
    then e1\<lparr>order_symbol_index := (order_symbol_index e1)(ord_id order \<mapsto> ord_symbol order)\<rparr> else e1)"
  define e4 where "e4 = emit (exec_cb e) (ExecutionOut rpt) (risk_fill order rpt e2)"
  have rpt': "fst (add_order order ts b) = rpt" by (simp add: rpt new(1))
  have cb: "exec_cb e2 = exec_cb e" "l2_cb e2 = l2_cb e"
    by (simp_all add: e2_def booked_def Let_def)
  have e4: "e' = publish_market_data (ord_symbol order) ts' e4"
    using cb by (simp add: e' new(2) e4_def e2_def Let_def rpt')
  have book: "get_book (ord_symbol order) e4 = Some ((snd (add_order order ts b))\<lparr>bk_log := []\<rparr>)"
    by (simp add: e4_def e2_def booked_def Let_def st)
  have log: "me_log e2 = me_log e @ concat (map (output_of e) (bk_log (snd (add_order order ts b))))"
    by (simp add: e2_def booked_def Let_def settle_log st)
  show "me_log e' = me_log e @ concat (map (output_of e) (bk_log (snd (add_order order ts b)))) @
      (if exec_cb e then [ExecutionOut rpt] else []) @
      (if l2_cb e then [L2Out (get_depth (ord_symbol order) ts' e')] else [])"
    using cb unfolding e4 publish_log(1,2) [OF book] by (simp add: e4_def emit_log log)
  show "get_top_of_book (ord_symbol order) e' = top_of_book ts' (snd (add_order order ts b))"
    unfolding e4 publish_log(3) [OF book] by (rule top_of_book_cong) simp_all
  have "risk_engine e2 = map_option (\<lambda>risk. snd (check_order order risk)) (risk_engine e)"
    by (simp add: e2_def booked_def Let_def risk_check_def case_prod_unfold split: option.split)
  then show "risk_engine e' = map_option (\<lambda>risk. if rpt_filled_qty rpt > 0
      then on_fill (ord_trader_id order) (ord_symbol order) (ord_side order) (rpt_filled_qty rpt)
        (rpt_last_price rpt) (snd (check_order order risk))
      else snd (check_order order risk)) (risk_engine e)"
    by (simp add: e4 e4_def risk_fill_def split: option.split)
qed

end
