(* ===== verification/Engine_Claims.thy ===== *)
theory Engine_Claims
  imports Engine_Properties
begin

text \<open>
  The properties of the matching engine, on its reachable states: memory safety, the gate of
  symbol and risk checks, what is published and in which order, trade counting, position
  keeping, routing of cancels by id, and the commands that do not pass the risk engine.
\<close>

section \<open>A demonstration engine\<close>

definition demo_symbol :: Symbol where
  "demo_symbol = symbol_of_cstr ''AAA''"

definition eng_order :: "OrderId \<Rightarrow> TraderId \<Rightarrow> Side \<Rightarrow> Price \<Rightarrow> Quantity \<Rightarrow> Order" where
  "eng_order oid tid sd px q = default_order\<lparr>ord_id := oid, ord_trader_id := tid,
     ord_symbol := demo_symbol, ord_side := sd, ord_price := px, ord_quantity := q\<rparr>"

definition demo_set_up :: MatchingEngine where
  "demo_set_up = me_on_l2_update (me_on_l1_update (me_on_trade (me_on_execution
     (set_risk_engine (Some demo_engine) (add_symbol zero_level zero_level demo_symbol new_engine)))))"

definition demo_me :: MatchingEngine where
  "demo_me = snd (process_new_order (eng_order 1 8 Sell 101 10) 1 1 demo_set_up)"

lemma demo_set_up_reach: "engine_reach demo_set_up"
proof -
  note go = engine_reach.step [OF _ engine_step.tune]
  have "engine_reach (add_symbol zero_level zero_level demo_symbol new_engine)"
    by (rule engine_reach.step [OF engine_reach.empty engine_step.symbol])
  then have "engine_reach (set_risk_engine (Some demo_engine)
      (add_symbol zero_level zero_level demo_symbol new_engine))"
    by (rule go [of _ "set_risk_engine (Some demo_engine)"]) (auto simp: tune_def)
  from go [OF this, of me_on_execution]
  have "engine_reach (me_on_execution (set_risk_engine (Some demo_engine)
      (add_symbol zero_level zero_level demo_symbol new_engine)))" by (simp add: tune_def)
  from go [OF go [OF go [OF this, of me_on_trade], of me_on_l1_update], of me_on_l2_update]
  show ?thesis by (simp add: demo_set_up_def tune_def)
qed

lemma demo_me_reach: "engine_reach demo_me"
  unfolding demo_me_def
  by (intro engine_reach.step [OF demo_set_up_reach engine_step.new_order])
    (simp add: eng_order_def in_i64_def i64_min_def i64_max_def)

section \<open>Safety\<close>

text \<open>The engine is memory safe and its books stay well formed: on a reachable engine no cancel
  and no replace request, for any symbol and any order id, makes a book read through a
  dangling iterator, every symbol's book is the book of that symbol, and none is crossed.\<close>

theorem engine_never_dangles:
  assumes reach: "engine_reach e"
  shows "process_cancel cancel ts ts' e \<noteq> None \<and> process_replace replace ts ts' e \<noteq> None \<and>
    (\<forall>s b bb ba. get_book s e = Some b \<longrightarrow> bk_symbol b = s \<and>
      (best_bid b = Some bb \<longrightarrow> best_ask b = Some ba \<longrightarrow> lvl_price bb < lvl_price ba))"
proof (intro conjI allI impI)
  note inv = engine_reach_inv [OF reach]
  show "process_cancel cancel ts ts' e \<noteq> None" using engine_inv_cancel [OF inv, of cancel ts ts'] by auto
  show "process_replace replace ts ts' e \<noteq> None"
  proof (cases "get_book (rep_symbol replace) e")
    case None
    then show ?thesis by (simp add: process_replace_def get_book_def)
  next
    case (Some b)
    with inv have "book_inv b" by (auto simp: engine_inv_def book_ok_def)
    from l3.replace_total [OF this, of replace ts] process_replace_book [OF Some, of ts _ _ ts']
    show ?thesis by fastforce
  qed
  fix s b bb ba assume "get_book s e = Some b"
  with inv have b: "book_inv b" "bk_symbol b = s" by (auto simp: engine_inv_def book_ok_def)
  show "bk_symbol b = s" by (rule b)
  assume "best_bid b = Some bb" "best_ask b = Some ba"
  then show "lvl_price bb < lvl_price ba" by (rule inv_uncrossed_best [OF b(1)])
qed

theorem engine_never_dangles_witness:
  "process_cancel \<lparr>cxl_order_id = 1, cxl_trader_id = 0, cxl_symbol = demo_symbol, cxl_submit_time = 0,
     cxl_cl_ord_id = []\<rparr> 2 2 demo_me \<noteq> None"
  using engine_never_dangles [OF demo_me_reach] by blast

section \<open>The gate\<close>

text \<open>The gate in front of the books.  A new order for an unknown symbol, or one the attached risk
  engine refuses, is reported rejected with that reason and changes no book, no routing entry
  and no trade count; any other order changes exactly its own symbol's book, to what
  \<open>add_order\<close> makes of it, and its report is that of the book.\<close>

theorem new_order_gate:
  "if get_book (ord_symbol order) e = None \<or>
      (\<exists>risk. risk_engine e = Some risk \<and> fst (check_order order risk) \<noteq> NoReject)
   then rpt_status (fst (process_new_order order ts ts' e)) = Rejected \<and>
     rpt_reject_reason (fst (process_new_order order ts ts' e)) =
       (if get_book (ord_symbol order) e = None then UnknownSymbol
        else fst (check_order order (the (risk_engine e)))) \<and>
     (\<forall>s. get_book s (snd (process_new_order order ts ts' e)) = get_book s e) \<and>
     order_symbol_index (snd (process_new_order order ts ts' e)) = order_symbol_index e \<and>
     trades_generated (snd (process_new_order order ts ts' e)) = trades_generated e
   else fst (process_new_order order ts ts' e) =
       fst (add_order order ts (the (get_book (ord_symbol order) e))) \<and>
     (\<forall>s. get_book s (snd (process_new_order order ts ts' e)) =
       (if s = ord_symbol order
        then Some ((snd (add_order order ts (the (get_book s e))))\<lparr>bk_log := []\<rparr>) else get_book s e))"
proof -
  let ?shut = "get_book (ord_symbol order) e = None \<or>
    (\<exists>risk. risk_engine e = Some risk \<and> fst (check_order order risk) \<noteq> NoReject)"
  have gate: "?shut \<longleftrightarrow> gate order e \<noteq> NoReject"
    by (auto simp: gate_def check_order_verdict split: option.splits)
  show ?thesis
  proof (cases ?shut)
    case True
    then have "gate order e \<noteq> NoReject" by (simp add: gate)
    note shut = gate_shut [OF this, where ts = ts and ts' = ts']
    have reason: "gate order e = (if get_book (ord_symbol order) e = None then UnknownSymbol
        else fst (check_order order (the (risk_engine e))))"
      using True by (auto simp: gate_def check_order_verdict)
    show ?thesis
      using True by (simp add: shut order_rejection_def reason)
  next
    case False
    then obtain b where b: "get_book (ord_symbol order) e = Some b" by auto
    from False gate have "gate order e = NoReject" by simp
    note new = gate_open_book [OF this b, where ts = ts and ts' = ts']
    show ?thesis
      unfolding if_not_P [OF False] by (simp add: new b)
  qed
qed

text \<open>Trades are counted once: on a reachable engine the engine's trade counter is the sum of
  the trade counters of its books, in 64-bit arithmetic.\<close>

theorem trades_counted:
  assumes "engine_reach e"
  shows "finite (symbols e) \<and>
    trades_generated e = (\<Sum>s \<in> symbols e. trade_count (the (get_book s e)))"
proof -
  have "known e = symbols e" by (auto simp: known_def symbols_def get_book_def)
  with engine_reach_inv [OF assms] show ?thesis by (simp add: engine_inv_def trades_in_books_def)
qed

theorem trades_counted_witness: "finite (symbols demo_me) \<and> symbols demo_me \<noteq> {}"
proof -
  have "get_book demo_symbol demo_me \<noteq> None" by code_simp
  then have "demo_symbol \<in> symbols demo_me" by (auto simp: symbols_def get_book_def)
  with trades_counted [OF demo_me_reach] show ?thesis by blast
qed

section \<open>What an accepted order publishes\<close>

lemma engine_book:
  assumes "engine_reach e" "get_book s e = Some b"
  shows "book_inv b" "bk_log b = []" "trade_cb b" "tob_cb b" "bk_symbol b = s"
  using engine_reach_inv [OF assms(1)] assms(2) by (auto simp: engine_inv_def book_ok_def)

text \<open>The log of an accepted order, for any combination of installed handlers.\<close>

lemma new_order_log:
  assumes reach: "engine_reach e" and q: "in_i64 (ord_quantity order)"
    and b: "get_book (ord_symbol order) e = Some b"
    and risk: "\<forall>risk. risk_engine e = Some risk \<longrightarrow> fst (check_order order risk) = NoReject"
    and step: "process_new_order order ts ts' e = (rpt, e')"
  shows "me_log e' = me_log e @ (if me_trade_cb e then map TradeOut (trades_of order ts b) else []) @
      (if l1_cb e \<and> (trades_of order ts b \<noteq> [] \<or> rpt_status rpt = New)
       then [L1Out (top_of_book ts (the (get_book (ord_symbol order) e')))] else []) @
      (if exec_cb e then [ExecutionOut rpt] else []) @
      (if l2_cb e then [L2Out (get_depth (ord_symbol order) ts' e')] else [])"
    and "get_top_of_book (ord_symbol order) e' = top_of_book ts' (the (get_book (ord_symbol order) e'))"
proof -
  have gate: "gate order e = NoReject"
    using b risk by (auto simp: gate_def check_order_verdict split: option.split)
  have rpt: "rpt = fst (process_new_order order ts ts' e)" "e' = snd (process_new_order order ts ts' e)"
    by (simp_all add: step)
  note ok = engine_book [OF reach b]
  note log = gate_open_log [OF gate b rpt]
  have top: "top_of_book t (the (get_book (ord_symbol order) e')) = top_of_book t (snd (add_order order ts b))" for t
    unfolding rpt(2) gate_open_book(2) [OF gate b] by (simp, rule top_of_book_cong) simp_all
  have "fst (add_order order ts b) = rpt" using gate_open_book(1) [OF gate b] rpt(1) by metis
  with add_order_log(1) [OF ok(1) q, of ts] ok
  have "bk_log (snd (add_order order ts b)) = map TradeEvent (trades_of order ts b) @
      (if trades_of order ts b \<noteq> [] \<or> rpt_status rpt = New
       then [TobEvent (top_of_book ts (snd (add_order order ts b)))] else [])" by simp
  moreover have "concat (map (output_of e \<circ> TradeEvent) trs) = (if me_trade_cb e then map TradeOut trs else [])" for trs
    by (induction trs) simp_all
  ultimately show "me_log e' = me_log e @ (if me_trade_cb e then map TradeOut (trades_of order ts b) else []) @
      (if l1_cb e \<and> (trades_of order ts b \<noteq> [] \<or> rpt_status rpt = New)
       then [L1Out (top_of_book ts (the (get_book (ord_symbol order) e')))] else []) @
      (if exec_cb e then [ExecutionOut rpt] else []) @
      (if l2_cb e then [L2Out (get_depth (ord_symbol order) ts' e')] else [])"
    by (simp add: log(1) top)
  show "get_top_of_book (ord_symbol order) e' = top_of_book ts' (the (get_book (ord_symbol order) e'))"
    by (simp add: log(2) top)
qed

text \<open>C16. What an accepted order publishes, and in which order: every trade as it was made; then, if
  the order traded or is reported new, one top of book computed on the resulting book; then
  the execution report; then the depth of the resulting book.  Afterwards the L1 feed of the
  symbol holds the top of the resulting book.\<close>

theorem new_order_publishes:
  assumes reach: "engine_reach e" and q: "in_i64 (ord_quantity order)"
    and b: "get_book (ord_symbol order) e = Some b"
    and risk: "\<forall>risk. risk_engine e = Some risk \<longrightarrow> fst (check_order order risk) = NoReject"
    and hooks: "exec_cb e" "me_trade_cb e" "l1_cb e" "l2_cb e"
    and step: "process_new_order order ts ts' e = (rpt, e')"
  shows "me_log e' = me_log e @ map TradeOut (trades_of order ts b) @
      (if trades_of order ts b \<noteq> [] \<or> rpt_status rpt = New
       then [L1Out (top_of_book ts (the (get_book (ord_symbol order) e')))] else []) @
      [ExecutionOut rpt, L2Out (get_depth (ord_symbol order) ts' e')] \<and>
    get_top_of_book (ord_symbol order) e' = top_of_book ts' (the (get_book (ord_symbol order) e'))"
  using new_order_log [OF reach q b risk step] hooks by simp

theorem new_order_publishes_witness:
  "\<exists>e'. process_new_order (eng_order 2 9 Buy 101 4) 5 6 demo_me =
      (fst (process_new_order (eng_order 2 9 Buy 101 4) 5 6 demo_me), e') \<and>
    get_top_of_book demo_symbol e' = top_of_book 6 (the (get_book demo_symbol e'))"
proof -
  let ?o = "eng_order 2 9 Buy 101 4"
  obtain rpt e' where step: "process_new_order ?o 5 6 demo_me = (rpt, e')" by fastforce
  have o: "ord_symbol ?o = demo_symbol" "in_i64 (ord_quantity ?o)"
    by (simp_all add: eng_order_def in_i64_def i64_min_def i64_max_def)
  have "get_book demo_symbol demo_me \<noteq> None" by code_simp
  then obtain b where b: "get_book (ord_symbol ?o) demo_me = Some b" by (auto simp: o)
  have hooks: "exec_cb demo_me \<and> me_trade_cb demo_me \<and> l1_cb demo_me \<and> l2_cb demo_me" by code_simp
  have "map_option (\<lambda>r. fst (check_order ?o r)) (risk_engine demo_me) = Some NoReject" by code_simp
  then have "\<forall>risk. risk_engine demo_me = Some risk \<longrightarrow> fst (check_order ?o risk) = NoReject" by auto
  from new_order_publishes [OF demo_me_reach o(2) b this _ _ _ _ step] hooks step
  show ?thesis by (simp add: o(1))
qed

section \<open>Positions\<close>

text \<open>The engine books the aggressor's fills, and only the aggressor's.  When a new order is not
  fill-or-kill and passes the checks, the risk engine's position of its trader in its symbol
  changes by the signed sum of the quantities just traded; no other position changes, in
  particular not those of the traders whose resting orders were filled.\<close>

theorem positions_follow_aggressor:
  assumes reach: "engine_reach e" and q: "in_i64 (ord_quantity order)" and tif: "ord_tif order \<noteq> FOK"
    and b: "get_book (ord_symbol order) e = Some b"
    and risk: "risk_engine e = Some risk" "fst (check_order order risk) = NoReject"
    and range: "in_i64 (get_position (ord_trader_id order) (ord_symbol order) risk)"
    and step: "process_new_order order ts ts' e = (rpt, e')"
  shows "\<exists>risk'. risk_engine e' = Some risk' \<and>
    (\<forall>t s. get_position t s risk' =
      (if t = ord_trader_id order \<and> s = ord_symbol order
       then i64 (get_position t s risk +
         signed_qty (ord_side order) (sum_list (map trd_qty (trades_of order ts b))))
       else get_position t s risk))"
proof -
  have gate: "gate order e = NoReject"
    using b risk by (auto simp: gate_def check_order_verdict)
  have rpt: "rpt = fst (process_new_order order ts ts' e)" "e' = snd (process_new_order order ts ts' e)"
    by (simp_all add: step)
  have "0 \<le> ord_quantity order"
    using risk(2) by (auto simp: check_order_verdict verdict_def split: if_splits)
  note filled = add_order_filled [OF engine_book(1) [OF reach b] this q tif, of ts]
  have "fst (add_order order ts b) = rpt" using gate_open_book(1) [OF gate b] rpt(1) by metis
  with filled have f: "rpt_filled_qty rpt = sum_list (map trd_qty (trades_of order ts b))" "0 \<le> rpt_filled_qty rpt"
    by simp_all
  have zero: "signed_qty sd 0 = 0" for sd by (simp add: signed_qty_def split: Side.split)
  show ?thesis
    unfolding gate_open_log(3) [OF gate b rpt] risk(1) f(1) [symmetric]
    using f(2) range by (auto simp: zero i64_id)
qed

theorem positions_follow_aggressor_witness:
  "\<exists>risk'. risk_engine (snd (process_new_order (eng_order 2 7 Buy 101 4) 5 6 demo_me)) = Some risk' \<and>
     get_position 7 demo_symbol risk' = 4 \<and> get_position 8 demo_symbol risk' = 0"
proof -
  let ?o = "eng_order 2 7 Buy 101 4"
  obtain rpt e' where step: "process_new_order ?o 5 6 demo_me = (rpt, e')" by fastforce
  have o: "ord_symbol ?o = demo_symbol" "ord_trader_id ?o = 7" "ord_side ?o = Buy"
    "in_i64 (ord_quantity ?o)" "ord_tif ?o \<noteq> FOK"
    by (simp_all add: eng_order_def default_order_def in_i64_def i64_min_def i64_max_def)
  have ev: "map_option (\<lambda>b. map trd_qty (trades_of ?o 5 b)) (get_book demo_symbol demo_me) = Some [4]"
    by code_simp
  then obtain b where b: "get_book (ord_symbol ?o) demo_me = Some b"
    "sum_list (map trd_qty (trades_of ?o 5 b)) = 4" by (auto simp: o)
  have "map_option (\<lambda>r. (fst (check_order ?o r), get_position 7 demo_symbol r, get_position 8 demo_symbol r))
      (risk_engine demo_me) = Some (NoReject, 0, 0)" by code_simp
  then obtain risk where risk: "risk_engine demo_me = Some risk" "fst (check_order ?o risk) = NoReject"
    "get_position 7 demo_symbol risk = 0" "get_position 8 demo_symbol risk = 0" by auto
  show ?thesis
    using positions_follow_aggressor [OF demo_me_reach o(4,5) b(1) risk(1,2) _ step] risk(3,4) b(2)
    by (auto simp: o step signed_qty_def i64_def)
qed

section \<open>Cancels by id\<close>

definition cancel_by_id :: "OrderId \<Rightarrow> CancelRequest" where
  "cancel_by_id oid = \<lparr>cxl_order_id = oid, cxl_trader_id = 0, cxl_symbol = default_symbol,
     cxl_submit_time = 0, cxl_cl_ord_id = []\<rparr>"

text \<open>Cancels are routed by order id.  Right after a day or good-til-cancel limit order was accepted
  and not completely filled, a cancel request that names only the order id, and no symbol,
  reaches the order's book: it is reported cancelled, and the order is live no more.\<close>

theorem cancel_routed_by_id:
  assumes reach: "engine_reach e" and q: "0 < ord_quantity order" "in_i64 (ord_quantity order)"
    and kind: "ord_type order = Limit" "ord_tif order = Day \<or> ord_tif order = GTC"
    and new: "process_new_order order ts ts' e = (rpt, e')"
    and status: "rpt_status rpt \<noteq> Rejected" "rpt_status rpt \<noteq> Filled"
  shows "\<exists>crpt e'' b''. process_cancel (cancel_by_id (ord_id order)) tc tc' e' = Some (crpt, e'') \<and>
    rpt_status crpt = Canceled \<and> get_book (ord_symbol order) e'' = Some b'' \<and>
    \<not> live_order b'' (ord_id order)"
proof -
  have rpt: "rpt = fst (process_new_order order ts ts' e)" "e' = snd (process_new_order order ts ts' e)"
    by (simp_all add: new)
  have gate: "gate order e = NoReject"
  proof (rule ccontr)
    assume "gate order e \<noteq> NoReject"
    from gate_shut(1) [OF this, of ts ts'] status(1) rpt show False by (simp add: order_rejection_def)
  qed
  then obtain b where b: "get_book (ord_symbol order) e = Some b"
    by (auto simp: gate_def split: if_splits)
  note opened = gate_open_book [OF gate b, where ts = ts and ts' = ts', folded rpt]
  have "live_order (snd (add_order order ts b)) (ord_id order)"
    using add_order_live [OF engine_book(1) [OF reach b] q kind] status opened(1) by simp
  moreover define b1 where "b1 = (snd (add_order order ts b))\<lparr>bk_log := []\<rparr>"
  ultimately have live: "live_order b1 (ord_id order)" by (simp add: live_order_def)
  have b1: "get_book (ord_symbol order) e' = Some b1" by (simp add: opened(2) b1_def)
  have inv': "engine_inv e'"
    unfolding rpt(2) by (rule engine_inv_new_order [OF engine_reach_inv [OF reach] q(2)])
  with b1 have "book_inv b1" by (auto simp: engine_inv_def book_ok_def)
  with l3.cancel_total obtain crpt b2 where c: "cancel_order (ord_id order) tc b1 = Some (crpt, b2)" by blast
  have route: "order_symbol_index e' (ord_id order) = Some (ord_symbol order)"
    using status opened(1) by (simp add: opened(3) Let_def)
  have "cancel_order (cxl_order_id (cancel_by_id (ord_id order))) tc b1 = Some (crpt, b2)"
    using c by (simp add: cancel_by_id_def)
  from cancel_on_book [OF inv' b1 this, of tc'] obtain e'' where
    "cancel_on (cancel_by_id (ord_id order)) (ord_symbol order) tc tc' e' = Some (crpt, e'')"
    "get_book (ord_symbol order) e'' = Some (b2\<lparr>bk_log := []\<rparr>)" by auto
  moreover have "process_cancel (cancel_by_id (ord_id order)) tc tc' e' =
      cancel_on (cancel_by_id (ord_id order)) (ord_symbol order) tc tc' e'"
    using route by (simp add: process_cancel_def cancel_by_id_def)
  moreover have "rpt_status crpt = Canceled" "\<not> live_order (b2\<lparr>bk_log := []\<rparr>) (ord_id order)"
    using l3.cancel_verdict [OF \<open>book_inv b1\<close> c] l3.cancel_live [OF \<open>book_inv b1\<close> c, of "ord_id order"] live
    by (simp_all add: live_order_def)
  ultimately show ?thesis by auto
qed

theorem cancel_routed_by_id_witness:
  "\<exists>crpt e''. process_cancel (cancel_by_id 1) 3 4 demo_me = Some (crpt, e'') \<and> rpt_status crpt = Canceled"
proof -
  let ?o = "eng_order 1 8 Sell 101 10"
  have "rpt_status (fst (process_new_order ?o 1 1 demo_set_up)) = New" by code_simp
  then show ?thesis
    using cancel_routed_by_id [OF demo_set_up_reach, of ?o 1 1 _ _ 3 4]
    by (auto simp: demo_me_def eng_order_def default_order_def in_i64_def i64_min_def i64_max_def
        prod_eq_iff)
qed

section \<open>What the risk engine does not see\<close>

definition demo_killed :: MatchingEngine where
  "demo_killed =
     (let e = snd (process_new_order (eng_order 2 7 Buy 90 10) 2 2 demo_me)
      in set_risk_engine (map_option kill_all (risk_engine e)) e)"

definition demo_replace :: ReplaceRequest where
  "demo_replace = \<lparr>rep_order_id = 2, rep_trader_id = 7, rep_symbol = demo_symbol, rep_new_price = 101,
     rep_new_qty = 10, rep_submit_time = 3, rep_cl_ord_id = [], rep_orig_cl_ord_id = []\<rparr>"

text \<open>C37. Replace requests pass no risk check and book no fill.  There is a reachable engine in which
  every trader is killed, so that every new order is refused, and yet a replace request trades
  ten units, at a price the client chooses; and the risk engine still shows no position.\<close>

theorem replace_bypasses_risk:
  "engine_reach demo_killed \<and>
   rpt_reject_reason (fst (process_new_order (eng_order 3 7 Buy 101 10) 3 3 demo_killed)) = KillSwitchActive \<and>
   map_option (\<lambda>(rpt, e). (rpt_status rpt, rpt_filled_qty rpt, trades_generated e,
       map_option (get_position 7 demo_symbol) (risk_engine e)))
     (process_replace demo_replace 3 3 demo_killed) = Some (Filled, 10, 1, Some 0)"
proof (intro conjI)
  have "engine_reach (snd (process_new_order (eng_order 2 7 Buy 90 10) 2 2 demo_me))"
    by (intro engine_reach.step [OF demo_me_reach engine_step.new_order])
      (simp add: eng_order_def in_i64_def i64_min_def i64_max_def)
  from engine_reach.step [OF this engine_step.tune, of "set_risk_engine (map_option kill_all
    (risk_engine (snd (process_new_order (eng_order 2 7 Buy 90 10) 2 2 demo_me))))"]
  show "engine_reach demo_killed" by (auto simp: demo_killed_def tune_def Let_def)
  show "rpt_reject_reason (fst (process_new_order (eng_order 3 7 Buy 101 10) 3 3 demo_killed)) = KillSwitchActive"
    by code_simp
  show "map_option (\<lambda>(rpt, e). (rpt_status rpt, rpt_filled_qty rpt, trades_generated e,
       map_option (get_position 7 demo_symbol) (risk_engine e)))
     (process_replace demo_replace 3 3 demo_killed) = Some (Filled, 10, 1, Some 0)"
    by code_simp
qed

end
