(* ===== verification/Bounded_Queue.thy ===== *)
theory Bounded_Queue
  imports HFT_Prelude
begin

text \<open>
  The contract of a bounded first-in first-out queue, as the market data engine relies on it:
  what \<open>push\<close> and \<open>pop\<close> do to the list of queued elements, and what a loop that pops until the
  queue is empty computes.

  A client is a list of calls in any order, and what it can see are the answers.  The specification
  is the queue that is a list; the contract makes every implementation give the same answers.
\<close>

text \<open>The loop \<^verbatim>\<open>while (auto opt = queue.pop())\<close> with its body; \<open>None\<close> if it does not end.\<close>

partial_function (option) drain ::
  "('q \<Rightarrow> 'a option \<times> 'q) \<Rightarrow> ('a \<Rightarrow> 's \<Rightarrow> 's) \<Rightarrow> 'q \<Rightarrow> 's \<Rightarrow> ('q \<times> 's) option" where
  "drain pop body q s =
     (case pop q of (None, q') \<Rightarrow> Some (q', s) | (Some x, q') \<Rightarrow> drain pop body q' (body x s))"

datatype 'a queue_call = PushCall 'a | PopCall

datatype 'a queue_answer = Pushed bool | Popped "'a option"

fun queue_calls ::
  "('a \<Rightarrow> 'q \<Rightarrow> bool \<times> 'q) \<Rightarrow> ('q \<Rightarrow> 'a option \<times> 'q) \<Rightarrow> 'a queue_call list \<Rightarrow> 'q \<Rightarrow> 'a queue_answer list \<times> 'q" where
  "queue_calls push pop [] q = ([], q)"
| "queue_calls push pop (PushCall x # cs) q =
     (let (ok, q1) = push x q; (answers, q2) = queue_calls push pop cs q1 in (Pushed ok # answers, q2))"
| "queue_calls push pop (PopCall # cs) q =
     (let (x, q1) = pop q; (answers, q2) = queue_calls push pop cs q1 in (Popped x # answers, q2))"

text \<open>A bounded queue as the list of its elements, front first.\<close>

definition fifo_push :: "nat \<Rightarrow> 'a \<Rightarrow> 'a list \<Rightarrow> bool \<times> 'a list" where
  "fifo_push cap x xs = (if length xs < cap then (True, xs @ [x]) else (False, xs))"

definition fifo_pop :: "'a list \<Rightarrow> 'a option \<times> 'a list" where
  "fifo_pop xs = (case xs of [] \<Rightarrow> (None, []) | x # xs \<Rightarrow> (Some x, xs))"

locale bounded_queue =
  fixes inv :: "'q \<Rightarrow> bool"
    and view :: "'q \<Rightarrow> 'a list"
    and cap :: nat
    and push :: "'a \<Rightarrow> 'q \<Rightarrow> bool \<times> 'q"
    and pop :: "'q \<Rightarrow> 'a option \<times> 'q"
  assumes bounded: "inv q \<Longrightarrow> length (view q) \<le> cap"
    and push_inv: "inv q \<Longrightarrow> inv (snd (push x q))"
    and push_room: "inv q \<Longrightarrow> length (view q) < cap \<Longrightarrow>
      fst (push x q) \<and> view (snd (push x q)) = view q @ [x]"
    and push_full: "inv q \<Longrightarrow> length (view q) = cap \<Longrightarrow> push x q = (False, q)"
    and pop_inv: "inv q \<Longrightarrow> inv (snd (pop q))"
    and pop_some: "inv q \<Longrightarrow> view q = x # xs \<Longrightarrow> fst (pop q) = Some x \<and> view (snd (pop q)) = xs"
    and pop_none: "inv q \<Longrightarrow> view q = [] \<Longrightarrow> pop q = (None, q)"
begin

text \<open>Each operation is that of the list, and so is every sequence of calls.\<close>

lemma push_fifo: "inv q \<Longrightarrow> fst (push x q) = fst (fifo_push cap x (view q)) \<and> view (snd (push x q)) = snd (fifo_push cap x (view q))"
  using push_room [of q x] push_full [of q x] bounded [of q] by (cases "length (view q) < cap") (auto simp: fifo_push_def)

lemma pop_fifo: "inv q \<Longrightarrow> fst (pop q) = fst (fifo_pop (view q)) \<and> view (snd (pop q)) = snd (fifo_pop (view q))"
  using pop_some [of q] pop_none [of q] by (cases "view q") (auto simp: fifo_pop_def)

lemma calls_fifo:
  "inv q \<Longrightarrow> inv (snd (queue_calls push pop cs q)) \<and>
    fst (queue_calls push pop cs q) = fst (queue_calls (fifo_push cap) fifo_pop cs (view q)) \<and>
    view (snd (queue_calls push pop cs q)) = snd (queue_calls (fifo_push cap) fifo_pop cs (view q))"
proof (induction cs arbitrary: q)
  case (Cons c cs)
  show ?case
  proof (cases c)
    case (PushCall x)
    with Cons.IH [OF push_inv [OF Cons.prems, of x]] push_fifo [OF Cons.prems, of x] show ?thesis
      by (simp add: case_prod_unfold Let_def)
  next
    case PopCall
    with Cons.IH [OF pop_inv [OF Cons.prems]] pop_fifo [OF Cons.prems] show ?thesis
      by (simp add: case_prod_unfold Let_def)
  qed
qed simp

text \<open>Pushing a list keeps the first elements that fit and loses the rest.\<close>

lemma push_all:
  "inv q \<Longrightarrow> inv (fold (\<lambda>x q. snd (push x q)) xs q) \<and>
    view (fold (\<lambda>x q. snd (push x q)) xs q) = take cap (view q @ xs)"
proof (induction xs arbitrary: q)
  case Nil
  then show ?case using bounded by simp
next
  case (Cons x xs)
  note inv' = push_inv [OF Cons.prems, of x]
  show ?case
  proof (cases "length (view q) < cap")
    case True
    with Cons.IH [OF inv'] push_room [OF Cons.prems, of x] show ?thesis by simp
  next
    case False
    with bounded [OF Cons.prems] have full: "length (view q) = cap" by simp
    with Cons.IH [OF inv'] push_full [OF Cons.prems, of x] show ?thesis by simp
  qed
qed

text \<open>The draining loop ends, runs its body on every element in order, and empties the queue.\<close>

lemma drain_all:
  "inv q \<Longrightarrow> \<exists>q'. drain pop body q s = Some (q', fold body (view q) s) \<and> inv q' \<and> view q' = []"
proof (induction "view q" arbitrary: q s)
  case Nil
  then have "view q = []" by simp
  with Nil.prems pop_none [OF Nil.prems] show ?case by (subst drain.simps) simp
next
  case (Cons x xs)
  then have "view q = x # xs" by simp
  from pop_some [OF Cons.prems this] obtain q' where q': "pop q = (Some x, q')" "view q' = xs"
    by (metis prod.collapse)
  have "inv q'" using pop_inv [OF Cons.prems] by (simp add: q')
  from Cons.hyps(1) [OF q'(2) [symmetric] this, of "body x s"] q' Cons.hyps(2) [symmetric] show ?case
    by (subst drain.simps) simp
qed

end

end
