(* ===== verification/Ring_Buffer.thy ===== *)
theory Ring_Buffer
  imports Bounded_Queue
begin

text \<open>
  The ring buffer of \<^verbatim>\<open>src/src/HPRingBuffer.hpp\<close>: an array of \<open>Size\<close> slots, a power of two, with
  64-bit head and tail indices that advance by increment and mask; one slot stays unused.

  \<open>push\<close> and \<open>pop\<close> are first the operations of a single thread and refine a bounded queue.
  Then the same operations are split at their atomic accesses, one producer and one consumer
  interleave in any order, and the queue discipline is an invariant of the reachable states.
  That this interleaving is what the memory orders of the source leave to see is proved in
  \<open>Ring_Orders\<close>.
\<close>

unbundle bit_operations_syntax

section \<open>Operations\<close>

record 'a HPRingBuffer =
  rb_buffer :: "'a list"
  rb_head :: u64
  rb_tail :: u64

text \<open>The static assertion on \<open>Size\<close>.\<close>

definition size_ok :: "u64 \<Rightarrow> bool" where
  "size_ok Size \<longleftrightarrow> Size \<noteq> 0 \<and> Size AND (Size - 1) = 0"

definition increment :: "u64 \<Rightarrow> u64 \<Rightarrow> u64" where
  "increment Size idx = (idx + 1) AND (Size - 1)"

definition new_ring :: "'a \<Rightarrow> u64 \<Rightarrow> 'a HPRingBuffer" where
  "new_ring any Size = \<lparr>rb_buffer = replicate (unat Size) any, rb_head = 0, rb_tail = 0\<rparr>"

definition push :: "u64 \<Rightarrow> 'a \<Rightarrow> 'a HPRingBuffer \<Rightarrow> bool \<times> 'a HPRingBuffer" where
  "push Size item rb =
     (let head = rb_head rb; next = increment Size head
      in if next = rb_tail rb then (False, rb)
         else (True, rb\<lparr>rb_buffer := (rb_buffer rb)[unat head := item], rb_head := next\<rparr>))"

text \<open>The overload for an rvalue moves the item in: \<open>moved\<close> is what that leaves of the argument.  The
  argument of a push onto a full buffer is left as it is, so that the caller can try again.\<close>

definition push_move :: "('a \<Rightarrow> 'a) \<Rightarrow> u64 \<Rightarrow> 'a \<Rightarrow> 'a HPRingBuffer \<Rightarrow> bool \<times> 'a \<times> 'a HPRingBuffer" where
  "push_move moved Size item rb =
     (let head = rb_head rb; next = increment Size head
      in if next = rb_tail rb then (False, item, rb)
         else (True, moved item, rb\<lparr>rb_buffer := (rb_buffer rb)[unat head := item], rb_head := next\<rparr>))"

lemma push_move_push:
  "push_move moved Size item rb = (let (done, rb') = push Size item rb in (done, if done then moved item else item, rb'))"
  by (simp add: push_move_def push_def Let_def)

definition pop :: "u64 \<Rightarrow> 'a HPRingBuffer \<Rightarrow> 'a option \<times> 'a HPRingBuffer" where
  "pop Size rb =
     (let tail = rb_tail rb
      in if tail = rb_head rb then (None, rb)
         else (Some (rb_buffer rb ! unat tail), rb\<lparr>rb_tail := increment Size tail\<rparr>))"

definition ring_empty :: "'a HPRingBuffer \<Rightarrow> bool" where
  "ring_empty rb \<longleftrightarrow> rb_head rb = rb_tail rb"

definition ring_full :: "u64 \<Rightarrow> 'a HPRingBuffer \<Rightarrow> bool" where
  "ring_full Size rb \<longleftrightarrow> increment Size (rb_head rb) = rb_tail rb"

definition ring_size :: "u64 \<Rightarrow> 'a HPRingBuffer \<Rightarrow> u64" where
  "ring_size Size rb =
     (let h = rb_head rb; t = rb_tail rb in if h \<ge> t then h - t else Size - (t - h))"

definition ring_capacity :: "u64 \<Rightarrow> u64" where
  "ring_capacity Size = Size - 1"

section \<open>The mask\<close>

lemma pow2_nat: "x AND (x - 1) = 0 \<Longrightarrow> 0 < x \<Longrightarrow> \<exists>k. x = 2 ^ k" for x :: nat
proof (induction x rule: less_induct)
  case (less x)
  show ?case
  proof (cases "odd x")
    case True
    then obtain y where x: "x = 2 * y + 1" by (elim oddE)
    have "x AND (x - 1) = 2 * (y AND y)" by (subst and_rec) (simp add: x)
    with less.prems have "y = 0" by simp
    then show ?thesis by (intro exI [of _ 0]) (simp add: x)
  next
    case False
    then obtain y where x: "x = 2 * y" by (auto elim: evenE)
    have y: "0 < y" "y < x" using less.prems x by auto
    have "(2 * y - 1) div 2 = y - 1" "odd (2 * y - 1)" using y by (auto simp: even_diff_nat)
    then have "x AND (x - 1) = 2 * (y AND (y - 1))" by (subst and_rec) (simp add: x)
    with less.prems have "y AND (y - 1) = 0" by simp
    from less.IH [OF y(2) this y(1)] obtain k where "y = 2 ^ k" by blast
    then show ?thesis by (intro exI [of _ "Suc k"]) (simp add: x)
  qed
qed

lemma size_ok_pow2:
  assumes "size_ok Size"
  obtains k where "k < 64" "Size = 2 ^ k" "unat Size = 2 ^ k"
proof -
  have pos: "0 < unat Size" using assms by (simp add: size_ok_def unat_gt_0)
  have "unat (Size - 1) = unat Size - 1"
    using assms by (intro unat_minus_one) (simp add: size_ok_def)
  moreover have "unat (Size AND (Size - 1)) = unat Size AND unat (Size - 1)"
    by (rule unsigned_and_eq)
  moreover have "unat (Size AND (Size - 1)) = 0" using assms by (simp add: size_ok_def)
  ultimately have "unat Size AND (unat Size - 1) = 0" by simp
  from pow2_nat [OF this pos] obtain k where k: "unat Size = 2 ^ k" by blast
  have "2 ^ k < (2 :: nat) ^ 64" using unsigned_less [of Size, where ?'a = nat] k by simp
  then have "k < 64" by (rule power_less_imp_less_exp [rotated]) simp
  moreover have "Size = 2 ^ k"
    using arg_cong [OF k, of "word_of_nat :: nat \<Rightarrow> u64"] by simp
  ultimately show thesis using k that by blast
qed

lemma increment_mod:
  assumes "size_ok Size" and "idx < Size"
  shows "unat (increment Size idx) = (unat idx + 1) mod unat Size"
    and "increment Size idx < Size"
proof -
  from assms(1) obtain k where k: "k < 64" "Size = 2 ^ k" "unat Size = 2 ^ k" by (rule size_ok_pow2)
  have "increment Size idx = take_bit k (idx + 1)"
    by (simp add: increment_def k(2) take_bit_eq_mask mask_eq_decr_exp)
  then have "unat (increment Size idx) = take_bit k (unat (idx + 1))"
    by (simp only: unsigned_take_bit_eq)
  then have "unat (increment Size idx) = unat (idx + 1) mod 2 ^ k"
    by (simp only: take_bit_eq_mod)
  moreover have "unat (idx + 1) = unat idx + 1"
  proof -
    have "unat idx + 1 < 2 ^ 64 \<or> unat idx + 1 = 2 ^ 64"
      using unsigned_less [of idx, where ?'a = nat] by auto
    moreover have "unat idx + 1 \<le> 2 ^ k" using assms(2) k by (simp add: word_less_nat_alt)
    moreover have "(2 :: nat) ^ k < 2 ^ 64" using k(1) by (intro power_strict_increasing) simp_all
    ultimately have "unat idx + 1 < 2 ^ 64" by linarith
    then show ?thesis by (simp add: unat_word_ariths)
  qed
  ultimately show "unat (increment Size idx) = (unat idx + 1) mod unat Size" by (simp add: k(3))
  then have "unat (increment Size idx) < unat Size" using k(3) by simp
  then show "increment Size idx < Size" by (simp add: word_less_nat_alt)
qed

section \<open>A bounded queue\<close>

definition ring_inv :: "u64 \<Rightarrow> 'a HPRingBuffer \<Rightarrow> bool" where
  "ring_inv Size rb \<longleftrightarrow> size_ok Size \<and> length (rb_buffer rb) = unat Size \<and>
     rb_head rb < Size \<and> rb_tail rb < Size"

text \<open>The number of queued elements for a size, head and tail, and the elements, front first.\<close>

definition gap :: "nat \<Rightarrow> nat \<Rightarrow> nat \<Rightarrow> nat" where
  "gap n h t = (if t \<le> h then h - t else n - (t - h))"

definition contents :: "u64 \<Rightarrow> 'a HPRingBuffer \<Rightarrow> 'a list" where
  "contents Size rb =
     map (\<lambda>i. rb_buffer rb ! ((unat (rb_tail rb) + i) mod unat Size))
       [0..<gap (unat Size) (unat (rb_head rb)) (unat (rb_tail rb))]"

lemma gap_less: "h < n \<Longrightarrow> t < n \<Longrightarrow> gap n h t < n"
  by (auto simp: gap_def)

lemma gap_zero: "h < n \<Longrightarrow> t < n \<Longrightarrow> gap n h t = 0 \<longleftrightarrow> h = t"
  by (auto simp: gap_def)

lemma gap_head:
  assumes "h < n" "t < n"
  shows "(t + gap n h t) mod n = h"
  using assms by (auto simp: gap_def)

lemma gap_push:
  assumes "h < n" "t < n" "(h + 1) mod n \<noteq> t"
  shows "gap n ((h + 1) mod n) t = gap n h t + 1"
  using assms by (cases "h + 1 = n") (auto simp: gap_def)

lemma gap_full:
  assumes "h < n" "t < n"
  shows "(h + 1) mod n = t \<longleftrightarrow> gap n h t = n - 1"
  using assms by (cases "h + 1 = n") (auto simp: gap_def)

lemma gap_pop:
  assumes "h < n" "t < n" "h \<noteq> t"
  shows "gap n h ((t + 1) mod n) = gap n h t - 1"
  using assms by (cases "t + 1 = n") (auto simp: gap_def)

lemma gap_inj:
  assumes "h < n" "t < n" "i < gap n h t"
  shows "(t + i) mod n \<noteq> h"
proof
  assume "(t + i) mod n = h"
  with gap_head [OF assms(1,2)] have "(t + i) mod n = (t + gap n h t) mod n" by simp
  moreover have "i < n" "gap n h t < n" using assms gap_less [OF assms(1,2)] by simp_all
  moreover have "x mod n = (if x < n then x else x - n)" if "x < 2 * n" for x
    using that by (simp add: mod_if)
  ultimately have "i = gap n h t" using assms(2) by (simp split: if_splits)
  with assms(3) show False by simp
qed

lemma ring_bounds:
  assumes "ring_inv Size rb"
  shows "unat (rb_head rb) < unat Size" "unat (rb_tail rb) < unat Size" "0 < unat Size"
  using assms by (auto simp: ring_inv_def word_less_nat_alt)

lemma contents_length: "length (contents Size rb) = gap (unat Size) (unat (rb_head rb)) (unat (rb_tail rb))"
  by (simp add: contents_def)

lemma contents_bound: "ring_inv Size rb \<Longrightarrow> length (contents Size rb) \<le> unat Size - 1"
  using ring_bounds [of Size rb] gap_less by (fastforce simp: contents_length)

lemma contents_empty: "ring_inv Size rb \<Longrightarrow> contents Size rb = [] \<longleftrightarrow> rb_head rb = rb_tail rb"
  using ring_bounds [of Size rb] gap_zero
  by (simp add: contents_length flip: length_0_conv) (metis word_unat_eq_iff)

lemma full_iff:
  assumes "ring_inv Size rb"
  shows "increment Size (rb_head rb) = rb_tail rb \<longleftrightarrow> length (contents Size rb) = unat Size - 1"
proof -
  have "unat (increment Size (rb_head rb)) = (unat (rb_head rb) + 1) mod unat Size"
    using assms by (intro increment_mod(1)) (simp_all add: ring_inv_def)
  then have "increment Size (rb_head rb) = rb_tail rb \<longleftrightarrow>
      (unat (rb_head rb) + 1) mod unat Size = unat (rb_tail rb)"
    by (simp add: word_unat_eq_iff)
  with gap_full ring_bounds [OF assms] show ?thesis by (simp add: contents_length)
qed

text \<open>Writing the slot at the head does not touch the contents; publishing it appends it.\<close>

lemma contents_write:
  assumes "ring_inv Size rb"
  shows "contents Size (rb\<lparr>rb_buffer := (rb_buffer rb)[unat (rb_head rb) := x]\<rparr>) = contents Size rb"
proof -
  have "unat (rb_head rb) \<noteq> (unat (rb_tail rb) + i) mod unat Size"
    if "i < gap (unat Size) (unat (rb_head rb)) (unat (rb_tail rb))" for i
    using gap_inj [OF ring_bounds(1,2) [OF assms] that] by metis
  then show ?thesis by (simp add: contents_def)
qed

lemma contents_publish:
  assumes inv: "ring_inv Size rb" and room: "increment Size (rb_head rb) \<noteq> rb_tail rb"
  shows "contents Size (rb\<lparr>rb_head := increment Size (rb_head rb)\<rparr>) =
    contents Size rb @ [rb_buffer rb ! unat (rb_head rb)]"
proof -
  have inc: "unat (increment Size (rb_head rb)) = (unat (rb_head rb) + 1) mod unat Size"
    using inv by (intro increment_mod(1)) (simp_all add: ring_inv_def)
  have "(unat (rb_head rb) + 1) mod unat Size \<noteq> unat (rb_tail rb)"
    using room by (simp add: word_unat_eq_iff inc)
  note gap_push [OF ring_bounds(1,2) [OF inv] this] gap_head [OF ring_bounds(1,2) [OF inv]]
  then show ?thesis by (simp add: contents_def inc)
qed

lemma contents_release:
  assumes inv: "ring_inv Size rb" and some: "rb_tail rb \<noteq> rb_head rb"
  shows "contents Size rb = rb_buffer rb ! unat (rb_tail rb) #
    contents Size (rb\<lparr>rb_tail := increment Size (rb_tail rb)\<rparr>)"
proof -
  let ?n = "unat Size" and ?h = "unat (rb_head rb)" and ?t = "unat (rb_tail rb)"
  have inc: "unat (increment Size (rb_tail rb)) = (?t + 1) mod ?n"
    using inv by (intro increment_mod(1)) (simp_all add: ring_inv_def)
  have ne: "?h \<noteq> ?t" using some by (simp add: word_unat_eq_iff)
  then obtain g where g: "gap ?n ?h ?t = Suc g"
    using gap_zero [OF ring_bounds(1,2) [OF inv]] by (cases "gap ?n ?h ?t") auto
  have "gap ?n ?h ((?t + 1) mod ?n) = g"
    using gap_pop [OF ring_bounds(1,2) [OF inv] ne] g by simp
  then show ?thesis
    using ring_bounds [OF inv]
    by (simp add: contents_def inc g upt_conv_Cons map_Suc_upt [symmetric] mod_add_left_eq del: upt_Suc)
qed

lemma ring_inv_write:
  "ring_inv Size rb \<Longrightarrow> ring_inv Size (rb\<lparr>rb_buffer := (rb_buffer rb)[k := x]\<rparr>)"
  "ring_inv Size rb \<Longrightarrow> ring_inv Size (rb\<lparr>rb_head := increment Size (rb_head rb)\<rparr>)"
  "ring_inv Size rb \<Longrightarrow> ring_inv Size (rb\<lparr>rb_tail := increment Size (rb_tail rb)\<rparr>)"
  by (simp_all add: ring_inv_def increment_mod(2))

interpretation ring: bounded_queue "ring_inv Size" "contents Size" "unat Size - 1" "push Size" "pop Size"
  for Size
proof
  fix q :: "'a HPRingBuffer" and x :: 'a assume inv: "ring_inv Size q"
  show "length (contents Size q) \<le> unat Size - 1" by (rule contents_bound [OF inv])
  show "ring_inv Size (snd (push Size x q))"
    using ring_inv_write(2) [OF ring_inv_write(1) [OF inv, of "unat (rb_head q)" x]] inv
    by (simp add: push_def Let_def)
  let ?w = "q\<lparr>rb_buffer := (rb_buffer q)[unat (rb_head q) := x]\<rparr>"
  show "fst (push Size x q) \<and> contents Size (snd (push Size x q)) = contents Size q @ [x]"
    if "length (contents Size q) < unat Size - 1"
  proof -
    have room: "increment Size (rb_head q) \<noteq> rb_tail q"
      using that full_iff [OF inv] by simp
    have "rb_buffer ?w ! unat (rb_head q) = x"
      using inv ring_bounds(1) [OF inv] by (simp add: ring_inv_def)
    then show ?thesis
      using contents_publish [OF ring_inv_write(1) [OF inv, of "unat (rb_head q)" x]] contents_write [OF inv, of x] room
      by (simp add: push_def Let_def)
  qed
  show "push Size x q = (False, q)" if "length (contents Size q) = unat Size - 1"
    using that full_iff [OF inv] by (simp add: push_def Let_def)
  show "ring_inv Size (snd (pop Size q))"
    using ring_inv_write(3) [OF inv] inv by (simp add: pop_def Let_def)
  show "pop Size q = (None, q)" if "contents Size q = []"
    using that contents_empty [OF inv] by (simp add: pop_def Let_def)
  fix xs show "fst (pop Size q) = Some x \<and> contents Size (snd (pop Size q)) = xs"
    if "contents Size q = x # xs"
  proof -
    have "rb_tail q \<noteq> rb_head q" using that contents_empty [OF inv] by auto
    with contents_release [OF inv this] that show ?thesis by (simp add: pop_def Let_def)
  qed
qed

lemma ring_inv_new: "size_ok Size \<Longrightarrow> ring_inv Size (new_ring any Size)"
  by (simp add: ring_inv_def new_ring_def size_ok_def word_gt_0)

lemma contents_new: "contents Size (new_ring any Size) = []"
  by (simp add: contents_def new_ring_def gap_def)

text \<open>The observers agree with the queue: on a well-formed buffer \<open>size\<close> is the number of
  queued elements, \<open>empty\<close> holds exactly when there is none, \<open>full\<close> exactly when a push
  would fail, and there are never more than \<open>capacity\<close> elements.\<close>

theorem ring_observers:
  assumes "ring_inv Size rb"
  shows "unat (ring_size Size rb) = length (contents Size rb) \<and>
    (ring_empty rb \<longleftrightarrow> contents Size rb = []) \<and>
    (ring_full Size rb \<longleftrightarrow> \<not> fst (push Size x rb)) \<and>
    length (contents Size rb) \<le> unat (ring_capacity Size)"
proof -
  have "unat (ring_size Size rb) = gap (unat Size) (unat (rb_head rb)) (unat (rb_tail rb))"
  proof (cases "rb_tail rb \<le> rb_head rb")
    case True
    then show ?thesis
      by (simp add: ring_size_def Let_def gap_def word_le_nat_alt unat_sub)
  next
    case False
    then have "rb_head rb \<le> rb_tail rb" by simp
    moreover from this have "unat (rb_tail rb - rb_head rb) = unat (rb_tail rb) - unat (rb_head rb)"
      by (rule unat_sub)
    moreover from this have "rb_tail rb - rb_head rb \<le> Size"
      using ring_bounds [OF assms] by (simp add: word_le_nat_alt)
    ultimately show ?thesis
      using False by (simp add: ring_size_def Let_def gap_def word_le_nat_alt unat_sub)
  qed
  moreover have "unat (ring_capacity Size) = unat Size - 1"
    using assms by (simp add: ring_capacity_def ring_inv_def size_ok_def unat_minus_one)
  ultimately show ?thesis
    using contents_bound [OF assms] contents_empty [OF assms]
    by (auto simp: contents_length ring_empty_def ring_full_def push_def Let_def)
qed

theorem ring_observers_witness:
  "unat (ring_size 4 (snd (push 4 (7 :: nat) (new_ring 0 4)))) = 1"
proof -
  have "size_ok 4" by (simp add: size_ok_def)
  note inv = ring_inv_new [OF this, of "0 :: nat"]
  have "contents 4 (snd (push 4 7 (new_ring 0 4))) = [7 :: nat]"
    using ring.push_room [OF inv, of "7 :: nat"] by (simp add: contents_new)
  then show ?thesis
    using ring_observers [OF ring.push_inv [OF inv, of "7 :: nat"]] by simp
qed

text \<open>C23. The ring buffer is a bounded first-in first-out queue of \<open>Size - 1\<close> elements.  A client that
  makes any calls of \<open>push\<close> and \<open>pop\<close> in any order on a new buffer, over any number of turns
  around the array, gets the answers of the queue that is a list: a push fails exactly when
  \<open>Size - 1\<close> elements are queued, and a pop returns the oldest one, or nothing when there is
  none.  Afterwards \<open>size\<close>, \<open>empty\<close> and \<open>full\<close> agree with that list.\<close>

theorem ring_is_fifo:
  assumes "size_ok Size"
  shows "\<exists>answers rb xs. queue_calls (push Size) (pop Size) calls (new_ring any Size) = (answers, rb) \<and>
    queue_calls (fifo_push (unat Size - 1)) fifo_pop calls [] = (answers, xs) \<and>
    unat (ring_size Size rb) = length xs \<and> (ring_empty rb \<longleftrightarrow> xs = []) \<and>
    (ring_full Size rb \<longleftrightarrow> length xs = unat Size - 1)"
proof -
  let ?run = "queue_calls (push Size) (pop Size) calls (new_ring any Size)"
  let ?fifo = "queue_calls (fifo_push (unat Size - 1)) fifo_pop calls []"
  from ring.calls_fifo [OF ring_inv_new [OF assms, of any], of calls]
  have inv: "ring_inv Size (snd ?run)" and same: "fst ?run = fst ?fifo" "contents Size (snd ?run) = snd ?fifo"
    by (simp_all add: contents_new)
  from ring_observers [OF inv] full_iff [OF inv] same show ?thesis
    by (intro exI [of _ "fst ?run"] exI [of _ "snd ?run"] exI [of _ "snd ?fifo"]) (simp add: ring_full_def prod_eq_iff)
qed

theorem ring_is_fifo_witness:
  "\<exists>rb. queue_calls (push 4) (pop 4) [PushCall 5, PushCall 6, PushCall 7, PushCall 8, PopCall, PushCall 9, PopCall, PopCall,
      PushCall 3, PopCall, PopCall, PopCall] (new_ring 0 4) =
    ([Pushed True, Pushed True, Pushed True, Pushed False, Popped (Some 5), Pushed True, Popped (Some 6), Popped (Some 7),
      Pushed True, Popped (Some 9), Popped (Some 3), Popped None] :: nat queue_answer list, rb) \<and> ring_empty rb"
proof -
  have "size_ok 4" by (simp add: size_ok_def)
  from ring_is_fifo [OF this, of "[PushCall 5, PushCall 6, PushCall 7, PushCall 8, PopCall, PushCall 9, PopCall, PopCall,
      PushCall 3, PopCall, PopCall, PopCall] :: nat queue_call list" 0]
  show ?thesis by (auto simp: fifo_push_def fifo_pop_def)
qed

section \<open>One producer and one consumer\<close>

text \<open>The program points between the atomic accesses of \<open>push\<close> and \<open>pop\<close>.  The producer has checked
  for room, or has also written the slot; the consumer has seen an element, or has also read
  it.  \<open>sp_pushed\<close> and \<open>sp_popped\<close> record the completed calls.\<close>

datatype 'a producer = PIdle | PChecked 'a | PWritten 'a

datatype 'a consumer = CIdle | CChecked | CRead 'a

record 'a spsc =
  sp_ring :: "'a HPRingBuffer"
  sp_producer :: "'a producer"
  sp_consumer :: "'a consumer"
  sp_pushed :: "'a list"
  sp_popped :: "'a list"

definition spsc_init :: "'a \<Rightarrow> u64 \<Rightarrow> 'a spsc" where
  "spsc_init any Size = \<lparr>sp_ring = new_ring any Size, sp_producer = PIdle, sp_consumer = CIdle,
     sp_pushed = [], sp_popped = []\<rparr>"

inductive spsc_step :: "u64 \<Rightarrow> 'a spsc \<Rightarrow> 'a spsc \<Rightarrow> bool" for Size where
  push_check: "sp_producer s = PIdle \<Longrightarrow>
    increment Size (rb_head (sp_ring s)) \<noteq> rb_tail (sp_ring s) \<Longrightarrow>
    spsc_step Size s (s\<lparr>sp_producer := PChecked x\<rparr>)"
| push_full: "sp_producer s = PIdle \<Longrightarrow>
    increment Size (rb_head (sp_ring s)) = rb_tail (sp_ring s) \<Longrightarrow> spsc_step Size s s"
| push_write: "sp_producer s = PChecked x \<Longrightarrow> rb = sp_ring s \<Longrightarrow>
    spsc_step Size s (s\<lparr>sp_ring := rb\<lparr>rb_buffer := (rb_buffer rb)[unat (rb_head rb) := x]\<rparr>,
      sp_producer := PWritten x\<rparr>)"
| push_store: "sp_producer s = PWritten x \<Longrightarrow> rb = sp_ring s \<Longrightarrow>
    spsc_step Size s (s\<lparr>sp_ring := rb\<lparr>rb_head := increment Size (rb_head rb)\<rparr>,
      sp_producer := PIdle, sp_pushed := sp_pushed s @ [x]\<rparr>)"
| pop_check: "sp_consumer s = CIdle \<Longrightarrow> rb_tail (sp_ring s) \<noteq> rb_head (sp_ring s) \<Longrightarrow>
    spsc_step Size s (s\<lparr>sp_consumer := CChecked\<rparr>)"
| pop_none: "sp_consumer s = CIdle \<Longrightarrow> rb_tail (sp_ring s) = rb_head (sp_ring s) \<Longrightarrow> spsc_step Size s s"
| pop_read: "sp_consumer s = CChecked \<Longrightarrow> rb = sp_ring s \<Longrightarrow>
    spsc_step Size s (s\<lparr>sp_consumer := CRead (rb_buffer rb ! unat (rb_tail rb))\<rparr>)"
| pop_store: "sp_consumer s = CRead x \<Longrightarrow> rb = sp_ring s \<Longrightarrow>
    spsc_step Size s (s\<lparr>sp_ring := rb\<lparr>rb_tail := increment Size (rb_tail rb)\<rparr>,
      sp_consumer := CIdle, sp_popped := sp_popped s @ [x]\<rparr>)"

inductive spsc_reach :: "u64 \<Rightarrow> 'a spsc \<Rightarrow> bool" for Size where
  init: "spsc_reach Size (spsc_init any Size)"
| step: "spsc_reach Size s \<Longrightarrow> spsc_step Size s s' \<Longrightarrow> spsc_reach Size s'"

definition producer_inv :: "u64 \<Rightarrow> 'a spsc \<Rightarrow> bool" where
  "producer_inv Size s \<longleftrightarrow> (case sp_producer s of
       PIdle \<Rightarrow> True
     | PChecked x \<Rightarrow> increment Size (rb_head (sp_ring s)) \<noteq> rb_tail (sp_ring s)
     | PWritten x \<Rightarrow> increment Size (rb_head (sp_ring s)) \<noteq> rb_tail (sp_ring s) \<and>
         rb_buffer (sp_ring s) ! unat (rb_head (sp_ring s)) = x)"

definition consumer_inv :: "'a spsc \<Rightarrow> bool" where
  "consumer_inv s \<longleftrightarrow> (case sp_consumer s of
       CIdle \<Rightarrow> True
     | CChecked \<Rightarrow> rb_tail (sp_ring s) \<noteq> rb_head (sp_ring s)
     | CRead x \<Rightarrow> rb_tail (sp_ring s) \<noteq> rb_head (sp_ring s) \<and>
         rb_buffer (sp_ring s) ! unat (rb_tail (sp_ring s)) = x)"

definition spsc_inv :: "u64 \<Rightarrow> 'a spsc \<Rightarrow> bool" where
  "spsc_inv Size s \<longleftrightarrow> ring_inv Size (sp_ring s) \<and> producer_inv Size s \<and> consumer_inv s \<and>
     sp_pushed s = sp_popped s @ contents Size (sp_ring s)"

lemma increment_moves:
  assumes "ring_inv Size rb" "increment Size (rb_head rb) \<noteq> rb_tail rb" "rb_tail rb \<noteq> rb_head rb"
  shows "rb_tail rb \<noteq> increment Size (rb_head rb)" "increment Size (rb_head rb) \<noteq> increment Size (rb_tail rb)"
proof -
  have *: "unat (increment Size (rb_head rb)) = (unat (rb_head rb) + 1) mod unat Size"
    "unat (increment Size (rb_tail rb)) = (unat (rb_tail rb) + 1) mod unat Size"
    using assms(1) by (intro increment_mod(1); simp add: ring_inv_def)+
  have "(a + 1) mod n \<noteq> (b + 1) mod n" if "a < n" "b < n" "a \<noteq> b" for a b n :: nat
    using that by (cases "a + 1 = n"; cases "b + 1 = n") auto
  from this [OF ring_bounds(1,2) [OF assms(1)]] assms(3)
  show "increment Size (rb_head rb) \<noteq> increment Size (rb_tail rb)"
    by (simp add: word_unat_eq_iff *)
qed (use assms(2) in simp)

lemma spsc_step_inv:
  assumes "spsc_step Size s s'" and "spsc_inv Size s"
  shows "spsc_inv Size s'"
  using assms
proof (induction rule: spsc_step.induct)
  case (push_write s x rb)
  then have inv: "ring_inv Size rb" by (simp add: spsc_inv_def)
  then have "(rb_buffer rb)[unat (rb_head rb) := x] ! unat (rb_head rb) = x"
    using ring_bounds(1) [OF inv] by (simp add: ring_inv_def)
  moreover have "rb_tail rb \<noteq> rb_head rb \<Longrightarrow>
      (rb_buffer rb)[unat (rb_head rb) := x] ! unat (rb_tail rb) = rb_buffer rb ! unat (rb_tail rb)"
    by (simp add: word_unat_eq_iff)
  ultimately show ?case
    using push_write contents_write [OF inv, of x] ring_inv_write(1) [OF inv]
    by (auto simp: spsc_inv_def producer_inv_def consumer_inv_def split: consumer.splits)
next
  case (push_store s x rb)
  then have inv: "ring_inv Size rb" by (simp add: spsc_inv_def)
  have room: "increment Size (rb_head rb) \<noteq> rb_tail rb" "rb_buffer rb ! unat (rb_head rb) = x"
    using push_store by (auto simp: spsc_inv_def producer_inv_def)
  with push_store contents_publish [OF inv room(1)] ring_inv_write(2) [OF inv] show ?case
    by (auto simp: spsc_inv_def producer_inv_def consumer_inv_def split: consumer.splits)
next
  case (pop_store s x rb)
  then have inv: "ring_inv Size rb" by (simp add: spsc_inv_def)
  have some: "rb_tail rb \<noteq> rb_head rb" "rb_buffer rb ! unat (rb_tail rb) = x"
    using pop_store by (auto simp: spsc_inv_def consumer_inv_def)
  have "increment Size (rb_head rb) \<noteq> increment Size (rb_tail rb)"
    if "increment Size (rb_head rb) \<noteq> rb_tail rb"
    by (rule increment_moves(2) [OF inv that some(1)])
  with pop_store contents_release [OF inv some(1)] some(2) ring_inv_write(3) [OF inv] show ?case
    by (auto simp: spsc_inv_def producer_inv_def consumer_inv_def split: producer.splits)
qed (auto simp: spsc_inv_def producer_inv_def consumer_inv_def split: producer.splits consumer.splits)

lemma spsc_reach_inv: "spsc_reach Size s \<Longrightarrow> size_ok Size \<Longrightarrow> spsc_inv Size s"
proof (induction rule: spsc_reach.induct)
  case (init any)
  then show ?case
    by (simp add: spsc_inv_def spsc_init_def ring_inv_new contents_new producer_inv_def consumer_inv_def)
qed (simp add: spsc_step_inv)

text \<open>One producer and one consumer, interleaved at every atomic access, keep the queue.  In every
  reachable state what was popped is a prefix of what was pushed, in the same order and with
  nothing lost or repeated; the rest is in the buffer and at most \<open>Size - 1\<close> long; and when
  both sides are about to touch a slot, the slots differ.\<close>

theorem spsc_fifo:
  assumes "spsc_reach Size s" and "size_ok Size"
  shows "sp_pushed s = sp_popped s @ contents Size (sp_ring s) \<and>
    length (sp_pushed s) - length (sp_popped s) \<le> unat Size - 1 \<and>
    (\<forall>x. sp_producer s = PChecked x \<and> sp_consumer s = CChecked \<longrightarrow>
      unat (rb_head (sp_ring s)) \<noteq> unat (rb_tail (sp_ring s)))"
proof -
  from spsc_reach_inv [OF assms] have inv: "ring_inv Size (sp_ring s)" "consumer_inv s"
    "sp_pushed s = sp_popped s @ contents Size (sp_ring s)" by (simp_all add: spsc_inv_def)
  with contents_bound [OF inv(1)] show ?thesis by (auto simp: consumer_inv_def word_unat_eq_iff)
qed

theorem spsc_fifo_witness:
  "\<exists>s. spsc_reach 4 s \<and> sp_pushed s = [7 :: nat] \<and> sp_popped s @ contents 4 (sp_ring s) = [7]"
proof -
  have ok: "size_ok 4" by (simp add: size_ok_def)
  let ?s0 = "spsc_init (0 :: nat) 4"
  have r1: "spsc_reach 4 (?s0\<lparr>sp_producer := PChecked 7\<rparr>)"
    by (rule spsc_reach.step [OF spsc_reach.init [of 4 0] spsc_step.push_check])
      (simp_all add: spsc_init_def new_ring_def increment_def)
  from spsc_reach.step [OF spsc_reach.step [OF r1 spsc_step.push_write] spsc_step.push_store]
  obtain s where s: "spsc_reach 4 s" "sp_pushed s = [7 :: nat]"
    by (force simp: spsc_init_def)
  with spsc_fifo [OF s(1) ok] show ?thesis by auto
qed

end
