(* ===== verification/Market_Data.thy ===== *)
theory Market_Data
  imports HFT_Types Ring_Buffer
begin

text \<open>
  The dissemination side: \<open>MarketDataEngine\<close> of \<^verbatim>\<open>src/src/market/market_data_engine.h\<close> and
  \<^verbatim>\<open>.cpp\<close>, which throttles, queues and delivers updates through the ring buffer, and the
  callback-only \<open>MarketDataPublisher\<close> of \<^verbatim>\<open>src/src/market/market_data_publisher.h\<close> and
  \<^verbatim>\<open>.cpp\<close>.

  The message union is a datatype with one constructor per value of its type field, which the
  source always sets together with the payload.  Handlers are numbered in the order they
  subscribed, and each invocation is appended to \<open>md_log\<close>.  The readings of the clock are
  arguments.
\<close>

section \<open>Market data engine\<close>

datatype MDUpdateType = SnapshotFull | IncrementalRefresh | TradeReport

datatype MarketDataMessage =
  TobMessage Symbol Timestamp TopOfBook
| DepthMessage Symbol Timestamp DepthSnapshot
| TradeMessage Symbol Timestamp Trade

fun md_type :: "MarketDataMessage \<Rightarrow> MDUpdateType" where
  "md_type (TobMessage s ts tob) = IncrementalRefresh"
| "md_type (DepthMessage s ts depth) = SnapshotFull"
| "md_type (TradeMessage s ts trade) = TradeReport"

datatype HandlerCall = L1Call nat TopOfBook | L2Call nat DepthSnapshot | TradeCall nat Trade

definition MD_QUEUE_CAPACITY :: u64 where
  "MD_QUEUE_CAPACITY = 16384"

record MarketDataEngine =
  throttle_ns :: u64
  l2_depth :: nat
  last_publish_time :: "Symbol \<Rightarrow> Timestamp option"
  md_queue :: "MarketDataMessage HPRingBuffer"
  l1_handlers :: nat
  l2_handlers :: nat
  trade_handlers :: nat
  messages_published :: u64
  messages_throttled :: u64
  md_log :: "HandlerCall list"

definition new_md_engine :: "MarketDataMessage \<Rightarrow> MarketDataEngine" where
  "new_md_engine any = \<lparr>throttle_ns = 0, l2_depth = 10, last_publish_time = (\<lambda>_. None),
     md_queue = new_ring any MD_QUEUE_CAPACITY, l1_handlers = 0, l2_handlers = 0,
     trade_handlers = 0, messages_published = 0, messages_throttled = 0, md_log = []\<rparr>"

definition set_throttle_interval_ns :: "u64 \<Rightarrow> MarketDataEngine \<Rightarrow> MarketDataEngine" where
  "set_throttle_interval_ns ns e = e\<lparr>throttle_ns := ns\<rparr>"

definition set_l2_depth :: "nat \<Rightarrow> MarketDataEngine \<Rightarrow> MarketDataEngine" where
  "set_l2_depth depth e = e\<lparr>l2_depth := depth\<rparr>"

definition subscribe_l1 :: "MarketDataEngine \<Rightarrow> MarketDataEngine" where
  "subscribe_l1 e = e\<lparr>l1_handlers := l1_handlers e + 1\<rparr>"

definition subscribe_l2 :: "MarketDataEngine \<Rightarrow> MarketDataEngine" where
  "subscribe_l2 e = e\<lparr>l2_handlers := l2_handlers e + 1\<rparr>"

definition subscribe_trades :: "MarketDataEngine \<Rightarrow> MarketDataEngine" where
  "subscribe_trades e = e\<lparr>trade_handlers := trade_handlers e + 1\<rparr>"

definition should_throttle :: "Symbol \<Rightarrow> Timestamp \<Rightarrow> MarketDataEngine \<Rightarrow> bool \<times> MarketDataEngine" where
  "should_throttle symbol ts e =
     (if throttle_ns e = 0 then (False, e)
      else case last_publish_time e symbol of
        None \<Rightarrow> (False, e\<lparr>last_publish_time := (last_publish_time e)(symbol \<mapsto> ts)\<rparr>)
      | Some prev \<Rightarrow>
          if ts - prev < throttle_ns e then (True, e)
          else (False, e\<lparr>last_publish_time := (last_publish_time e)(symbol \<mapsto> ts)\<rparr>))"

definition enqueue :: "MarketDataMessage \<Rightarrow> MarketDataEngine \<Rightarrow> MarketDataEngine" where
  "enqueue msg e = e\<lparr>md_queue := snd (push MD_QUEUE_CAPACITY msg (md_queue e))\<rparr>"

definition count_throttled :: "MarketDataEngine \<Rightarrow> MarketDataEngine" where
  "count_throttled e = e\<lparr>messages_throttled := messages_throttled e + 1\<rparr>"

definition on_tob_update :: "Timestamp \<Rightarrow> TopOfBook \<Rightarrow> MarketDataEngine \<Rightarrow> MarketDataEngine" where
  "on_tob_update ts tob e =
     (case should_throttle (tob_symbol tob) ts e of (throttled, e) \<Rightarrow>
        if throttled then count_throttled e else enqueue (TobMessage (tob_symbol tob) ts tob) e)"

definition on_depth_update :: "Timestamp \<Rightarrow> DepthSnapshot \<Rightarrow> MarketDataEngine \<Rightarrow> MarketDataEngine" where
  "on_depth_update ts depth e =
     (case should_throttle (dep_symbol depth) ts e of (throttled, e) \<Rightarrow>
        if throttled then count_throttled e else enqueue (DepthMessage (dep_symbol depth) ts depth) e)"

definition md_on_trade :: "Timestamp \<Rightarrow> Trade \<Rightarrow> MarketDataEngine \<Rightarrow> MarketDataEngine" where
  "md_on_trade ts trade e = enqueue (TradeMessage (trd_symbol trade) ts trade) e"

text \<open>The body of the delivery loop.\<close>

fun handler_calls :: "MarketDataMessage \<Rightarrow> MarketDataEngine \<Rightarrow> HandlerCall list" where
  "handler_calls (TobMessage s ts tob) e = map (\<lambda>i. L1Call i tob) [0..<l1_handlers e]"
| "handler_calls (DepthMessage s ts depth) e = map (\<lambda>i. L2Call i depth) [0..<l2_handlers e]"
| "handler_calls (TradeMessage s ts trade) e = map (\<lambda>i. TradeCall i trade) [0..<trade_handlers e]"

definition deliver :: "MarketDataMessage \<Rightarrow> MarketDataEngine \<Rightarrow> MarketDataEngine" where
  "deliver msg e = e\<lparr>messages_published := messages_published e + 1,
     md_log := md_log e @ handler_calls msg e\<rparr>"

definition process_pending :: "MarketDataEngine \<Rightarrow> MarketDataEngine option" where
  "process_pending e =
     (case drain (pop MD_QUEUE_CAPACITY) deliver (md_queue e) e of
        None \<Rightarrow> None
      | Some (q, e') \<Rightarrow> Some (e'\<lparr>md_queue := q\<rparr>))"

section \<open>Delivery\<close>

definition md_pending :: "MarketDataEngine \<Rightarrow> MarketDataMessage list" where
  "md_pending e = contents MD_QUEUE_CAPACITY (md_queue e)"

definition md_inv :: "MarketDataEngine \<Rightarrow> bool" where
  "md_inv e \<longleftrightarrow> ring_inv MD_QUEUE_CAPACITY (md_queue e)"

lemma md_size_ok: "size_ok MD_QUEUE_CAPACITY"
  by (simp add: size_ok_def MD_QUEUE_CAPACITY_def)

lemma md_inv_new: "md_inv (new_md_engine any)" "md_pending (new_md_engine any) = []"
  by (simp_all add: md_inv_def md_pending_def new_md_engine_def ring_inv_new md_size_ok contents_new)

lemma throttle_frame [simp]:
  "md_queue (snd (should_throttle s ts e)) = md_queue e"
  "throttle_ns (snd (should_throttle s ts e)) = throttle_ns e"
  "messages_throttled (snd (should_throttle s ts e)) = messages_throttled e"
  by (simp_all add: should_throttle_def split: option.split)

lemma enqueue_frame [simp]:
  "throttle_ns (enqueue msg e) = throttle_ns e" "last_publish_time (enqueue msg e) = last_publish_time e"
  "throttle_ns (count_throttled e) = throttle_ns e"
  "last_publish_time (count_throttled e) = last_publish_time e"
  "md_queue (count_throttled e) = md_queue e"
  by (simp_all add: enqueue_def count_throttled_def)

lemma deliver_fold:
  "fold deliver msgs e = e\<lparr>messages_published := messages_published e + word_of_nat (length msgs),
     md_log := md_log e @ concat (map (\<lambda>msg. handler_calls msg e) msgs)\<rparr>"
proof (induction msgs arbitrary: e)
  case (Cons msg msgs)
  have "handler_calls m (deliver msg e) = handler_calls m e" for m
    by (cases m) (simp_all add: deliver_def)
  then show ?case by (simp add: Cons.IH) (simp add: deliver_def add.assoc)
qed simp

text \<open>C34. Delivery.  The publisher's loop ends; it calls, for every queued message in queue order,
  each handler subscribed to its kind in the order of subscription, counts every message, and
  leaves the queue empty.\<close>

theorem pending_all_delivered:
  assumes "md_inv e"
  shows "\<exists>e'. process_pending e = Some e' \<and> md_pending e' = [] \<and>
    md_log e' = md_log e @ concat (map (\<lambda>msg. handler_calls msg e) (md_pending e)) \<and>
    messages_published e' = messages_published e + word_of_nat (length (md_pending e))"
proof -
  from ring.drain_all [OF assms [unfolded md_inv_def], of deliver e] obtain q where
    "drain (pop MD_QUEUE_CAPACITY) deliver (md_queue e) e =
      Some (q, fold deliver (md_pending e) e)" "contents MD_QUEUE_CAPACITY q = []"
    by (auto simp: md_pending_def)
  then show ?thesis by (simp add: process_pending_def deliver_fold md_pending_def)
qed

definition demo_trade :: Trade where
  "demo_trade = \<lparr>trd_trade_id = 1, trd_resting_id = 1, trd_incoming_id = 2, trd_resting_trader = 8,
     trd_incoming_trader = 9, trd_symbol = default_symbol, trd_aggressor_side = Buy, trd_price = 101,
     trd_qty = 4, trd_match_timestamp_ns = 5\<rparr>"

lemma md_on_trade_pending:
  assumes "md_inv e" "length (md_pending e) < 16383"
  shows "md_inv (md_on_trade ts trade e)"
    and "md_pending (md_on_trade ts trade e) = md_pending e @ [TradeMessage (trd_symbol trade) ts trade]"
  using assms ring.push_inv [of MD_QUEUE_CAPACITY "md_queue e" "TradeMessage (trd_symbol trade) ts trade"]
    ring.push_room [of MD_QUEUE_CAPACITY "md_queue e" "TradeMessage (trd_symbol trade) ts trade"]
  by (simp_all add: md_on_trade_def enqueue_def md_inv_def md_pending_def MD_QUEUE_CAPACITY_def)

theorem pending_all_delivered_witness:
  "\<exists>e'. process_pending (md_on_trade 5 demo_trade (subscribe_trades
      (new_md_engine (TradeMessage default_symbol 0 demo_trade)))) = Some e' \<and>
    md_log e' = [TradeCall 0 demo_trade]"
proof -
  let ?e = "subscribe_trades (new_md_engine (TradeMessage default_symbol 0 demo_trade))"
  have "md_inv ?e" "md_pending ?e = []"
    using md_inv_new by (simp_all add: subscribe_trades_def md_inv_def md_pending_def)
  then have "md_inv (md_on_trade 5 demo_trade ?e)"
    "md_pending (md_on_trade 5 demo_trade ?e) = [TradeMessage default_symbol 5 demo_trade]"
    using md_on_trade_pending [of ?e] by (simp_all add: demo_trade_def)
  from pending_all_delivered [OF this(1)] this(2) show ?thesis
    by (auto simp: md_on_trade_def enqueue_def subscribe_trades_def new_md_engine_def)
qed

section \<open>Throttling\<close>

datatype MDEvent = TobUpdate Timestamp TopOfBook | DepthUpdate Timestamp DepthSnapshot | TradeUpdate Timestamp Trade

fun md_step :: "MDEvent \<Rightarrow> MarketDataEngine \<Rightarrow> MarketDataEngine" where
  "md_step (TobUpdate ts tob) e = on_tob_update ts tob e"
| "md_step (DepthUpdate ts depth) e = on_depth_update ts depth e"
| "md_step (TradeUpdate ts trade) e = md_on_trade ts trade e"

text \<open>The symbol and the time of an update that is subject to throttling.\<close>

fun throttle_key :: "MDEvent \<Rightarrow> (Symbol \<times> Timestamp) option" where
  "throttle_key (TobUpdate ts tob) = Some (tob_symbol tob, ts)"
| "throttle_key (DepthUpdate ts depth) = Some (dep_symbol depth, ts)"
| "throttle_key (TradeUpdate ts trade) = None"

text \<open>The times at which updates of a symbol, L1 or L2, passed the throttle.\<close>

fun passed :: "Symbol \<Rightarrow> MDEvent list \<Rightarrow> MarketDataEngine \<Rightarrow> Timestamp list" where
  "passed s [] e = []"
| "passed s (ev # evs) e =
     (case throttle_key ev of
        Some (s', ts) \<Rightarrow>
          if s' = s \<and> \<not> fst (should_throttle s ts e) then ts # passed s evs (md_step ev e)
          else passed s evs (md_step ev e)
      | None \<Rightarrow> passed s evs (md_step ev e))"

lemma md_step_throttle [simp]: "throttle_ns (md_step ev e) = throttle_ns e"
  by (cases ev) (simp_all add: on_tob_update_def on_depth_update_def md_on_trade_def case_prod_unfold)

lemma md_step_last:
  "last_publish_time (md_step ev e) = (case throttle_key ev of
     Some (s, ts) \<Rightarrow> last_publish_time (snd (should_throttle s ts e)) | None \<Rightarrow> last_publish_time e)"
  by (cases ev) (simp_all add: on_tob_update_def on_depth_update_def md_on_trade_def case_prod_unfold)

lemma should_throttle_last:
  assumes "throttle_ns e \<noteq> 0"
  shows "last_publish_time (snd (should_throttle s ts e)) s' =
      (if s' = s \<and> \<not> fst (should_throttle s ts e) then Some ts else last_publish_time e s')"
    and "\<not> fst (should_throttle s ts e) \<Longrightarrow> last_publish_time e s = Some prev \<Longrightarrow> throttle_ns e \<le> ts - prev"
  using assms by (auto simp: should_throttle_def not_less split: option.splits if_splits)

text \<open>The readings of the clock at which updates of a symbol arrive.\<close>

definition arrivals :: "Symbol \<Rightarrow> MDEvent list \<Rightarrow> Timestamp list" where
  "arrivals s evs = map snd (filter (\<lambda>(s', ts). s' = s) (List.map_filter throttle_key evs))"

lemma arrivals_simps [simp]:
  "arrivals s [] = []"
  "arrivals s (ev # evs) = (case throttle_key ev of
     Some (s', ts) \<Rightarrow> if s' = s then ts # arrivals s evs else arrivals s evs | None \<Rightarrow> arrivals s evs)"
  by (simp_all add: arrivals_def map_filter_simps split: option.split)

text \<open>Throttling as it is meant: a time passes if it is an interval \<open>d\<close> or more after the last that passed.\<close>

fun spaced_out :: "nat \<Rightarrow> nat option \<Rightarrow> nat list \<Rightarrow> nat list" where
  "spaced_out d prev [] = []"
| "spaced_out d prev (t # ts) =
     (if (case prev of None \<Rightarrow> True | Some p \<Rightarrow> p + d \<le> t) then t # spaced_out d (Some t) ts else spaced_out d prev ts)"

lemma spaced_out_after: "t \<in> set (spaced_out d (Some p) ts) \<Longrightarrow> p + d \<le> t"
  by (induction d "Some p" ts arbitrary: p rule: spaced_out.induct) (auto split: if_splits)

lemma spaced_out_sorted: "sorted_wrt (\<lambda>t u. t + d \<le> u) (spaced_out d prev ts)"
  by (induction d prev ts rule: spaced_out.induct) (auto dest: spaced_out_after)

lemma throttle_gap:
  "throttle_ns e \<noteq> 0 \<Longrightarrow> (case last_publish_time e s of None \<Rightarrow> True | Some p \<Rightarrow> p \<le> ts) \<Longrightarrow>
    fst (should_throttle s ts e) \<longleftrightarrow> \<not> (case map_option unat (last_publish_time e s) of
      None \<Rightarrow> True | Some p \<Rightarrow> p + unat (throttle_ns e) \<le> unat ts)"
  by (auto simp: should_throttle_def word_less_nat_alt word_le_nat_alt unat_sub split: option.splits)

lemma passed_spaced_out:
  assumes "throttle_ns e \<noteq> 0"
    and "sorted ((case last_publish_time e s of None \<Rightarrow> [] | Some t \<Rightarrow> [t]) @ arrivals s evs)"
  shows "map unat (passed s evs e) =
    spaced_out (unat (throttle_ns e)) (map_option unat (last_publish_time e s)) (map unat (arrivals s evs))"
  using assms
proof (induction evs arbitrary: e)
  case (Cons ev evs)
  note IH = Cons.IH [of "md_step ev e", simplified, OF Cons.prems(1)]
  show ?case
  proof (cases "throttle_key ev")
    case None
    with IH Cons.prems(2) show ?thesis by (simp add: md_step_last)
  next
    case (Some k)
    then obtain s' ts where k: "throttle_key ev = Some (s', ts)" by (cases k) simp
    note last = md_step_last [of ev e, unfolded k option.case prod.case should_throttle_last(1) [OF Cons.prems(1)]]
    show ?thesis
    proof (cases "s' = s")
      case True
      have "case last_publish_time e s of None \<Rightarrow> True | Some p \<Rightarrow> p \<le> ts"
        using Cons.prems(2) by (simp add: k True split: option.splits)
      from throttle_gap [OF Cons.prems(1) this] IH Cons.prems(2) show ?thesis
        by (auto simp: k True last md_step_last should_throttle_last(1) [OF Cons.prems(1)] split: option.splits)
    next
      case False
      with IH Cons.prems(2) show ?thesis
        by (simp add: k md_step_last should_throttle_last(1) [OF Cons.prems(1)])
    qed
  qed
qed simp

text \<open>C35. Throttling.  As long as the clock does not go back, the updates of a symbol that pass the
  throttle, top of book or depth, are exactly those that arrive an interval or more after the last
  one that passed.  So any two of them are at least the interval apart, and no update is held back
  without one that passed less than an interval before.\<close>

theorem throttle_spacing:
  assumes "throttle_ns e \<noteq> 0"
    and "sorted ((case last_publish_time e s of None \<Rightarrow> [] | Some t \<Rightarrow> [t]) @ arrivals s evs)"
  shows "map unat (passed s evs e) =
      spaced_out (unat (throttle_ns e)) (map_option unat (last_publish_time e s)) (map unat (arrivals s evs)) \<and>
    sorted_wrt (\<lambda>t u. unat t + unat (throttle_ns e) \<le> unat u) (passed s evs e)"
proof -
  note eq = passed_spaced_out [OF assms]
  have "sorted_wrt (\<lambda>t u. t + unat (throttle_ns e) \<le> u) (map unat (passed s evs e))"
    unfolding eq by (rule spaced_out_sorted)
  then have "sorted_wrt (\<lambda>t u. unat t + unat (throttle_ns e) \<le> unat u) (passed s evs e)" by (simp add: sorted_wrt_map)
  with eq show ?thesis by (rule conjI)
qed

theorem throttle_spacing_witness:
  "map unat (passed default_symbol [TobUpdate 10 default_tob, DepthUpdate 12 default_depth, TobUpdate 15 default_tob]
      (set_throttle_interval_ns 5 (new_md_engine (TradeMessage default_symbol 0 demo_trade)))) = [10, 15]"
proof -
  let ?e = "set_throttle_interval_ns 5 (new_md_engine (TradeMessage default_symbol 0 demo_trade))"
  let ?evs = "[TobUpdate 10 default_tob, DepthUpdate 12 default_depth, TobUpdate 15 default_tob]"
  have e: "throttle_ns ?e = 5" "last_publish_time ?e default_symbol = None"
    by (simp_all add: set_throttle_interval_ns_def new_md_engine_def)
  have arr: "arrivals default_symbol ?evs = [10, 12, 15]" by (simp add: default_tob_def default_depth_def)
  from throttle_spacing [of ?e default_symbol ?evs] show ?thesis unfolding arr e by simp
qed

text \<open>When the clock goes back, which \<open>set_time\<close> and \<open>reset\<close> of a simulated clock allow, the unsigned
  difference wraps around and the update passes at once.\<close>

theorem throttle_wraps:
  assumes "last_publish_time e s = Some prev" and "ts < prev"
    and "unat prev - unat ts + unat (throttle_ns e) \<le> 2 ^ 64"
  shows "\<not> fst (should_throttle s ts e)"
proof -
  have "unat (ts - prev) = 2 ^ 64 - (unat prev - unat ts)"
    using assms(2) unsigned_less [of prev, where ?'a = nat] by (simp add: unat_sub_if_size word_less_nat_alt word_size)
  moreover have "unat prev < 2 ^ 64" using unsigned_less [of prev, where ?'a = nat] by simp
  ultimately have "unat (throttle_ns e) \<le> unat (ts - prev)" using assms(3) by linarith
  with assms(1) show ?thesis by (simp add: should_throttle_def word_less_nat_alt)
qed

theorem throttle_wraps_witness:
  "passed default_symbol [TobUpdate 100 default_tob, TobUpdate 99 default_tob]
      (set_throttle_interval_ns 50 (new_md_engine (TradeMessage default_symbol 0 demo_trade))) = [100, 99]"
proof -
  let ?e = "set_throttle_interval_ns 50 (new_md_engine (TradeMessage default_symbol 0 demo_trade))"
  let ?e' = "md_step (TobUpdate 100 default_tob) ?e"
  have e: "throttle_ns ?e = 50" "last_publish_time ?e default_symbol = None"
    by (simp_all add: set_throttle_interval_ns_def new_md_engine_def)
  then have pass: "\<not> fst (should_throttle default_symbol 100 ?e)" by (simp add: should_throttle_def)
  have sym: "tob_symbol default_tob = default_symbol" by (simp add: default_tob_def)
  have "last_publish_time ?e' default_symbol = Some 100"
    using pass e(1) by (simp add: md_step_last should_throttle_last(1) sym del: md_step.simps)
  moreover have "throttle_ns ?e' = 50" by (simp only: md_step_throttle e(1))
  ultimately have "\<not> fst (should_throttle default_symbol 99 ?e')"
    by (intro throttle_wraps [of _ _ 100]) simp_all
  with pass sym show ?thesis by (simp del: md_step.simps)
qed

text \<open>A depth update at the clock reading of a top-of-book update of its symbol is only counted.\<close>

lemma depth_after_tob:
  assumes "throttle_ns e \<noteq> 0" and "dep_symbol depth = tob_symbol tob"
  shows "on_depth_update ts depth (on_tob_update ts tob e) = count_throttled (on_tob_update ts tob e)"
proof -
  let ?e = "on_tob_update ts tob e"
  have last: "last_publish_time ?e (tob_symbol tob) =
      (if fst (should_throttle (tob_symbol tob) ts e) then last_publish_time e (tob_symbol tob) else Some ts)"
    using md_step_last [of "TobUpdate ts tob" e]
    by (simp add: should_throttle_last(1) [OF assms(1)])
  have thr: "throttle_ns ?e = throttle_ns e" using md_step_throttle [of "TobUpdate ts tob" e] by simp
  have "should_throttle (tob_symbol tob) ts ?e = (True, ?e)"
  proof (cases "fst (should_throttle (tob_symbol tob) ts e)")
    case True
    then have "last_publish_time ?e (tob_symbol tob) = last_publish_time e (tob_symbol tob)" by (simp add: last)
    moreover from True obtain prev where "last_publish_time e (tob_symbol tob) = Some prev"
      "ts - prev < throttle_ns e"
      by (auto simp: should_throttle_def split: if_splits option.splits)
    ultimately show ?thesis using assms(1) thr by (simp add: should_throttle_def)
  next
    case False
    with last thr assms(1) show ?thesis by (simp add: should_throttle_def word_gt_0)
  qed
  then show ?thesis by (simp add: on_depth_update_def [of _ _ ?e] assms(2))
qed

text \<open>The shared throttle starves the depth feed.  With any throttle interval set, a depth update
  of a symbol that arrives at the same clock reading as a top-of-book update of it, which is
  how one matching-engine command produces them, is always dropped.\<close>

theorem depth_starved:
  assumes "throttle_ns e \<noteq> 0" and "dep_symbol depth = tob_symbol tob"
  shows "md_pending (on_depth_update ts depth (on_tob_update ts tob e)) = md_pending (on_tob_update ts tob e)"
  by (simp add: depth_after_tob [OF assms] md_pending_def)

theorem depth_starved_witness:
  "md_pending (on_depth_update 9 default_depth (on_tob_update 9 default_tob
     (set_throttle_interval_ns 5 (new_md_engine (TradeMessage default_symbol 0 demo_trade))))) =
   md_pending (on_tob_update 9 default_tob
     (set_throttle_interval_ns 5 (new_md_engine (TradeMessage default_symbol 0 demo_trade))))"
  by (rule depth_starved)
    (simp_all add: set_throttle_interval_ns_def new_md_engine_def default_depth_def default_tob_def)

section \<open>Market data publisher\<close>

datatype PublisherCall =
  PubTop TopOfBook | PubTrade Trade | PubDepth string "BookLevel list" "BookLevel list"

record MarketDataPublisher =
  tob_handler :: bool
  trade_handler :: bool
  depth_handler :: bool

definition onTopOfBook :: "MarketDataPublisher \<Rightarrow> MarketDataPublisher" where
  "onTopOfBook p = p\<lparr>tob_handler := True\<rparr>"

definition onTrade :: "MarketDataPublisher \<Rightarrow> MarketDataPublisher" where
  "onTrade p = p\<lparr>trade_handler := True\<rparr>"

definition onDepthSnapshot :: "MarketDataPublisher \<Rightarrow> MarketDataPublisher" where
  "onDepthSnapshot p = p\<lparr>depth_handler := True\<rparr>"

text \<open>The calls a publication makes.\<close>

definition publishTopOfBook :: "TopOfBook \<Rightarrow> MarketDataPublisher \<Rightarrow> PublisherCall list" where
  "publishTopOfBook tob p = (if tob_handler p then [PubTop tob] else [])"

definition publishTrade :: "Trade \<Rightarrow> MarketDataPublisher \<Rightarrow> PublisherCall list" where
  "publishTrade t p = (if trade_handler p then [PubTrade t] else [])"

definition publishDepth ::
  "string \<Rightarrow> BookLevel list \<Rightarrow> BookLevel list \<Rightarrow> MarketDataPublisher \<Rightarrow> PublisherCall list" where
  "publishDepth symbol bids asks p = (if depth_handler p then [PubDepth symbol bids asks] else [])"

end
