(* ===== verification/Trade_Engine.thy ===== *)
theory Trade_Engine
  imports HFT_Types Binary64 "HOL-Library.AList"
begin

unbundle bit_operations_syntax

text \<open>
  The trade engine of \<^verbatim>\<open>src/src/market/trade_engine.h\<close> and \<^verbatim>\<open>trade_engine.cpp\<close>: positions per
  trader and symbol, realised and unrealised profit, and the totals.

  Doubles are real numbers with the rounding \<open>dbl\<close> of every operation and conversion, and \<open>None\<close>
  for the results of a division by zero (an infinity or a NaN), which every later operation on
  them keeps.  The
  unordered map of positions is an association list with distinct keys; its order is the
  model's choice, and no theorem depends on it.  Callback invocations are appended to
  \<open>te_log\<close>.
\<close>

section \<open>Doubles\<close>

type_synonym double = "real option"

definition lift_double :: "(real \<Rightarrow> real \<Rightarrow> real) \<Rightarrow> double \<Rightarrow> double \<Rightarrow> double" where
  "lift_double f a b = (case (a, b) of (Some x, Some y) \<Rightarrow> Some (f x y) | _ \<Rightarrow> None)"

definition dadd :: "double \<Rightarrow> double \<Rightarrow> double" where "dadd = lift_double (\<lambda>x y. dbl (x + y))"
definition dsub :: "double \<Rightarrow> double \<Rightarrow> double" where "dsub = lift_double (\<lambda>x y. dbl (x - y))"
definition dmul :: "double \<Rightarrow> double \<Rightarrow> double" where "dmul = lift_double (\<lambda>x y. dbl (x * y))"

definition ddiv :: "double \<Rightarrow> double \<Rightarrow> double" where
  "ddiv a b = (if b = Some 0 then None else lift_double (\<lambda>x y. dbl (x / y)) a b)"

definition to_double :: "int \<Rightarrow> double" where
  "to_double n = Some (dbl (real_of_int n))"

lemma double_simps [simp]:
  "dadd (Some x) (Some y) = Some (dbl (x + y))" "dsub (Some x) (Some y) = Some (dbl (x - y))"
  "dmul (Some x) (Some y) = Some (dbl (x * y))" "y \<noteq> 0 \<Longrightarrow> ddiv (Some x) (Some y) = Some (dbl (x / y))"
  "ddiv a (Some 0) = None"
  by (simp_all add: dadd_def dsub_def dmul_def ddiv_def lift_double_def)

section \<open>State and operations\<close>

record Position =
  pos_symbol :: Symbol
  net_qty :: Quantity
  buy_qty :: Quantity
  sell_qty :: Quantity
  avg_buy_price :: double
  avg_sell_price :: double
  realized_pnl :: double
  unrealized_pnl :: double

definition new_position :: Position where
  "new_position = \<lparr>pos_symbol = default_symbol, net_qty = 0, buy_qty = 0, sell_qty = 0,
     avg_buy_price = Some 0, avg_sell_price = Some 0, realized_pnl = Some 0, unrealized_pnl = Some 0\<rparr>"

type_synonym TraderSymbolKey = "TraderId \<times> Symbol"

text \<open>The hash of a key; \<open>std_hash\<close> is \<^verbatim>\<open>std::hash\<close> on 64-bit integers, which the standard leaves open.\<close>

definition trader_symbol_hash :: "(TraderId \<Rightarrow> u64) \<Rightarrow> TraderSymbolKey \<Rightarrow> u64" where
  "trader_symbol_hash std_hash k = std_hash (fst k) XOR push_bit 1 (symbol_hash (snd k))"

datatype TradeEngineCall = TradeCb Trade | PositionCb TraderId Position

record TradeEngine =
  positions :: "(TraderSymbolKey \<times> Position) list"
  te_trade_cb :: bool
  te_position_cb :: bool
  te_total_trades :: u64
  te_total_volume :: Quantity
  te_total_notional :: double
  te_log :: "TradeEngineCall list"

definition new_trade_engine :: TradeEngine where
  "new_trade_engine = \<lparr>positions = [], te_trade_cb = False, te_position_cb = False, te_total_trades = 0,
     te_total_volume = 0, te_total_notional = Some 0, te_log = []\<rparr>"

definition te_on_trade :: "TradeEngine \<Rightarrow> TradeEngine" where
  "te_on_trade e = e\<lparr>te_trade_cb := True\<rparr>"

definition te_on_position :: "TradeEngine \<Rightarrow> TradeEngine" where
  "te_on_position e = e\<lparr>te_position_cb := True\<rparr>"

text \<open>The two branches of \<open>update_position\<close> on the position of the key.\<close>

definition fill_buy :: "Quantity \<Rightarrow> Price \<Rightarrow> Position \<Rightarrow> Position" where
  "fill_buy qty price p =
     (let fill_price = to_double price; fill_qty = to_double qty;
          p = (if net_qty p < 0
               then let close_qty = min qty (i64 (- net_qty p))
                    in p\<lparr>realized_pnl := dadd (realized_pnl p)
                          (dmul (to_double close_qty) (dsub (avg_sell_price p) fill_price))\<rparr>
               else p);
          p = (if net_qty p \<ge> 0
               then let old_cost = dmul (avg_buy_price p) (to_double (buy_qty p));
                        bought = i64 (buy_qty p + qty)
                    in p\<lparr>buy_qty := bought,
                         avg_buy_price := ddiv (dadd old_cost (dmul fill_price fill_qty)) (to_double bought)\<rparr>
               else p)
      in p\<lparr>net_qty := i64 (net_qty p + qty)\<rparr>)"

definition fill_sell :: "Quantity \<Rightarrow> Price \<Rightarrow> Position \<Rightarrow> Position" where
  "fill_sell qty price p =
     (let fill_price = to_double price; fill_qty = to_double qty;
          p = (if net_qty p > 0
               then let close_qty = min qty (net_qty p)
                    in p\<lparr>realized_pnl := dadd (realized_pnl p)
                          (dmul (to_double close_qty) (dsub fill_price (avg_buy_price p)))\<rparr>
               else p);
          p = (if net_qty p \<le> 0
               then let old_cost = dmul (avg_sell_price p) (to_double (sell_qty p));
                        sold = i64 (sell_qty p + qty)
                    in p\<lparr>sell_qty := sold,
                         avg_sell_price := ddiv (dadd old_cost (dmul fill_price fill_qty)) (to_double sold)\<rparr>
               else p)
      in p\<lparr>net_qty := i64 (net_qty p - qty)\<rparr>)"

fun fill_position :: "Side \<Rightarrow> Quantity \<Rightarrow> Price \<Rightarrow> Position \<Rightarrow> Position" where
  "fill_position Buy qty price p = fill_buy qty price p"
| "fill_position Sell qty price p = fill_sell qty price p"

definition position_at :: "TraderSymbolKey \<Rightarrow> TradeEngine \<Rightarrow> Position" where
  "position_at key e = (case map_of (positions e) key of None \<Rightarrow> new_position | Some p \<Rightarrow> p)"

definition update_position ::
  "TraderId \<Rightarrow> Symbol \<Rightarrow> Side \<Rightarrow> Quantity \<Rightarrow> Price \<Rightarrow> TradeEngine \<Rightarrow> TradeEngine" where
  "update_position trader_id symbol side qty price e =
     (let key = (trader_id, symbol);
          pos = fill_position side qty price ((position_at key e)\<lparr>pos_symbol := symbol\<rparr>);
          e = e\<lparr>positions := AList.update key pos (positions e)\<rparr>
      in if te_position_cb e then e\<lparr>te_log := te_log e @ [PositionCb trader_id pos]\<rparr> else e)"

definition process_trade :: "Trade \<Rightarrow> TradeEngine \<Rightarrow> TradeEngine" where
  "process_trade trade e =
     (let e = e\<lparr>te_total_trades := te_total_trades e + 1,
                te_total_volume := i64 (te_total_volume e + trd_qty trade),
                te_total_notional := dadd (te_total_notional e)
                  (dmul (to_double (trd_qty trade)) (to_double (trd_price trade)))\<rparr>;
          e = update_position (trd_incoming_trader trade) (trd_symbol trade) (trd_aggressor_side trade)
                (trd_qty trade) (trd_price trade) e;
          passive_side = (if trd_aggressor_side trade = Buy then Sell else Buy);
          e = update_position (trd_resting_trader trade) (trd_symbol trade) passive_side
                (trd_qty trade) (trd_price trade) e
      in if te_trade_cb e then e\<lparr>te_log := te_log e @ [TradeCb trade]\<rparr> else e)"

definition te_get_position :: "TraderId \<Rightarrow> Symbol \<Rightarrow> TradeEngine \<Rightarrow> Position option" where
  "te_get_position trader_id symbol e = map_of (positions e) (trader_id, symbol)"

definition get_positions :: "TraderId \<Rightarrow> TradeEngine \<Rightarrow> Position list" where
  "get_positions trader_id e = map snd (filter (\<lambda>(key, pos). fst key = trader_id) (positions e))"

definition mark_position :: "Price \<Rightarrow> Position \<Rightarrow> Position" where
  "mark_position current_price p =
     (if net_qty p > 0
      then p\<lparr>unrealized_pnl := dmul (to_double (net_qty p)) (dsub (to_double current_price) (avg_buy_price p))\<rparr>
      else if net_qty p < 0
      then p\<lparr>unrealized_pnl :=
               dmul (to_double (i64 (- net_qty p))) (dsub (avg_sell_price p) (to_double current_price))\<rparr>
      else p\<lparr>unrealized_pnl := Some 0\<rparr>)"

definition mark_to_market :: "Symbol \<Rightarrow> Price \<Rightarrow> TradeEngine \<Rightarrow> TradeEngine" where
  "mark_to_market symbol current_price e = e\<lparr>positions :=
     map (\<lambda>(key, pos). (key, if snd key = symbol then mark_position current_price pos else pos)) (positions e)\<rparr>"

section \<open>Positions and trades\<close>

definition te_inv :: "TradeEngine \<Rightarrow> bool" where
  "te_inv e \<longleftrightarrow> distinct (map fst (positions e))"

inductive te_reach :: "TradeEngine \<Rightarrow> bool" where
  new: "te_reach new_trade_engine"
| trade: "te_reach e \<Longrightarrow> te_reach (process_trade t e)"
| mark: "te_reach e \<Longrightarrow> te_reach (mark_to_market s px e)"
| on_trade: "te_reach e \<Longrightarrow> te_reach (te_on_trade e)"
| on_position: "te_reach e \<Longrightarrow> te_reach (te_on_position e)"

lemma fill_position_net:
  "net_qty (fill_position sd qty price p) = i64 (net_qty p + (case sd of Buy \<Rightarrow> qty | Sell \<Rightarrow> - qty))"
  by (cases sd) (simp_all add: fill_buy_def fill_sell_def Let_def)

lemma mark_position_net [simp]: "net_qty (mark_position px p) = net_qty p"
  by (simp add: mark_position_def)

lemma update_position_positions:
  "positions (update_position tid s sd q px e) =
     AList.update (tid, s) (fill_position sd q px ((position_at (tid, s) e)\<lparr>pos_symbol := s\<rparr>)) (positions e)"
  by (simp add: update_position_def Let_def)

lemma update_position_inv: "te_inv e \<Longrightarrow> te_inv (update_position tid s sd q px e)"
  by (simp add: te_inv_def update_position_positions distinct_update)

text \<open>The sum of the net positions in a symbol.\<close>

definition net_total :: "Symbol \<Rightarrow> (TraderSymbolKey \<times> Position) list \<Rightarrow> int" where
  "net_total s al = sum_list (map (\<lambda>(key, pos). if snd key = s then net_qty pos else 0) al)"

lemma net_total_simps [simp]:
  "net_total s [] = 0"
  "net_total s ((key, pos) # al) = (if snd key = s then net_qty pos else 0) + net_total s al"
  by (simp_all add: net_total_def)

lemma net_total_update:
  "distinct (map fst al) \<Longrightarrow> net_total s (AList.update key pos al) = net_total s al +
     (if snd key = s then net_qty pos - (case map_of al key of None \<Rightarrow> 0 | Some p \<Rightarrow> net_qty p) else 0)"
proof (induction al)
  case (Cons x al)
  obtain k p where x: "x = (k, p)" by (cases x)
  from Cons show ?case by (cases "k = key") (auto simp: x split: option.split)
qed simp

lemma net_position_at:
  "net_qty (position_at key e) = (case map_of (positions e) key of None \<Rightarrow> 0 | Some p \<Rightarrow> net_qty p)"
  by (simp add: position_at_def new_position_def split: option.split)

lemma net_total_fill:
  assumes "te_inv e"
  shows "i64 (net_total s (positions (update_position tid s' sd q px e)) + d) =
    i64 (net_total s (positions e) + (if s' = s then (case sd of Buy \<Rightarrow> q | Sell \<Rightarrow> - q) else 0) + d)"
proof -
  let ?d = "case sd of Buy \<Rightarrow> q | Sell \<Rightarrow> - q" and ?p = "position_at (tid, s') e"
  have "i64 (i64 (net_qty ?p + ?d) + (net_total s (positions e) - net_qty ?p + d)) =
      i64 (net_qty ?p + ?d + (net_total s (positions e) - net_qty ?p + d))" by (rule i64_add_left)
  moreover have upd: "net_total s (positions (update_position tid s' sd q px e)) =
      net_total s (positions e) + (if s' = s then i64 (net_qty ?p + ?d) - net_qty ?p else 0)"
    using assms by (simp add: update_position_positions net_total_update te_inv_def fill_position_net net_position_at)
  ultimately show ?thesis unfolding upd by (cases "s' = s") (simp_all add: algebra_simps)
qed

lemma te_reach_inv: "te_reach e \<Longrightarrow> te_inv e \<and> i64 (net_total s (positions e)) = 0"
proof (induction rule: te_reach.induct)
  case new
  show ?case by (simp add: te_inv_def new_trade_engine_def i64_def)
next
  case (trade e t)
  let ?e0 = "e\<lparr>te_total_trades := te_total_trades e + 1,
                te_total_volume := i64 (te_total_volume e + trd_qty t),
                te_total_notional := dadd (te_total_notional e)
                  (dmul (to_double (trd_qty t)) (to_double (trd_price t)))\<rparr>"
  let ?e1 = "update_position (trd_incoming_trader t) (trd_symbol t) (trd_aggressor_side t)
                (trd_qty t) (trd_price t) ?e0"
  let ?passive = "if trd_aggressor_side t = Buy then Sell else Buy"
  let ?e2 = "update_position (trd_resting_trader t) (trd_symbol t) ?passive (trd_qty t) (trd_price t) ?e1"
  have pos: "positions (process_trade t e) = positions ?e2" by (simp add: process_trade_def Let_def)
  have inv0: "te_inv ?e0" using trade by (simp add: te_inv_def)
  then have inv1: "te_inv ?e1" by (rule update_position_inv)
  note fill1 = net_total_fill [OF inv0] and fill2 = net_total_fill [OF inv1, where d = 0]
  have "i64 (net_total s (positions ?e2)) = i64 (net_total s (positions e))"
    using fill1 [of s "trd_incoming_trader t" "trd_symbol t" "trd_aggressor_side t" "trd_qty t" "trd_price t"
        "if trd_symbol t = s then (case ?passive of Buy \<Rightarrow> trd_qty t | Sell \<Rightarrow> - trd_qty t) else 0"]
      fill2 [of s "trd_resting_trader t" "trd_symbol t" ?passive "trd_qty t" "trd_price t"]
    by (cases "trd_aggressor_side t") simp_all
  moreover have "te_inv ?e2" using inv1 by (rule update_position_inv)
  ultimately show ?case using trade pos by (simp add: te_inv_def)
next
  case (mark e s' px)
  have "net_total s (map (\<lambda>(key, pos). (key, if snd key = s' then mark_position px pos else pos)) al) =
      net_total s al" for al
    by (induction al) auto
  with mark show ?case by (simp add: mark_to_market_def te_inv_def comp_def case_prod_unfold)
qed (simp_all add: te_inv_def te_on_trade_def te_on_position_def)

text \<open>C29. Every trade is booked to both parties, so within a symbol the net positions of all traders
  cancel: after any sequence of trades, marks and callback registrations their sum is zero (as
  64-bit numbers), and no trader has two positions in a symbol.\<close>

theorem net_positions_cancel:
  assumes "te_reach e"
  shows "i64 (\<Sum>(key, pos) \<leftarrow> filter (\<lambda>(key, pos). snd key = s) (positions e). net_qty pos) = 0 \<and>
    distinct (map fst (positions e))"
proof -
  have "sum_list (map (\<lambda>(key, pos). net_qty pos) (filter (\<lambda>(key, pos). snd key = s) al)) = net_total s al" for al
    by (induction al) auto
  with te_reach_inv [OF assms] show ?thesis by (simp add: te_inv_def)
qed

definition te_demo_trade :: Trade where
  "te_demo_trade = \<lparr>trd_trade_id = 1, trd_resting_id = 1, trd_incoming_id = 2, trd_resting_trader = 8,
     trd_incoming_trader = 9, trd_symbol = default_symbol, trd_aggressor_side = Buy, trd_price = 101,
     trd_qty = 4, trd_match_timestamp_ns = 5\<rparr>"

theorem net_positions_cancel_witness:
  "map (\<lambda>(key, pos). (fst key, net_qty pos)) (positions (process_trade te_demo_trade new_trade_engine)) =
     [(9, 4), (8, -4)] \<and>
   i64 (\<Sum>(key, pos) \<leftarrow> filter (\<lambda>(key, pos). snd key = default_symbol)
      (positions (process_trade te_demo_trade new_trade_engine)). net_qty pos) = 0"
proof
  show "map (\<lambda>(key, pos). (fst key, net_qty pos)) (positions (process_trade te_demo_trade new_trade_engine)) =
     [(9, 4), (8, -4)]"
    by (simp add: process_trade_def update_position_positions te_demo_trade_def new_trade_engine_def Let_def
        position_at_def new_position_def fill_position_net i64_def)
      (simp add: fill_buy_def fill_sell_def Let_def i64_def)
  from net_positions_cancel [OF te_reach.trade [OF te_reach.new]] show
    "i64 (\<Sum>(key, pos) \<leftarrow> filter (\<lambda>(key, pos). snd key = default_symbol)
      (positions (process_trade te_demo_trade new_trade_engine)). net_qty pos) = 0" by blast
qed

section \<open>Profit and loss\<close>

text \<open>The fills of one trader in one symbol, as price and quantity.\<close>

definition fill_all :: "TraderId \<Rightarrow> Symbol \<Rightarrow> Side \<Rightarrow> (Price \<times> Quantity) list \<Rightarrow> TradeEngine \<Rightarrow> TradeEngine" where
  "fill_all tid s sd fs e = fold (\<lambda>(px, q). update_position tid s sd q px) fs e"

definition total_qty :: "(Price \<times> Quantity) list \<Rightarrow> int" where
  "total_qty fs = sum_list (map snd fs)"

definition total_cash :: "(Price \<times> Quantity) list \<Rightarrow> int" where
  "total_cash fs = sum_list (map (\<lambda>(px, q). px * q) fs)"

lemma total_simps [simp]:
  "total_qty [] = 0" "total_qty ((px, q) # fs) = q + total_qty fs"
  "total_cash [] = 0" "total_cash ((px, q) # fs) = px * q + total_cash fs"
  by (simp_all add: total_qty_def total_cash_def)

lemma total_qty_nonneg: "\<forall>(px, q) \<in> set fs. 0 < q \<Longrightarrow> 0 \<le> total_qty fs"
  by (induction fs) auto

lemma position_update:
  "te_get_position tid s (update_position tid s sd q px e) =
     Some (fill_position sd q px ((position_at (tid, s) e)\<lparr>pos_symbol := s\<rparr>))"
  by (simp add: te_get_position_def update_position_positions update_conv')

lemma position_at_get: "te_get_position tid s e = Some p \<Longrightarrow> position_at (tid, s) e = p"
  by (simp add: position_at_def te_get_position_def)

text \<open>Sums, products and halves of prices and quantities below \<open>2\<^sup>2\<^sup>4\<close> are exact in doubles.\<close>

lemma dbl_half: "\<bar>k\<bar> \<le> 2 ^ 53 \<Longrightarrow> dbl (real_of_int k / 2) = real_of_int k / 2"
proof -
  assume k: "\<bar>k\<bar> \<le> 2 ^ 53"
  have half: "real_of_int k * 2 powi (- 1) = real_of_int k / 2" by (simp add: power_int_minus)
  show ?thesis using dbl_exact [OF k, of "- 1"] unfolding half .
qed

lemma product_bits:
  fixes x y :: int
  assumes "\<bar>x\<bar> < 2 ^ a" "\<bar>y\<bar> < 2 ^ b"
  shows "\<bar>x * y\<bar> < 2 ^ (a + b)"
  unfolding abs_mult power_add using assms by (intro mult_strict_mono') simp_all

lemma exact_products:
  fixes q :: int and d :: int
  assumes "\<bar>q\<bar> < 2 ^ 24" "\<bar>d\<bar> < 2 ^ 27"
  shows "dbl (real_of_int q * real_of_int d) = real_of_int q * real_of_int d"
    and "dbl (real_of_int q * (real_of_int d / 2)) = real_of_int q * (real_of_int d / 2)"
  using product_bits [OF assms] dbl_of_int [of "q * d"] dbl_half [of "q * d"] by simp_all

text \<open>A position that has only been long: \<open>b\<close> bought at the average \<open>av\<close>, \<open>n\<close> of them held.\<close>

definition long_position :: "Symbol \<Rightarrow> int \<Rightarrow> int \<Rightarrow> real \<Rightarrow> real \<Rightarrow> Position" where
  "long_position s n b av r = new_position\<lparr>pos_symbol := s, net_qty := n, buy_qty := b, avg_buy_price := Some av,
     realized_pnl := Some r\<rparr>"

lemma first_buy:
  assumes "\<bar>px\<bar> < 2 ^ 24" "0 < q" "q < 2 ^ 24"
  shows "fill_buy q px (new_position\<lparr>pos_symbol := s\<rparr>) = long_position s q q (real_of_int px) 0"
proof -
  have "dbl (real_of_int q * real_of_int px) = real_of_int q * real_of_int px" by (rule exact_products) (use assms in simp_all)
  moreover have "i64 q = q" using assms by (intro i64_id) (simp add: in_i64_def i64_min_def i64_max_def)
  ultimately show ?thesis
    using assms by (simp add: fill_buy_def long_position_def new_position_def to_double_def Let_def mult.commute)
qed

lemma sell_long:
  assumes "\<bar>p1\<bar> < 2 ^ 24" "\<bar>p2\<bar> < 2 ^ 24" "0 < q" "q < 2 ^ 24" "0 < n" "n < 2 ^ 24"
  shows "fill_sell n p2 (long_position s q q (real_of_int p1) 0) =
    long_position s (q - n) q (real_of_int p1) (real_of_int (min n q * (p2 - p1)))"
proof -
  let ?c = "min n q"
  have d: "\<bar>p2 - p1\<bar> < 2 ^ 27" "\<bar>?c\<bar> < 2 ^ 24" using assms by auto
  have "dbl (real_of_int ?c * real_of_int (p2 - p1)) = real_of_int ?c * real_of_int (p2 - p1)"
    by (rule exact_products(1) [OF d(2,1)])
  moreover have "dbl (real_of_int p2 - real_of_int p1) = real_of_int p2 - real_of_int p1"
    using dbl_of_int [of "p2 - p1"] d(1) by simp
  moreover have "i64 (q - n) = q - n" using assms by (intro i64_id) (simp add: in_i64_def i64_min_def i64_max_def)
  moreover have "dbl (real_of_int ?c * (real_of_int p2 - real_of_int p1)) = real_of_int ?c * (real_of_int p2 - real_of_int p1)"
    using calculation(1) by simp
  moreover have "dbl (real_of_int ?c) = real_of_int ?c" "dbl (real_of_int p2) = real_of_int p2"
    by (rule dbl_of_int; use assms in auto)+
  ultimately show ?thesis
    using assms by (simp add: fill_sell_def long_position_def new_position_def to_double_def Let_def del: of_int_min)
qed

lemma second_buy:
  assumes "\<bar>p1\<bar> < 2 ^ 24" "\<bar>p3\<bar> < 2 ^ 24" "0 < q" "q < 2 ^ 24"
  shows "fill_buy q p3 (long_position s 0 q (real_of_int p1) r) =
    long_position s q (q + q) (real_of_int (p1 + p3) / 2) r"
proof -
  have "dbl (real_of_int q * real_of_int p1) = real_of_int q * real_of_int p1" by (rule exact_products) (use assms in auto)
  moreover have "dbl (real_of_int q * real_of_int p3) = real_of_int q * real_of_int p3"
    by (rule exact_products) (use assms in auto)
  moreover have "dbl (real_of_int q * real_of_int (p1 + p3)) = real_of_int q * real_of_int (p1 + p3)"
    by (rule exact_products) (use assms in auto)
  moreover have "dbl (real_of_int (q + q)) = real_of_int (q + q)" by (rule dbl_of_int) (use assms in auto)
  moreover have "dbl ((real_of_int p1 * real_of_int q + real_of_int p3 * real_of_int q) / (real_of_int q * 2)) =
      (real_of_int p1 + real_of_int p3) / 2"
  proof -
    have avg: "(real_of_int p1 * real_of_int q + real_of_int p3 * real_of_int q) / (real_of_int q * 2) = real_of_int (p1 + p3) / 2"
      using assms by (simp add: field_simps)
    have "dbl (real_of_int (p1 + p3) / 2) = real_of_int (p1 + p3) / 2" by (rule dbl_half) (use assms in auto)
    then show ?thesis unfolding avg by simp
  qed
  moreover have "i64 q = q" "i64 (q + q) = q + q"
    using assms by (auto intro!: i64_id simp: in_i64_def i64_min_def i64_max_def)
  ultimately show ?thesis
    using assms by (simp add: fill_buy_def long_position_def new_position_def to_double_def Let_def mult.commute distrib_left)
qed

lemma mark_get:
  "te_get_position tid s (mark_to_market s px e) = map_option (mark_position px) (te_get_position tid s e)"
proof -
  have "map_of (map (\<lambda>(key, pos). (key, if snd key = s then mark_position px pos else pos)) al) (tid, s) =
      map_option (mark_position px) (map_of al (tid, s))" for al :: "(TraderSymbolKey \<times> Position) list"
    by (induction al) auto
  then show ?thesis by (simp add: mark_to_market_def te_get_position_def)
qed

lemma mark_long:
  fixes s :: Symbol
  assumes "\<bar>p1\<bar> < 2 ^ 24" "\<bar>p2\<bar> < 2 ^ 24" "\<bar>p3\<bar> < 2 ^ 24" "\<bar>m\<bar> < 2 ^ 24" "0 < q" "q < 2 ^ 24"
  defines "p \<equiv> mark_position m (long_position s q (q + q) (real_of_int (p1 + p3) / 2) (real_of_int (q * (p2 - p1))))"
  shows "net_qty p = q"
    and "dadd (realized_pnl p) (unrealized_pnl p) =
      Some (real_of_int (q * p2 - q * p1 - q * p3 + q * m) + real_of_int (q * (p3 - p1)) / 2)"
proof -
  let ?d = "2 * m - (p1 + p3)" and ?t = "2 * (p2 - p1) + (2 * m - (p1 + p3))"
  have diff: "real_of_int m - real_of_int (p1 + p3) / 2 = real_of_int ?d / 2" by (simp add: diff_divide_distrib)
  have sum: "real_of_int (q * (p2 - p1)) + real_of_int q * (real_of_int ?d / 2) = real_of_int q * (real_of_int ?t / 2)"
    by (simp add: algebra_simps add_divide_distrib diff_divide_distrib)
  have "dbl (real_of_int ?d / 2) = real_of_int ?d / 2" by (rule dbl_half) (use assms in auto)
  moreover have "dbl (real_of_int q * (real_of_int ?d / 2)) = real_of_int q * (real_of_int ?d / 2)"
    "dbl (real_of_int q * (real_of_int ?t / 2)) = real_of_int q * (real_of_int ?t / 2)"
    by (rule exact_products(2); use assms in auto)+
  moreover have "dbl (real_of_int m) = real_of_int m" "dbl (real_of_int q) = real_of_int q"
    by (rule dbl_of_int; use assms in auto)+
  ultimately have "dadd (realized_pnl p) (unrealized_pnl p) = Some (real_of_int q * (real_of_int ?t / 2))"
    unfolding p_def using assms(5) sum
    by (simp only: mark_position_def long_position_def new_position_def to_double_def Position.simps if_True double_simps diff)
  then show "dadd (realized_pnl p) (unrealized_pnl p) =
      Some (real_of_int (q * p2 - q * p1 - q * p3 + q * m) + real_of_int (q * (p3 - p1)) / 2)"
    by (simp add: field_simps)
  show "net_qty p = q" by (simp add: p_def long_position_def)
qed

lemma mark_flipped:
  fixes s :: Symbol
  assumes "\<bar>p1\<bar> < 2 ^ 24" "\<bar>p2\<bar> < 2 ^ 24" "\<bar>m\<bar> < 2 ^ 24" "0 < a" "a < b" "b < 2 ^ 24"
  defines "p \<equiv> mark_position m (long_position s (a - b) a (real_of_int p1) (real_of_int (a * (p2 - p1))))"
  shows "net_qty p = a - b"
    and "dadd (realized_pnl p) (unrealized_pnl p) =
      Some (real_of_int (b * p2 - a * p1 + (a - b) * m) - real_of_int ((b - a) * p2))"
proof -
  have prod: "\<bar>a * (p2 - p1)\<bar> < 2 ^ (24 + 27)" "\<bar>(b - a) * m\<bar> < 2 ^ (24 + 27)"
    by (rule product_bits; use assms in auto)+
  then have sum: "dbl (real_of_int (a * (p2 - p1) - (b - a) * m)) = real_of_int (a * (p2 - p1) - (b - a) * m)"
    by (intro dbl_of_int) simp
  have "dbl (real_of_int (b - a) * real_of_int (- m)) = real_of_int (b - a) * real_of_int (- m)"
    by (rule exact_products(1)) (use assms in auto)
  moreover have "dbl (real_of_int (- m)) = real_of_int (- m)" "dbl (real_of_int (b - a)) = real_of_int (b - a)"
    "dbl (real_of_int m) = real_of_int m"
    by (rule dbl_of_int; use assms in auto)+
  moreover have "i64 (- (a - b)) = b - a" using assms by (subst i64_id) (auto simp: in_i64_def i64_min_def i64_max_def)
  ultimately have "unrealized_pnl p = Some (real_of_int (- ((b - a) * m)))" "realized_pnl p = Some (real_of_int (a * (p2 - p1)))"
    unfolding p_def using assms(4,5)
    by (simp_all add: mark_position_def long_position_def new_position_def to_double_def)
  with sum have "dadd (realized_pnl p) (unrealized_pnl p) = Some (real_of_int (a * (p2 - p1) - (b - a) * m))" by simp
  then show "dadd (realized_pnl p) (unrealized_pnl p) =
      Some (real_of_int (b * p2 - a * p1 + (a - b) * m) - real_of_int ((b - a) * p2))"
    by (simp add: algebra_simps)
  show "net_qty p = a - b" by (simp add: p_def long_position_def)
qed

text \<open>C31. Where the profit and loss is wrong, and by how much.  The average price of a side is that of all
  its fills ever made, and a fill that takes a position through zero is averaged on neither side.
  So a trader who bought \<open>q\<close> at \<open>p1\<close>, sold them at \<open>p2\<close>, bought \<open>q\<close> at \<open>p3\<close> and is marked at any price
  is shown \<open>q (p3 - p1) / 2\<close> more than the money made; one who bought \<open>a\<close> at \<open>p1\<close>, sold \<open>b > a\<close> at
  \<open>p2\<close> and is marked at any price is shown \<open>(b - a) p2\<close> less.  The money made is the cash flow of
  the fills and the value of the position at the mark.  Prices and quantities are below \<open>2\<^sup>2\<^sup>4\<close>,
  where the doubles involved are exact.\<close>

theorem pnl_wrong_after_cycle_or_flip:
  assumes px: "\<bar>p1\<bar> < 2 ^ 24" "\<bar>p2\<bar> < 2 ^ 24" "\<bar>p3\<bar> < 2 ^ 24" "\<bar>m\<bar> < 2 ^ 24"
    and qty: "0 < q" "q < 2 ^ 24" "0 < a" "a < b" "b < 2 ^ 24"
    and fresh: "te_get_position tid s e = None"
  shows "(\<exists>p. te_get_position tid s (mark_to_market s m (fill_all tid s Buy [(p3, q)]
        (fill_all tid s Sell [(p2, q)] (fill_all tid s Buy [(p1, q)] e)))) = Some p \<and> net_qty p = q \<and>
      dadd (realized_pnl p) (unrealized_pnl p) =
        Some (real_of_int (q * p2 - q * p1 - q * p3 + q * m) + real_of_int (q * (p3 - p1)) / 2)) \<and>
    (\<exists>p. te_get_position tid s (mark_to_market s m
        (fill_all tid s Sell [(p2, b)] (fill_all tid s Buy [(p1, a)] e))) = Some p \<and> net_qty p = a - b \<and>
      dadd (realized_pnl p) (unrealized_pnl p) =
        Some (real_of_int (b * p2 - a * p1 + (a - b) * m) - real_of_int ((b - a) * p2)))"
proof -
  let ?p0 = "new_position\<lparr>pos_symbol := s\<rparr>"
  have at: "position_at (tid, s) e = new_position" using fresh by (simp add: position_at_def te_get_position_def)
  have keep: "(long_position s n k av r)\<lparr>pos_symbol := s\<rparr> = long_position s n k av r" for n k av r
    by (simp add: long_position_def)
  have bought: "te_get_position tid s (fill_all tid s Buy [(p1, k)] e) = Some (long_position s k k (real_of_int p1) 0)"
    if "0 < k" "k < 2 ^ 24" for k
    using first_buy [OF px(1) that, of s] by (simp add: fill_all_def position_update at)
  have sold: "te_get_position tid s (fill_all tid s Sell [(p2, n)] (fill_all tid s Buy [(p1, k)] e)) =
      Some (long_position s (k - n) k (real_of_int p1) (real_of_int (min n k * (p2 - p1))))"
    if "0 < k" "k < 2 ^ 24" "0 < n" "n < 2 ^ 24" for k n
  proof -
    have "te_get_position tid s (fill_all tid s Sell [(p2, n)] e') = Some (fill_sell n p2 (p\<lparr>pos_symbol := s\<rparr>))"
      if "te_get_position tid s e' = Some p" for e' p
      using position_at_get [OF that] by (simp add: fill_all_def position_update)
    from this [OF bought [OF that(1,2)]] sell_long [OF px(1,2) that] show ?thesis by (simp only: keep)
  qed
  have again: "te_get_position tid s (fill_all tid s Buy [(p3, q)]
      (fill_all tid s Sell [(p2, q)] (fill_all tid s Buy [(p1, q)] e))) =
      Some (long_position s q (q + q) (real_of_int (p1 + p3) / 2) (real_of_int (q * (p2 - p1))))"
  proof -
    have "te_get_position tid s (fill_all tid s Buy [(p3, q)] e') = Some (fill_buy q p3 (p\<lparr>pos_symbol := s\<rparr>))"
      if "te_get_position tid s e' = Some p" for e' p
      using position_at_get [OF that] by (simp add: fill_all_def position_update)
    from this [OF sold [OF qty(1,2,1,2)]] second_buy [OF px(1,3) qty(1,2)] show ?thesis by (simp add: keep)
  qed
  show ?thesis
  proof (intro conjI)
    show "\<exists>p. te_get_position tid s (mark_to_market s m (fill_all tid s Buy [(p3, q)]
        (fill_all tid s Sell [(p2, q)] (fill_all tid s Buy [(p1, q)] e)))) = Some p \<and> net_qty p = q \<and>
      dadd (realized_pnl p) (unrealized_pnl p) =
        Some (real_of_int (q * p2 - q * p1 - q * p3 + q * m) + real_of_int (q * (p3 - p1)) / 2)"
      using mark_long [OF px(1,2,3,4) qty(1,2), of s] by (simp add: mark_get again)
    have "0 < b" "a < 2 ^ 24" "min b a = a" using qty by simp_all
    with mark_flipped [OF px(1,2,4) qty(3,4,5), of s] show "\<exists>p. te_get_position tid s (mark_to_market s m
        (fill_all tid s Sell [(p2, b)] (fill_all tid s Buy [(p1, a)] e))) = Some p \<and> net_qty p = a - b \<and>
      dadd (realized_pnl p) (unrealized_pnl p) =
        Some (real_of_int (b * p2 - a * p1 + (a - b) * m) - real_of_int ((b - a) * p2))"
      using sold [of a b] qty by (simp add: mark_get)
  qed
qed

text \<open>Ten bought at 100, sold at 110, bought again at 120 and marked at 120 have made 100 and are shown as
  200; five bought at 100 and eight sold at 110, marked at 120, have made 20 and are shown as -310.\<close>

theorem pnl_wrong_after_cycle_or_flip_witness:
  "(\<exists>p. te_get_position 9 default_symbol (mark_to_market default_symbol 120
      (fill_all 9 default_symbol Buy [(120, 10)] (fill_all 9 default_symbol Sell [(110, 10)]
        (fill_all 9 default_symbol Buy [(100, 10)] new_trade_engine)))) = Some p \<and>
      net_qty p = 10 \<and> dadd (realized_pnl p) (unrealized_pnl p) = Some 200) \<and>
   (\<exists>p. te_get_position 9 default_symbol (mark_to_market default_symbol 120
      (fill_all 9 default_symbol Sell [(110, 8)] (fill_all 9 default_symbol Buy [(100, 5)] new_trade_engine))) = Some p \<and>
      net_qty p = -3 \<and> dadd (realized_pnl p) (unrealized_pnl p) = Some (-310))"
proof -
  have "te_get_position 9 default_symbol new_trade_engine = None" by (simp add: te_get_position_def new_trade_engine_def)
  from pnl_wrong_after_cycle_or_flip [OF _ _ _ _ _ _ _ _ _ this, of 100 110 120 120 10 5 8] show ?thesis by simp
qed

end
