(* ===== verification/Latency_Histogram.thy ===== *)
theory Latency_Histogram
  imports HFT_Prelude Binary64 "HOL-Library.Multiset"
begin

text \<open>
  The latency histogram of \<^verbatim>\<open>src/src/metrics/latency_histogram.h\<close>.  The template parameters
  are arguments; the width and the number of buckets are positive, and their product is the
  constant \<open>MAX_LATENCY_NS\<close>, which the compiler checks for overflow.  The running sum, the mean and
  the rank of a percentile are computed in doubles, with the rounding \<open>dbl\<close> of every step and of
  the literals; \<open>histogram_stats_exact\<close> shows up to where the rounding leaves no trace.
\<close>

section \<open>State and operations\<close>

record LatencyStats =
  st_min_ns :: int
  st_max_ns :: int
  st_mean_ns :: int
  st_median_ns :: int
  st_p50_ns :: int
  st_p90_ns :: int
  st_p95_ns :: int
  st_p99_ns :: int
  st_p999_ns :: int
  st_samples :: u64

record LatencyHistogram =
  h_buckets :: "u64 list"
  h_total :: u64
  h_sum :: real
  h_min :: int
  h_max :: int

definition MAX_LATENCY_NS :: "nat \<Rightarrow> int \<Rightarrow> int" where
  "MAX_LATENCY_NS NUM_BUCKETS WIDTH = int NUM_BUCKETS * WIDTH"

definition hist_reset :: "nat \<Rightarrow> LatencyHistogram" where
  "hist_reset NUM_BUCKETS = \<lparr>h_buckets = replicate NUM_BUCKETS 0, h_total = 0, h_sum = 0,
     h_min = i64_max, h_max = i64_min\<rparr>"

definition bucket_of :: "nat \<Rightarrow> int \<Rightarrow> int \<Rightarrow> nat" where
  "bucket_of NUM_BUCKETS WIDTH latency_ns =
     (let latency_ns = (if latency_ns < 0 then 0 else latency_ns);
          bucket = nat (tdiv latency_ns WIDTH)
      in if bucket \<ge> NUM_BUCKETS then NUM_BUCKETS - 1 else bucket)"

definition hist_record :: "nat \<Rightarrow> int \<Rightarrow> int \<Rightarrow> LatencyHistogram \<Rightarrow> LatencyHistogram" where
  "hist_record NUM_BUCKETS WIDTH latency_ns h =
     (let h = h\<lparr>h_total := h_total h + 1, h_sum := dbl (h_sum h + dbl (real_of_int latency_ns))\<rparr>;
          h = (if latency_ns < h_min h then h\<lparr>h_min := latency_ns\<rparr> else h);
          h = (if latency_ns > h_max h then h\<lparr>h_max := latency_ns\<rparr> else h);
          bucket = bucket_of NUM_BUCKETS WIDTH latency_ns
      in h\<lparr>h_buckets := (h_buckets h)[bucket := h_buckets h ! bucket + 1]\<rparr>)"

fun percentile_loop :: "nat \<Rightarrow> int \<Rightarrow> u64 \<Rightarrow> u64 \<Rightarrow> nat \<Rightarrow> u64 list \<Rightarrow> int" where
  "percentile_loop NUM_BUCKETS WIDTH target cumulative i [] = MAX_LATENCY_NS NUM_BUCKETS WIDTH"
| "percentile_loop NUM_BUCKETS WIDTH target cumulative i (b # bs) =
     (let cumulative = cumulative + b in
      if cumulative \<ge> target then i64 (int i * WIDTH + tdiv WIDTH 2)
      else percentile_loop NUM_BUCKETS WIDTH target cumulative (i + 1) bs)"

definition percentile :: "nat \<Rightarrow> int \<Rightarrow> real \<Rightarrow> LatencyHistogram \<Rightarrow> int" where
  "percentile NUM_BUCKETS WIDTH p h =
     (if h_total h = 0 then 0
      else let target = (word_of_int \<lceil>dbl (dbl (real (unat (h_total h))) * p)\<rceil> :: u64);
               target = (if target = 0 then 1 else target)
           in percentile_loop NUM_BUCKETS WIDTH target 0 0 (h_buckets h))"

definition hist_stats :: "nat \<Rightarrow> int \<Rightarrow> LatencyHistogram \<Rightarrow> LatencyStats" where
  "hist_stats NUM_BUCKETS WIDTH h =
     (let p50 = percentile NUM_BUCKETS WIDTH (dbl (1 / 2)) h in
      \<lparr>st_min_ns = h_min h, st_max_ns = h_max h,
       st_mean_ns = (if h_total h > 0 then trunc_real (dbl (h_sum h / dbl (real (unat (h_total h))))) else 0),
       st_median_ns = p50, st_p50_ns = p50,
       st_p90_ns = percentile NUM_BUCKETS WIDTH (dbl (9 / 10)) h,
       st_p95_ns = percentile NUM_BUCKETS WIDTH (dbl (95 / 100)) h,
       st_p99_ns = percentile NUM_BUCKETS WIDTH (dbl (99 / 100)) h,
       st_p999_ns = percentile NUM_BUCKETS WIDTH (dbl (999 / 1000)) h,
       st_samples = h_total h\<rparr>)"

definition record_all :: "nat \<Rightarrow> int \<Rightarrow> int list \<Rightarrow> LatencyHistogram" where
  "record_all NUM_BUCKETS WIDTH xs = fold (hist_record NUM_BUCKETS WIDTH) xs (hist_reset NUM_BUCKETS)"

section \<open>What the buckets hold\<close>

lemma bucket_of_less: "0 < n \<Longrightarrow> bucket_of n w x < n"
  by (simp add: bucket_of_def Let_def)

lemma bucket_of_mono: "0 < w \<Longrightarrow> x \<le> y \<Longrightarrow> bucket_of n w x \<le> bucket_of n w y"
proof -
  assume w: "0 < w" and le: "x \<le> y"
  have "nat (max 0 x div w) \<le> nat (max 0 y div w)"
    using w le by (intro nat_mono zdiv_mono1) simp_all
  moreover have "bucket_of n w z = (if nat (max 0 z div w) \<ge> n then n - 1 else nat (max 0 z div w))" for z
    using w by (simp add: bucket_of_def Let_def tdiv_nonneg max_def)
  ultimately show ?thesis by (simp; arith)
qed

definition samples_in :: "nat \<Rightarrow> int \<Rightarrow> nat set \<Rightarrow> int list \<Rightarrow> nat" where
  "samples_in n w B xs = length (filter (\<lambda>x. bucket_of n w x \<in> B) xs)"

definition hist_ok :: "nat \<Rightarrow> int \<Rightarrow> int list \<Rightarrow> LatencyHistogram \<Rightarrow> bool" where
  "hist_ok n w xs h \<longleftrightarrow> length (h_buckets h) = n \<and> h_total h = word_of_nat (length xs) \<and>
     ((\<Sum>x\<leftarrow>xs. \<bar>x\<bar>) \<le> 2 ^ 53 \<longrightarrow> h_sum h = real_of_int (sum_list xs)) \<and>
     (\<forall>i < n. h_buckets h ! i = word_of_nat (samples_in n w {i} xs)) \<and>
     h_min h = fold min xs i64_max \<and> h_max h = fold max xs i64_min"

lemma hist_ok_reset: "hist_ok n w [] (hist_reset n)"
  by (simp add: hist_ok_def hist_reset_def samples_in_def)

lemma hist_ok_record:
  assumes ok: "hist_ok n w xs h" and n: "0 < n"
  shows "hist_ok n w (xs @ [x]) (hist_record n w x h)"
proof -
  let ?h = "hist_record n w x h"
  have "h_buckets ?h = (h_buckets h)[bucket_of n w x := h_buckets h ! bucket_of n w x + 1]"
    "h_total ?h = h_total h + 1" "h_sum ?h = dbl (h_sum h + dbl (real_of_int x))"
    "h_min ?h = min x (h_min h)" "h_max ?h = max x (h_max h)"
    by (simp_all add: hist_record_def Let_def min_def max_def)
  moreover have "dbl (h_sum h + dbl (real_of_int x)) = real_of_int (sum_list xs + x)"
    if small: "(\<Sum>x\<leftarrow>xs. \<bar>x\<bar>) + \<bar>x\<bar> \<le> 2 ^ 53"
  proof -
    have "\<bar>sum_list xs\<bar> \<le> (\<Sum>x\<leftarrow>xs. \<bar>x\<bar>)" by (rule sum_list_abs)
    then have "\<bar>sum_list xs + x\<bar> \<le> 2 ^ 53" "\<bar>x\<bar> \<le> 2 ^ 53" "(\<Sum>x\<leftarrow>xs. \<bar>x\<bar>) \<le> 2 ^ 53" using small by linarith+
    then show ?thesis using ok dbl_of_int [of "sum_list xs + x"] dbl_of_int [of x] by (simp add: hist_ok_def)
  qed
  ultimately show ?thesis using ok bucket_of_less [OF n, of w x]
    by (auto simp: hist_ok_def nth_list_update samples_in_def add.commute)
qed

lemma hist_ok_all: "0 < n \<Longrightarrow> hist_ok n w xs (record_all n w xs)"
proof (induction xs rule: rev_induct)
  case Nil
  then show ?case by (simp add: record_all_def hist_ok_reset)
next
  case (snoc x xs)
  then show ?case using hist_ok_record [of n w xs _ x] by (simp add: record_all_def)
qed

lemma samples_in_le: "samples_in n w B xs \<le> length xs"
  by (simp add: samples_in_def)

lemma samples_in_Suc: "samples_in n w {..<Suc i} xs = samples_in n w {..<i} xs + samples_in n w {i} xs"
  by (induction xs) (auto simp: samples_in_def less_Suc_eq)

section \<open>Percentiles\<close>

text \<open>The loop stops at the first bucket up to which there are \<open>k\<close> samples.\<close>

lemma percentile_loop_first:
  assumes ok: "hist_ok n w xs h" and len: "length xs < 2 ^ 64" and k: "k \<le> length xs"
    and before: "\<forall>i < b. samples_in n w {..<Suc i} xs < k" and at: "k \<le> samples_in n w {..<Suc b} xs" and b: "b < n"
    and i: "i \<le> b"
  shows "percentile_loop n w (word_of_nat k) (word_of_nat (samples_in n w {..<i} xs)) i (drop i (h_buckets h)) =
    i64 (int b * w + tdiv w 2)"
  using i
proof (induction "b - i" arbitrary: i)
  case 0
  then have "i = b" by simp
  moreover have "drop b (h_buckets h) = h_buckets h ! b # drop (Suc b) (h_buckets h)"
    using ok b by (intro Cons_nth_drop_Suc [symmetric]) (simp add: hist_ok_def)
  moreover have "(word_of_nat k :: u64) \<le> word_of_nat (samples_in n w {..<Suc b} xs)"
    using at len samples_in_le [of n w "{..<Suc b}" xs] by (simp add: word_le_nat_alt unat_of_nat)
  ultimately show ?case using ok b by (simp add: hist_ok_def Let_def samples_in_Suc)
next
  case (Suc d)
  then have i: "i < b" by simp
  have "drop i (h_buckets h) = h_buckets h ! i # drop (Suc i) (h_buckets h)"
    using ok b i by (intro Cons_nth_drop_Suc [symmetric]) (simp add: hist_ok_def)
  moreover have "\<not> (word_of_nat k :: u64) \<le> word_of_nat (samples_in n w {..<Suc i} xs)"
    using before [rule_format, OF i] len k samples_in_le [of n w "{..<Suc i}" xs] by (simp add: word_le_nat_alt unat_of_nat)
  moreover have "percentile_loop n w (word_of_nat k) (word_of_nat (samples_in n w {..<Suc i} xs)) (Suc i)
      (drop (Suc i) (h_buckets h)) = i64 (int b * w + tdiv w 2)" using Suc.hyps i by simp
  ultimately show ?case using i ok b by (simp add: hist_ok_def Let_def samples_in_Suc)
qed

text \<open>The bucket of the \<open>k\<close>-th smallest sample is that first bucket.\<close>

lemma order_statistic_bucket:
  fixes n :: nat
  assumes w: "0 < w" and k: "k < length xs"
  defines "b \<equiv> bucket_of n w (sort xs ! k)"
  shows "\<forall>i < b. samples_in n w {..<Suc i} xs < Suc k" and "Suc k \<le> samples_in n w {..<Suc b} xs"
proof -
  have split: "samples_in n w B xs = samples_in n w B (take (Suc k) (sort xs)) + samples_in n w B (drop (Suc k) (sort xs))"
    "samples_in n w B xs = samples_in n w B (take k (sort xs)) + samples_in n w B (drop k (sort xs))" for B
  proof -
    have "samples_in n w B xs = samples_in n w B (sort xs)"
      by (simp add: samples_in_def filter_sort)
    then show "samples_in n w B xs = samples_in n w B (take (Suc k) (sort xs)) + samples_in n w B (drop (Suc k) (sort xs))"
      "samples_in n w B xs = samples_in n w B (take k (sort xs)) + samples_in n w B (drop k (sort xs))"
      by (simp_all add: samples_in_def flip: length_append filter_append)
  qed
  have low: "bucket_of n w x < Suc b" if mem: "x \<in> set (take (Suc k) (sort xs))" for x
  proof -
    obtain j where "j < Suc k" "x = sort xs ! j" using mem k by (fastforce simp: in_set_conv_nth)
    then have "x \<le> sort xs ! k" using k by (auto intro: sorted_nth_mono)
    then show ?thesis using bucket_of_mono [OF w, of x "sort xs ! k" n] by (simp add: b_def)
  qed
  then have "samples_in n w {..<Suc b} (take (Suc k) (sort xs)) = Suc k"
    using k by (simp add: samples_in_def)
  with split(1) show "Suc k \<le> samples_in n w {..<Suc b} xs" by simp
  have high: "b \<le> bucket_of n w x" if mem: "x \<in> set (drop k (sort xs))" for x
  proof -
    obtain j where "x = sort xs ! (k + j)" "k + j < length xs" using mem k by (auto simp: in_set_conv_nth)
    then have "sort xs ! k \<le> x" by (auto intro: sorted_nth_mono)
    then show ?thesis using bucket_of_mono [OF w, of "sort xs ! k" x n] by (simp add: b_def)
  qed
  show "\<forall>i < b. samples_in n w {..<Suc i} xs < Suc k"
  proof (intro allI impI)
    fix i assume "i < b"
    with high have "samples_in n w {..<Suc i} (drop k (sort xs)) = 0" by (fastforce simp: samples_in_def filter_empty_conv)
    with split(2) samples_in_le [of n w "{..<Suc i}" "take k (sort xs)"] k
    show "samples_in n w {..<Suc i} xs < Suc k" by simp
  qed
qed

text \<open>The rank a percentile asks for, as the source computes it.\<close>

definition nearest_rank :: "real \<Rightarrow> nat \<Rightarrow> nat" where
  "nearest_rank p n = max 1 (nat \<lceil>dbl (dbl (real n) * p)\<rceil>)"

lemma rank_bounds:
  assumes n: "n \<le> 2 ^ 53" and p: "0 \<le> p" "p \<le> 1"
  shows "0 \<le> \<lceil>dbl (dbl (real n) * p)\<rceil>" and "\<lceil>dbl (dbl (real n) * p)\<rceil> \<le> int n"
proof -
  have "real n * p \<le> real_of_int (int n)" using p by (simp add: mult_left_le)
  then have "dbl (real n * p) \<le> real_of_int (int n)" by (rule dbl_le_int) (use n in simp)
  moreover have "0 \<le> dbl (real n * p)" using p by (intro dbl_nonneg) simp
  ultimately show "0 \<le> \<lceil>dbl (dbl (real n) * p)\<rceil>" "\<lceil>dbl (dbl (real n) * p)\<rceil> \<le> int n"
    unfolding dbl_of_nat [OF n] by linarith+
qed

lemma nearest_rank_bounds:
  "0 < n \<Longrightarrow> n \<le> 2 ^ 53 \<Longrightarrow> 0 \<le> p \<Longrightarrow> p \<le> 1 \<Longrightarrow> 1 \<le> nearest_rank p n \<and> nearest_rank p n \<le> n"
  using rank_bounds [of n p] by (simp add: nearest_rank_def nat_le_iff)

lemma percentile_bucket:
  assumes n: "0 < n" "0 < w" and xs: "xs \<noteq> []" "length xs \<le> 2 ^ 53" and p: "0 \<le> p" "p \<le> 1"
  shows "percentile n w p (record_all n w xs) =
    i64 (int (bucket_of n w (sort xs ! (nearest_rank p (length xs) - 1))) * w + w div 2)"
proof -
  let ?h = "record_all n w xs" and ?k = "nearest_rank p (length xs)"
  have ok: "hist_ok n w xs ?h" using n by (simp add: hist_ok_all)
  have len: "length xs < 2 ^ 64" using xs(2) by simp
  from nearest_rank_bounds [OF _ xs(2) p] xs have k: "1 \<le> ?k" "?k \<le> length xs" by simp_all
  then obtain k where ksuc: "?k = Suc k" "k < length xs" by (cases ?k) auto
  have total: "h_total ?h = word_of_nat (length xs)" "unat (h_total ?h) = length xs"
    using ok len by (simp_all add: hist_ok_def unat_of_nat)
  then have nonzero: "h_total ?h \<noteq> 0" using xs(1) by (auto simp: unat_eq_0 [symmetric])
  let ?c = "\<lceil>dbl (dbl (real (length xs)) * p)\<rceil>"
  note c = rank_bounds(1) [OF xs(2) p] and c2 = rank_bounds(2) [OF xs(2) p]
  have cw: "(word_of_int ?c :: u64) = word_of_nat (nat ?c)" using c by simp
  have "(if (word_of_int ?c :: u64) = 0 then 1 else word_of_int ?c) = (word_of_nat ?k :: u64)"
  proof (cases "nat ?c = 0")
    case True
    with c have "?c = 0" by linarith
    then show ?thesis unfolding nearest_rank_def by (simp only: nat_0) simp
  next
    case False
    have lim: "nat ?c < 2 ^ 64" using c2 len by linarith
    have nz: "(word_of_nat m :: u64) \<noteq> 0" if "m \<noteq> 0" "m < 2 ^ 64" for m
      using that by (simp add: word_unat_eq_iff unat_of_nat)
    have ne: "(word_of_int ?c :: u64) \<noteq> 0" unfolding cw by (rule nz [OF False lim])
    have "?k = nat ?c" unfolding nearest_rank_def by (rule max_absorb2) (use False in linarith)
    with ne cw show ?thesis by (simp only: if_False)
  qed
  then have "percentile n w p ?h = percentile_loop n w (word_of_nat ?k) 0 0 (h_buckets ?h)"
    using nonzero by (simp add: percentile_def total(2) Let_def)
  moreover have "percentile_loop n w (word_of_nat ?k) (word_of_nat (samples_in n w {..<0} xs)) 0 (drop 0 (h_buckets ?h)) =
      i64 (int (bucket_of n w (sort xs ! k)) * w + tdiv w 2)"
    by (rule percentile_loop_first [OF ok len k(2)])
      (use order_statistic_bucket [OF n(2) ksuc(2), of n] ksuc bucket_of_less [OF n(1)] in simp_all)
  ultimately show ?thesis using n(2) ksuc(1) by (simp add: samples_in_def tdiv_nonneg)
qed

lemma percentile_mid:
  assumes n: "0 < n" "0 < w" "in_i64 (MAX_LATENCY_NS n w)" and xs: "xs \<noteq> []" "length xs \<le> 2 ^ 53"
    and p: "0 \<le> p" "p \<le> 1"
  shows "percentile n w p (record_all n w xs) =
    int (bucket_of n w (sort xs ! (nearest_rank p (length xs) - 1))) * w + w div 2"
proof -
  let ?b = "bucket_of n w (sort xs ! (nearest_rank p (length xs) - 1))"
  have "int ?b + 1 \<le> int n" using bucket_of_less [OF n(1), of w "sort xs ! (nearest_rank p (length xs) - 1)"] by linarith
  then have "(int ?b + 1) * w \<le> int n * w" using n(2) by (intro mult_right_mono) simp_all
  moreover have "w div 2 \<le> w" "0 \<le> w div 2" "0 \<le> int ?b * w" using n(2) by simp_all
  ultimately have "0 \<le> int ?b * w + w div 2" "int ?b * w + w div 2 \<le> MAX_LATENCY_NS n w"
    unfolding MAX_LATENCY_NS_def by (simp_all add: distrib_right)
  then show ?thesis
    using percentile_bucket [OF n(1,2) xs p] in_i64_nonneg [OF _ _ n(3)] by (simp add: i64_id)
qed

lemma bucket_middle:
  assumes "0 < w" "0 \<le> x" "x < MAX_LATENCY_NS n w"
  shows "\<bar>int (bucket_of n w x) * w + w div 2 - x\<bar> \<le> w div 2"
proof -
  have "x div w * w \<le> x" using assms(1) by (simp add: minus_mod_eq_div_mult [symmetric])
  with assms(3) have "x div w * w < int n * w" unfolding MAX_LATENCY_NS_def by linarith
  then have "x div w < int n" using assms(1) by simp
  then have b: "int (bucket_of n w x) = x div w"
    using assms pos_imp_zdiv_nonneg_iff [of w x] by (simp add: bucket_of_def Let_def tdiv_nonneg)
  have "x div w * w + x mod w = x" "0 \<le> x mod w" "x mod w < w" using assms(1) by simp_all
  moreover have "w \<le> 2 * (w div 2) + 1" by linarith
  ultimately show ?thesis unfolding b by linarith
qed

text \<open>For any recorded samples and any double \<open>p\<close>, the \<open>p\<close>-th percentile is the middle of the bucket of
  the order statistic with the rank the source computes, so it differs from that sample by at
  most half the bucket width if the sample lies in the range of the histogram.\<close>

lemma percentile_within_half_bucket:
  assumes n: "0 < n" "0 < w" "in_i64 (MAX_LATENCY_NS n w)" and xs: "xs \<noteq> []" "length xs \<le> 2 ^ 53"
    and p: "0 \<le> p" "p \<le> 1"
  defines "exact \<equiv> sort xs ! (nearest_rank p (length xs) - 1)"
  shows "percentile n w p (record_all n w xs) = int (bucket_of n w exact) * w + w div 2"
    and "0 \<le> exact \<Longrightarrow> exact < MAX_LATENCY_NS n w \<Longrightarrow> \<bar>percentile n w p (record_all n w xs) - exact\<bar> \<le> w div 2"
  using percentile_mid [OF n xs p] bucket_middle [OF n(2)] by (simp_all add: exact_def)

text \<open>The rank of the percentile \<open>a / b\<close> of \<open>n\<close> samples, in exact arithmetic.\<close>

definition rank_of :: "nat \<Rightarrow> nat \<Rightarrow> nat \<Rightarrow> nat" where
  "rank_of a b n = (n * a + (b - 1)) div b"

lemma ceiling_rank: "0 < b \<Longrightarrow> \<lceil>real (n * a) / real b\<rceil> = int (rank_of a b n)"
proof (rule ceiling_unique)
  assume b: "0 < b"
  let ?m = "n * a + (b - 1)"
  have "?m div b * b + ?m mod b = ?m" "?m mod b < b" using b by (simp_all only: div_mult_mod_eq mod_less_divisor)
  then have "?m div b * b < n * a + b" "n * a \<le> ?m div b * b" using b by linarith+
  then have "real (?m div b * b) < real (n * a + b)" "real (n * a) \<le> real (?m div b * b)"
    by (simp_all only: of_nat_less_iff of_nat_le_iff)
  then have "real (?m div b) * real b < real (n * a) + real b" "real (n * a) \<le> real (?m div b) * real b"
    by (simp_all only: of_nat_mult of_nat_add)
  then show "real_of_int (int (rank_of a b n)) - 1 < real (n * a) / real b" "real (n * a) / real b \<le> real_of_int (int (rank_of a b n))"
    using b by (simp_all add: rank_of_def pos_less_divide_eq pos_divide_le_eq left_diff_distrib del: of_nat_mult of_nat_add)
qed

text \<open>The literals of the source are near enough to their fractions for the exact rank.\<close>

lemma nearest_rank_literal:
  assumes c: "good_literal c a b" and n: "0 < n" "n < 2 ^ 42"
  shows "nearest_rank c n = rank_of a b n" and "0 \<le> c" and "c \<le> 1"
proof -
  have ab: "0 < a" "a < b" "b \<le> 1000" "\<bar>c - real a / real b\<bar> < real a / real b / 2 ^ 54"
    using c by (simp_all add: good_literal_def)
  have "1 \<le> n * a" using n ab by (simp add: Suc_le_eq)
  then have "b \<le> n * a + (b - 1)" by linarith
  then have "b div b \<le> rank_of a b n" unfolding rank_of_def by (rule div_le_mono)
  with ab have one: "1 \<le> rank_of a b n" by simp
  have "dbl (real n) = real n" using n by simp
  with dbl_rank(2) [OF c n(2)] ceiling_rank [of b n a] ab one show "nearest_rank c n = rank_of a b n"
    unfolding nearest_rank_def by simp
  have p: "0 \<le> real a / real b" "real a / real b / 2 ^ 54 \<le> real a / real b" using ab by simp_all
  with ab(4) show "0 \<le> c" by linarith
  have "real (a + 1) \<le> real b" using ab by (simp only: of_nat_le_iff)
  then have "real a / real b + 1 / real b \<le> 1" using ab by (simp add: pos_divide_le_eq flip: add_divide_distrib)
  moreover have "1 / 1000 \<le> 1 / real b" using ab by (simp add: field_simps)
  moreover have "real a / real b / 2 ^ 54 \<le> 1 / 1000" using ab by (simp add: field_simps)
  ultimately show "c \<le> 1" using ab(4) by linarith
qed

lemma nearest_rank_mono: "p \<le> q \<Longrightarrow> nearest_rank p n \<le> nearest_rank q n"
  unfolding nearest_rank_def by (intro max.mono nat_mono ceiling_mono dbl_mono mult_left_mono order_refl) (simp_all add: dbl_nonneg)

lemma percentile_mono:
  assumes "0 < n" "0 < w" "in_i64 (MAX_LATENCY_NS n w)" "xs \<noteq> []" "length xs \<le> 2 ^ 53"
    and "0 \<le> p" "p \<le> q" "q \<le> 1"
  shows "percentile n w p (record_all n w xs) \<le> percentile n w q (record_all n w xs)"
proof -
  have q: "0 \<le> q" using assms by simp
  have "nearest_rank q (length xs) - 1 < length xs"
    using nearest_rank_bounds [OF _ assms(5) q assms(8)] assms(4) by (cases "length xs") auto
  then have "sort xs ! (nearest_rank p (length xs) - 1) \<le> sort xs ! (nearest_rank q (length xs) - 1)"
    using nearest_rank_mono [OF assms(7), of "length xs"] by (intro sorted_nth_mono) simp_all
  from bucket_of_mono [OF assms(2) this, of n] assms show ?thesis
    by (simp add: percentile_mid mult_right_mono)
qed

lemma fold_min_eq: "xs \<noteq> [] \<Longrightarrow> \<forall>x \<in> set xs. x \<le> m \<Longrightarrow> fold min xs m = Min (set xs)" for m :: int
proof -
  assume xs: "xs \<noteq> []" "\<forall>x \<in> set xs. x \<le> m"
  have "fold min xs m = Min (set (m # xs))" by (rule Min.set_eq_fold [symmetric])
  also have "\<dots> = min m (Min (set xs))" using xs(1) by simp
  also have "Min (set xs) \<le> m" using xs Min_in [of "set xs"] by simp
  then have "min m (Min (set xs)) = Min (set xs)" by simp
  finally show ?thesis .
qed

lemma fold_max_eq: "xs \<noteq> [] \<Longrightarrow> \<forall>x \<in> set xs. m \<le> x \<Longrightarrow> fold max xs m = Max (set xs)" for m :: int
proof -
  assume xs: "xs \<noteq> []" "\<forall>x \<in> set xs. m \<le> x"
  have "fold max xs m = Max (set (m # xs))" by (rule Max.set_eq_fold [symmetric])
  also have "\<dots> = max m (Max (set xs))" using xs(1) by simp
  also have "m \<le> Max (set xs)" using xs Max_in [of "set xs"] by simp
  then have "max m (Max (set xs)) = Max (set xs)" by simp
  finally show ?thesis .
qed

text \<open>The middle of the bucket of the percentile \<open>a / b\<close> of the samples, in exact arithmetic.\<close>

definition exact_percentile :: "nat \<Rightarrow> int \<Rightarrow> nat \<Rightarrow> nat \<Rightarrow> int list \<Rightarrow> int" where
  "exact_percentile n w a b xs = int (bucket_of n w (sort xs ! (rank_of a b (length xs) - 1))) * w + w div 2"

lemma literal_percentile:
  assumes "good_literal c a b" and n: "0 < n" "0 < w" "in_i64 (MAX_LATENCY_NS n w)" and xs: "xs \<noteq> []" "length xs < 2 ^ 42"
  shows "percentile n w c (record_all n w xs) = exact_percentile n w a b xs"
proof -
  have "0 < length xs" "length xs \<le> 2 ^ 53" using xs by simp_all
  with nearest_rank_literal [OF assms(1) this(1) xs(2)] show ?thesis
    using percentile_mid [OF n xs(1), of c] by (simp add: exact_percentile_def)
qed

lemma trunc_real_quotient: "0 < b \<Longrightarrow> trunc_real (real_of_int a / real_of_int b) = tdiv a b"
proof -
  assume b: "0 < b"
  have pos: "trunc_real (real_of_int c / real_of_int b) = tdiv c b" if "0 \<le> c" for c
  proof -
    have "\<not> real_of_int c / real_of_int b < 0" using that b by (simp add: not_less)
    then show ?thesis using that b by (simp only: trunc_real_def tdiv_nonneg floor_divide_of_int_eq if_False less_imp_le)
  qed
  show ?thesis
  proof (cases "0 \<le> a")
    case False
    then have "tdiv a b = - tdiv (- a) b" by (simp add: tdiv_def)
    with False pos [of "- a"] show ?thesis by (simp add: trunc_real_minus)
  qed (rule pos)
qed

text \<open>C32. The statistics of the histogram are not touched by the rounding of doubles.  Up to 2^42
  recorded samples whose absolute values sum up to less than 2^53 nanoseconds, the count, the
  smallest and the largest sample and the mean rounded towards zero are exact, and each of the
  five percentiles is the middle of the bucket of the sample with the exact nearest rank; so it
  is within half a bucket of that sample whenever the sample lies in the range of the
  histogram.  The percentiles are ordered.\<close>

theorem histogram_stats_exact:
  assumes n: "0 < n" "0 < w" "in_i64 (MAX_LATENCY_NS n w)" and xs: "xs \<noteq> []" "length xs < 2 ^ 42"
    and rng: "\<forall>x \<in> set xs. in_i64 x" and small: "(\<Sum>x\<leftarrow>xs. \<bar>x\<bar>) < 2 ^ 53"
  defines "st \<equiv> hist_stats n w (record_all n w xs)" and "exact \<equiv> \<lambda>a b. sort xs ! (rank_of a b (length xs) - 1)"
  shows "unat (st_samples st) = length xs \<and> st_min_ns st = Min (set xs) \<and> st_max_ns st = Max (set xs) \<and>
    st_mean_ns st = tdiv (sum_list xs) (int (length xs)) \<and>
    map (\<lambda>f. f st) [st_p50_ns, st_median_ns, st_p90_ns, st_p95_ns, st_p99_ns, st_p999_ns] =
      map (\<lambda>(a, b). int (bucket_of n w (exact a b)) * w + w div 2) [(1, 2), (1, 2), (9, 10), (95, 100), (99, 100), (999, 1000)] \<and>
    sorted (map (\<lambda>f. f st) [st_p50_ns, st_p90_ns, st_p95_ns, st_p99_ns, st_p999_ns]) \<and>
    (\<forall>a b. 0 \<le> exact a b \<longrightarrow> exact a b < MAX_LATENCY_NS n w \<longrightarrow>
      \<bar>int (bucket_of n w (exact a b)) * w + w div 2 - exact a b\<bar> \<le> w div 2)"
proof -
  let ?h = "record_all n w xs"
  have ok: "hist_ok n w xs ?h" using n by (simp add: hist_ok_all)
  then have total: "unat (h_total ?h) = length xs" using xs(2) by (simp add: hist_ok_def unat_of_nat)
  with xs(1) have pos: "h_total ?h > 0" by (simp add: word_less_nat_alt)
  have len: "length xs \<le> 2 ^ 53" using xs(2) by simp
  have "h_min ?h = Min (set xs)" "h_max ?h = Max (set xs)"
    using ok xs(1) rng by (auto simp: hist_ok_def in_i64_def intro!: fold_min_eq fold_max_eq)
  moreover have "h_sum ?h = real_of_int (sum_list xs)" using ok small by (simp add: hist_ok_def)
  moreover have "trunc_real (dbl (real_of_int (sum_list xs) / dbl (real (length xs)))) = tdiv (sum_list xs) (int (length xs))"
    using trunc_dbl_quotient [of "sum_list xs" "int (length xs)"] trunc_real_quotient [of "int (length xs)" "sum_list xs"]
      sum_list_abs [of xs] small xs(1) len by simp
  moreover note lits = good_literals [THEN literal_percentile [OF _ n xs]]
  ultimately have st: "st = \<lparr>st_min_ns = Min (set xs), st_max_ns = Max (set xs),
      st_mean_ns = tdiv (sum_list xs) (int (length xs)), st_median_ns = exact_percentile n w 1 2 xs,
      st_p50_ns = exact_percentile n w 1 2 xs, st_p90_ns = exact_percentile n w 9 10 xs,
      st_p95_ns = exact_percentile n w 95 100 xs, st_p99_ns = exact_percentile n w 99 100 xs,
      st_p999_ns = exact_percentile n w 999 1000 xs, st_samples = h_total ?h\<rparr>"
    using pos unfolding st_def by (simp add: hist_stats_def Let_def total)
  have lit: "dbl (1 / 2) \<le> dbl (9 / 10)" "dbl (9 / 10) \<le> dbl (95 / 100)" "dbl (95 / 100) \<le> dbl (99 / 100)"
    "dbl (99 / 100) \<le> dbl (999 / 1000)" "0 \<le> dbl (1 / 2)" by (rule dbl_mono dbl_nonneg; simp)+
  have "dbl (999 / 1000) \<le> 1" using nearest_rank_literal(3) [OF good_literals(5), of 1] by simp
  with lit have "exact_percentile n w 1 2 xs \<le> exact_percentile n w 9 10 xs" "exact_percentile n w 9 10 xs \<le> exact_percentile n w 95 100 xs"
    "exact_percentile n w 95 100 xs \<le> exact_percentile n w 99 100 xs" "exact_percentile n w 99 100 xs \<le> exact_percentile n w 999 1000 xs"
    unfolding lits [symmetric] by (intro percentile_mono [OF n xs(1) len]; linarith)+
  then have "sorted (map (\<lambda>f. f st) [st_p50_ns, st_p90_ns, st_p95_ns, st_p99_ns, st_p999_ns])" by (simp add: st)
  moreover have "map (\<lambda>f. f st) [st_p50_ns, st_median_ns, st_p90_ns, st_p95_ns, st_p99_ns, st_p999_ns] =
      map (\<lambda>(a, b). int (bucket_of n w (exact a b)) * w + w div 2) [(1, 2), (1, 2), (9, 10), (95, 100), (99, 100), (999, 1000)]"
    by (simp add: st exact_percentile_def exact_def)
  moreover have "unat (st_samples st) = length xs \<and> st_min_ns st = Min (set xs) \<and> st_max_ns st = Max (set xs) \<and>
    st_mean_ns st = tdiv (sum_list xs) (int (length xs))" by (simp add: st total)
  ultimately show ?thesis using bucket_middle [OF n(2)] by blast
qed

theorem histogram_stats_exact_witness:
  "st_min_ns (hist_stats 10 100 (record_all 10 100 [730, 120, 340])) = 120 \<and>
   st_mean_ns (hist_stats 10 100 (record_all 10 100 [730, 120, 340])) = 396 \<and>
   st_p50_ns (hist_stats 10 100 (record_all 10 100 [730, 120, 340])) = 350 \<and>
   st_p99_ns (hist_stats 10 100 (record_all 10 100 [730, 120, 340])) = 750"
proof -
  let ?xs = "[730, 120, 340] :: int list"
  let ?st = "hist_stats 10 100 (record_all 10 100 ?xs)"
  have "in_i64 (MAX_LATENCY_NS 10 100)" by (simp add: MAX_LATENCY_NS_def in_i64_def i64_min_def i64_max_def)
  moreover have "\<forall>x \<in> set ?xs. in_i64 x" "length ?xs < 2 ^ 42" "(\<Sum>x\<leftarrow>?xs. \<bar>x\<bar>) < 2 ^ 53"
    by (simp_all add: in_i64_def i64_min_def i64_max_def)
  from histogram_stats_exact [OF _ _ calculation(1) _ this(2,1,3)] have main: "st_min_ns ?st = Min (set ?xs)" "st_mean_ns ?st = tdiv (sum_list ?xs) (int (length ?xs))"
    "map (\<lambda>f. f ?st) [st_p50_ns, st_median_ns, st_p90_ns, st_p95_ns, st_p99_ns, st_p999_ns] =
      map (\<lambda>(a, b). int (bucket_of 10 100 (sort ?xs ! (rank_of a b (length ?xs) - 1))) * 100 + 100 div 2)
        [(1, 2), (1, 2), (9, 10), (95, 100), (99, 100), (999, 1000)]"
    by (simp_all only: list.distinct zero_less_numeral simp_thms not_False_eq_True)
  have "map (\<lambda>(a, b). int (bucket_of 10 100 (sort ?xs ! (rank_of a b (length ?xs) - 1))) * 100 + 100 div 2)
        [(1, 2), (1, 2), (9, 10), (95, 100), (99, 100), (999, 1000)] = [350, 350, 750, 750, 750, 750]"
    by (simp add: rank_of_def bucket_of_def tdiv_def Let_def)
  with main show ?thesis by (simp add: tdiv_def)
qed

end
