(* ===== verification/Telemetry.thy ===== *)
theory Telemetry
  imports Latency_Histogram HFT_Types
begin

text \<open>
  The metrics collector of \<^verbatim>\<open>src/src/metrics/telemetry.h\<close> and \<^verbatim>\<open>telemetry.cpp\<close>: histograms,
  counters, fixed-point sums and named timers.

  The readings of the steady clock, in nanoseconds, are arguments.  Probabilities and slippages
  are doubles, kept as sums of fixed-point integers; every step in doubles is rounded with \<open>dbl\<close>.
  The console output is modelled by the numbers it shows, in order, without the layout around
  them.
\<close>

section \<open>State\<close>

record Telemetry =
  e2e_latency :: LatencyHistogram
  matching_latency :: LatencyHistogram
  md_latency :: LatencyHistogram
  fix_in_latency :: LatencyHistogram
  fix_out_latency :: LatencyHistogram
  tel_orders :: u64
  tel_trades :: u64
  tel_cancels :: u64
  tel_rejects :: u64
  total_fill_qty :: u64
  total_fill_notional :: u64
  queue_pos_hist :: LatencyHistogram
  fill_prob_sum :: int
  fill_prob_count :: u64
  slippage_sum :: int
  slippage_count :: u64
  active_timers :: "string \<Rightarrow> int option"
  export_interval_ms :: u32

definition kFixedPointScale :: int where
  "kFixedPointScale = 1000000000"

text \<open>The five latency histograms have 10000 buckets of 100 ns, the one of queue positions 1000 of 1.\<close>

definition record_latency :: "int \<Rightarrow> LatencyHistogram \<Rightarrow> LatencyHistogram" where
  "record_latency ns h = hist_record 10000 100 ns h"

definition new_telemetry :: Telemetry where
  "new_telemetry = \<lparr>e2e_latency = hist_reset 10000, matching_latency = hist_reset 10000,
     md_latency = hist_reset 10000, fix_in_latency = hist_reset 10000, fix_out_latency = hist_reset 10000,
     tel_orders = 0, tel_trades = 0, tel_cancels = 0, tel_rejects = 0, total_fill_qty = 0,
     total_fill_notional = 0, queue_pos_hist = hist_reset 1000, fill_prob_sum = 0, fill_prob_count = 0,
     slippage_sum = 0, slippage_count = 0, active_timers = (\<lambda>_. None), export_interval_ms = 1000\<rparr>"

section \<open>Recording\<close>

definition record_e2e_latency :: "int \<Rightarrow> Telemetry \<Rightarrow> Telemetry" where
  "record_e2e_latency ns t = t\<lparr>e2e_latency := record_latency ns (e2e_latency t)\<rparr>"

definition record_matching_latency :: "int \<Rightarrow> Telemetry \<Rightarrow> Telemetry" where
  "record_matching_latency ns t = t\<lparr>matching_latency := record_latency ns (matching_latency t)\<rparr>"

definition record_md_latency :: "int \<Rightarrow> Telemetry \<Rightarrow> Telemetry" where
  "record_md_latency ns t = t\<lparr>md_latency := record_latency ns (md_latency t)\<rparr>"

definition record_fix_inbound_latency :: "int \<Rightarrow> Telemetry \<Rightarrow> Telemetry" where
  "record_fix_inbound_latency ns t = t\<lparr>fix_in_latency := record_latency ns (fix_in_latency t)\<rparr>"

definition record_fix_outbound_latency :: "int \<Rightarrow> Telemetry \<Rightarrow> Telemetry" where
  "record_fix_outbound_latency ns t = t\<lparr>fix_out_latency := record_latency ns (fix_out_latency t)\<rparr>"

definition record_order :: "Telemetry \<Rightarrow> Telemetry" where
  "record_order t = t\<lparr>tel_orders := tel_orders t + 1\<rparr>"

definition tel_record_trade :: "Telemetry \<Rightarrow> Telemetry" where
  "tel_record_trade t = t\<lparr>tel_trades := tel_trades t + 1\<rparr>"

definition record_cancel :: "Telemetry \<Rightarrow> Telemetry" where
  "record_cancel t = t\<lparr>tel_cancels := tel_cancels t + 1\<rparr>"

definition record_reject :: "Telemetry \<Rightarrow> Telemetry" where
  "record_reject t = t\<lparr>tel_rejects := tel_rejects t + 1\<rparr>"

definition record_fill :: "Quantity \<Rightarrow> Price \<Rightarrow> Telemetry \<Rightarrow> Telemetry" where
  "record_fill qty price t = t\<lparr>total_fill_qty := total_fill_qty t + word_of_int qty,
     total_fill_notional := total_fill_notional t + word_of_int (i64 (qty * price))\<rparr>"

definition record_queue_position :: "u32 \<Rightarrow> Telemetry \<Rightarrow> Telemetry" where
  "record_queue_position pos t = t\<lparr>queue_pos_hist := hist_record 1000 1 (uint pos) (queue_pos_hist t)\<rparr>"

definition to_fixed :: "real \<Rightarrow> int" where
  "to_fixed x = i64 (trunc_real (dbl (x * dbl (real_of_int kFixedPointScale))))"

definition record_fill_probability :: "real \<Rightarrow> Telemetry \<Rightarrow> Telemetry" where
  "record_fill_probability prob t = t\<lparr>fill_prob_sum := i64 (fill_prob_sum t + to_fixed prob),
     fill_prob_count := fill_prob_count t + 1\<rparr>"

definition record_slippage :: "real \<Rightarrow> Telemetry \<Rightarrow> Telemetry" where
  "record_slippage ticks t = t\<lparr>slippage_sum := i64 (slippage_sum t + to_fixed ticks),
     slippage_count := slippage_count t + 1\<rparr>"

section \<open>Timers and control\<close>

text \<open>\<open>find\<close> on strings, as a test.\<close>

fun has_prefix :: "string \<Rightarrow> string \<Rightarrow> bool" where
  "has_prefix [] s = True"
| "has_prefix (p # ps) [] = False"
| "has_prefix (p # ps) (c # s) = (p = c \<and> has_prefix ps s)"

fun str_contains :: "string \<Rightarrow> string \<Rightarrow> bool" where
  "str_contains pat [] = (pat = [])"
| "str_contains pat (c # s) = (has_prefix pat (c # s) \<or> str_contains pat s)"

definition start_timer :: "string \<Rightarrow> int \<Rightarrow> Telemetry \<Rightarrow> Telemetry" where
  "start_timer name ts t = t\<lparr>active_timers := (active_timers t)(name \<mapsto> ts)\<rparr>"

definition route_timer :: "string \<Rightarrow> int \<Rightarrow> Telemetry \<Rightarrow> Telemetry" where
  "route_timer name ns t =
     (if str_contains ''e2e'' name then record_e2e_latency ns t
      else if str_contains ''match'' name then record_matching_latency ns t
      else if str_contains ''md'' name then record_md_latency ns t
      else t)"

definition end_timer :: "string \<Rightarrow> int \<Rightarrow> Telemetry \<Rightarrow> Telemetry" where
  "end_timer name ts t =
     (case active_timers t name of
        None \<Rightarrow> t
      | Some start \<Rightarrow>
          let t = route_timer name (i64 (ts - start)) t
          in t\<lparr>active_timers := (active_timers t)(name := None)\<rparr>)"

definition tel_reset :: "Telemetry \<Rightarrow> Telemetry" where
  "tel_reset t = t\<lparr>e2e_latency := hist_reset 10000, matching_latency := hist_reset 10000,
     md_latency := hist_reset 10000, fix_in_latency := hist_reset 10000, fix_out_latency := hist_reset 10000,
     queue_pos_hist := hist_reset 1000, tel_orders := 0, tel_trades := 0, tel_cancels := 0, tel_rejects := 0,
     total_fill_qty := 0, total_fill_notional := 0, fill_prob_sum := 0, fill_prob_count := 0,
     slippage_sum := 0, slippage_count := 0\<rparr>"

definition set_export_interval_ms :: "u32 \<Rightarrow> Telemetry \<Rightarrow> Telemetry" where
  "set_export_interval_ms ms t = t\<lparr>export_interval_ms := ms\<rparr>"

section \<open>Output\<close>

text \<open>A row of the latency table: p50, p99 and p999.\<close>

definition latency_row :: "LatencyHistogram \<Rightarrow> int list" where
  "latency_row h = (let s = hist_stats 10000 100 h in [st_p50_ns s, st_p99_ns s, st_p999_ns s])"

definition fixed_average :: "int \<Rightarrow> u64 \<Rightarrow> real" where
  "fixed_average tot n =
     dbl (dbl (real_of_int tot) / dbl (dbl (real (unat n)) * dbl (real_of_int kFixedPointScale)))"

record Dashboard =
  db_counters :: "u64 list"
  db_latency :: "int list list"
  db_volume :: u64
  db_fill_prob :: "real option"
  db_slippage :: "real option"

definition print_dashboard :: "Telemetry \<Rightarrow> Dashboard" where
  "print_dashboard t = \<lparr>
     db_counters = [tel_orders t, tel_trades t, tel_cancels t, tel_rejects t],
     db_latency = [latency_row (e2e_latency t), latency_row (matching_latency t), latency_row (md_latency t)],
     db_volume = total_fill_qty t,
     db_fill_prob = (if fill_prob_count t > 0 then Some (fixed_average (fill_prob_sum t) (fill_prob_count t)) else None),
     db_slippage = (if slippage_count t > 0 then Some (fixed_average (slippage_sum t) (slippage_count t)) else None)\<rparr>"

definition print_latency_summary :: "Telemetry \<Rightarrow> (int list \<times> u64) list" where
  "print_latency_summary t =
     map (\<lambda>h. (latency_row h, st_samples (hist_stats 10000 100 h))) [e2e_latency t, matching_latency t]"

section \<open>The event log it summarises\<close>

datatype TelEvent =
  EvE2E int | EvMatching int | EvMD int | EvFixIn int | EvFixOut int
| EvOrder | EvTrade | EvCancel | EvReject | EvFill Quantity Price | EvQueue u32 | EvProb real | EvSlip real
| EvStart string int | EvEnd string int | EvReset | EvInterval u32

fun tel_step :: "TelEvent \<Rightarrow> Telemetry \<Rightarrow> Telemetry" where
  "tel_step (EvE2E ns) t = record_e2e_latency ns t"
| "tel_step (EvMatching ns) t = record_matching_latency ns t"
| "tel_step (EvMD ns) t = record_md_latency ns t"
| "tel_step (EvFixIn ns) t = record_fix_inbound_latency ns t"
| "tel_step (EvFixOut ns) t = record_fix_outbound_latency ns t"
| "tel_step EvOrder t = record_order t"
| "tel_step EvTrade t = tel_record_trade t"
| "tel_step EvCancel t = record_cancel t"
| "tel_step EvReject t = record_reject t"
| "tel_step (EvFill qty px) t = record_fill qty px t"
| "tel_step (EvQueue pos) t = record_queue_position pos t"
| "tel_step (EvProb p) t = record_fill_probability p t"
| "tel_step (EvSlip x) t = record_slippage x t"
| "tel_step (EvStart name ts) t = start_timer name ts t"
| "tel_step (EvEnd name ts) t = end_timer name ts t"
| "tel_step EvReset t = tel_reset t"
| "tel_step (EvInterval ms) t = set_export_interval_ms ms t"

text \<open>The abstract metrics: the lists of recorded values since the last reset.\<close>

record tel_log =
  lg_e2e :: "int list"
  lg_match :: "int list"
  lg_md :: "int list"
  lg_in :: "int list"
  lg_out :: "int list"
  lg_queue :: "int list"
  lg_probs :: "real list"
  lg_slips :: "real list"
  lg_counts :: "nat \<times> nat \<times> nat \<times> nat"
  lg_volume :: int
  lg_notional :: int
  lg_timers :: "string \<Rightarrow> int option"

definition empty_log :: "(string \<Rightarrow> int option) \<Rightarrow> tel_log" where
  "empty_log timers = \<lparr>lg_e2e = [], lg_match = [], lg_md = [], lg_in = [], lg_out = [], lg_queue = [],
     lg_probs = [], lg_slips = [], lg_counts = (0, 0, 0, 0), lg_volume = 0, lg_notional = 0, lg_timers = timers\<rparr>"

definition log_timer :: "string \<Rightarrow> int \<Rightarrow> tel_log \<Rightarrow> tel_log" where
  "log_timer name ns l =
     (if str_contains ''e2e'' name then l\<lparr>lg_e2e := lg_e2e l @ [ns]\<rparr>
      else if str_contains ''match'' name then l\<lparr>lg_match := lg_match l @ [ns]\<rparr>
      else if str_contains ''md'' name then l\<lparr>lg_md := lg_md l @ [ns]\<rparr> else l)"

fun log_step :: "TelEvent \<Rightarrow> tel_log \<Rightarrow> tel_log" where
  "log_step (EvE2E ns) l = l\<lparr>lg_e2e := lg_e2e l @ [ns]\<rparr>"
| "log_step (EvMatching ns) l = l\<lparr>lg_match := lg_match l @ [ns]\<rparr>"
| "log_step (EvMD ns) l = l\<lparr>lg_md := lg_md l @ [ns]\<rparr>"
| "log_step (EvFixIn ns) l = l\<lparr>lg_in := lg_in l @ [ns]\<rparr>"
| "log_step (EvFixOut ns) l = l\<lparr>lg_out := lg_out l @ [ns]\<rparr>"
| "log_step EvOrder l = (case lg_counts l of (a, b, c, d) \<Rightarrow> l\<lparr>lg_counts := (a + 1, b, c, d)\<rparr>)"
| "log_step EvTrade l = (case lg_counts l of (a, b, c, d) \<Rightarrow> l\<lparr>lg_counts := (a, b + 1, c, d)\<rparr>)"
| "log_step EvCancel l = (case lg_counts l of (a, b, c, d) \<Rightarrow> l\<lparr>lg_counts := (a, b, c + 1, d)\<rparr>)"
| "log_step EvReject l = (case lg_counts l of (a, b, c, d) \<Rightarrow> l\<lparr>lg_counts := (a, b, c, d + 1)\<rparr>)"
| "log_step (EvFill qty px) l = l\<lparr>lg_volume := lg_volume l + qty, lg_notional := lg_notional l + qty * px\<rparr>"
| "log_step (EvQueue pos) l = l\<lparr>lg_queue := lg_queue l @ [uint pos]\<rparr>"
| "log_step (EvProb p) l = l\<lparr>lg_probs := lg_probs l @ [p]\<rparr>"
| "log_step (EvSlip x) l = l\<lparr>lg_slips := lg_slips l @ [x]\<rparr>"
| "log_step (EvStart name ts) l = l\<lparr>lg_timers := (lg_timers l)(name \<mapsto> ts)\<rparr>"
| "log_step (EvEnd name ts) l =
     (case lg_timers l name of None \<Rightarrow> l
      | Some start \<Rightarrow> (log_timer name (i64 (ts - start)) l)\<lparr>lg_timers := (lg_timers l)(name := None)\<rparr>)"
| "log_step EvReset l = empty_log (lg_timers l)"
| "log_step _ l = l"

definition summarises :: "tel_log \<Rightarrow> Telemetry \<Rightarrow> bool" where
  "summarises l t \<longleftrightarrow>
     e2e_latency t = record_all 10000 100 (lg_e2e l) \<and> matching_latency t = record_all 10000 100 (lg_match l) \<and>
     md_latency t = record_all 10000 100 (lg_md l) \<and> fix_in_latency t = record_all 10000 100 (lg_in l) \<and>
     fix_out_latency t = record_all 10000 100 (lg_out l) \<and> queue_pos_hist t = record_all 1000 1 (lg_queue l) \<and>
     (case lg_counts l of (a, b, c, d) \<Rightarrow> tel_orders t = word_of_nat a \<and> tel_trades t = word_of_nat b \<and>
        tel_cancels t = word_of_nat c \<and> tel_rejects t = word_of_nat d) \<and>
     fill_prob_sum t = i64 (\<Sum>x\<leftarrow>lg_probs l. to_fixed x) \<and> fill_prob_count t = word_of_nat (length (lg_probs l)) \<and>
     slippage_sum t = i64 (\<Sum>x\<leftarrow>lg_slips l. to_fixed x) \<and> slippage_count t = word_of_nat (length (lg_slips l)) \<and>
     total_fill_qty t = word_of_int (lg_volume l) \<and> total_fill_notional t = word_of_int (lg_notional l) \<and>
     active_timers t = lg_timers l"

lemma record_all_snoc: "record_all n w (xs @ [x]) = hist_record n w x (record_all n w xs)"
  by (simp add: record_all_def)

lemma record_all_Nil: "record_all n w [] = hist_reset n"
  by (simp add: record_all_def)

lemma summarises_timer:
  assumes "summarises l t"
  shows "summarises (log_timer name ns l) (route_timer name ns t)"
    and "active_timers (route_timer name ns t) = active_timers t"
  using assms by (simp_all add: summarises_def log_timer_def route_timer_def record_e2e_latency_def
      record_matching_latency_def record_md_latency_def record_latency_def record_all_snoc)

lemma summarises_step:
  assumes "summarises l t"
  shows "summarises (log_step ev l) (tel_step ev t)"
proof (cases ev)
  case (EvEnd name ts)
  show ?thesis
  proof (cases "lg_timers l name")
    case None
    with assms EvEnd show ?thesis by (simp add: summarises_def end_timer_def)
  next
    case (Some start)
    with assms have "active_timers t name = Some start" by (simp add: summarises_def)
    with Some assms EvEnd summarises_timer [OF assms, of name "i64 (ts - start)"] show ?thesis
      by (auto simp: end_timer_def Let_def summarises_def)
  qed
qed (use assms in \<open>auto simp: summarises_def record_e2e_latency_def record_matching_latency_def
    record_md_latency_def record_fix_inbound_latency_def record_fix_outbound_latency_def record_latency_def
    record_order_def tel_record_trade_def record_cancel_def record_reject_def record_fill_def
    record_queue_position_def record_fill_probability_def record_slippage_def start_timer_def tel_reset_def
    set_export_interval_ms_def empty_log_def record_all_snoc record_all_Nil i64_add_left i64_simps split: prod.split\<close>)

lemma summarises_new: "summarises (empty_log (\<lambda>_. None)) new_telemetry"
  by (simp add: summarises_def empty_log_def new_telemetry_def record_all_Nil i64_simps)

lemma summarises_run: "summarises l t \<Longrightarrow> summarises (fold log_step evs l) (fold tel_step evs t)"
  by (induction evs arbitrary: l t) (simp_all add: summarises_step)

text \<open>C33. The collector refines a log of the values recorded since the last reset.  After any sequence of
  recordings, timers, resets and changes of the export interval: each of the six histograms is
  the one of the logged values of its kind, a timer that ends counting as a recording of the kind
  its label names; the counters are the numbers of logged events, the volume and the notional the
  sums of the filled quantities and of their products with the price, as 64-bit words; the sums
  of probabilities and slippages are those of the logged values in fixed point, next to their
  numbers; the running timers are those started and not ended; and the dashboard shows the
  counters and the volume.\<close>

theorem telemetry_refines_log:
  "let t = fold tel_step evs new_telemetry; l = fold log_step evs (empty_log (\<lambda>_. None)) in
     e2e_latency t = record_all 10000 100 (lg_e2e l) \<and>
     matching_latency t = record_all 10000 100 (lg_match l) \<and>
     md_latency t = record_all 10000 100 (lg_md l) \<and>
     fix_in_latency t = record_all 10000 100 (lg_in l) \<and>
     fix_out_latency t = record_all 10000 100 (lg_out l) \<and>
     queue_pos_hist t = record_all 1000 1 (lg_queue l) \<and>
     (case lg_counts l of (a, b, c, d) \<Rightarrow> [tel_orders t, tel_trades t, tel_cancels t, tel_rejects t] =
        [word_of_nat a, word_of_nat b, word_of_nat c, word_of_nat d]) \<and>
     total_fill_qty t = word_of_int (lg_volume l) \<and> total_fill_notional t = word_of_int (lg_notional l) \<and>
     fill_prob_sum t = i64 (\<Sum>x\<leftarrow>lg_probs l. to_fixed x) \<and> fill_prob_count t = word_of_nat (length (lg_probs l)) \<and>
     slippage_sum t = i64 (\<Sum>x\<leftarrow>lg_slips l. to_fixed x) \<and> slippage_count t = word_of_nat (length (lg_slips l)) \<and>
     active_timers t = lg_timers l \<and>
     db_counters (print_dashboard t) = [tel_orders t, tel_trades t, tel_cancels t, tel_rejects t] \<and>
     db_volume (print_dashboard t) = total_fill_qty t"
  using summarises_run [OF summarises_new, of evs]
  by (auto simp: Let_def summarises_def print_dashboard_def split: prod.split)

text \<open>The dashboard tells the truth about latencies: the p50, p99 and p999 it shows for matching
  are, for latencies of less than a millisecond, within 50 ns of the samples of the exact
  nearest ranks among the matching latencies recorded since the last reset.\<close>

theorem dashboard_percentiles:
  assumes t: "t = fold tel_step evs new_telemetry" and l: "l = fold log_step evs (empty_log (\<lambda>_. None))"
    and xs: "lg_match l \<noteq> []" "length (lg_match l) < 2 ^ 42" "\<forall>ns \<in> set (lg_match l). 0 \<le> ns \<and> ns < 1000000"
  shows "list_all2 (\<lambda>(a, b) shown. \<bar>shown - sort (lg_match l) ! (rank_of a b (length (lg_match l)) - 1)\<bar> \<le> 50)
    [(1, 2), (99, 100), (999, 1000)] (db_latency (print_dashboard t) ! 1)"
proof -
  have h: "matching_latency t = record_all 10000 100 (lg_match l)"
    using summarises_run [OF summarises_new, of evs] by (simp add: summarises_def t l)
  have max: "in_i64 (MAX_LATENCY_NS 10000 100)" by (simp add: MAX_LATENCY_NS_def in_i64_def i64_min_def i64_max_def)
  have n: "0 < length (lg_match l)" "length (lg_match l) \<le> 2 ^ 53" using xs(1,2) by simp_all
  have "\<bar>percentile 10000 100 c (matching_latency t) - sort (lg_match l) ! (rank_of a b (length (lg_match l)) - 1)\<bar> \<le> 50"
    if c: "good_literal c a b" for c a b
  proof -
    note rank = nearest_rank_literal [OF c n(1) xs(2)]
    have "rank_of a b (length (lg_match l)) - 1 < length (lg_match l)"
      using nearest_rank_bounds [OF n rank(2,3)] n(1) unfolding rank(1) by linarith
    then have "sort (lg_match l) ! (rank_of a b (length (lg_match l)) - 1) \<in> set (lg_match l)"
      by (metis length_sort nth_mem set_sort)
    with xs(3) bucket_middle [of 100 _ 10000] literal_percentile [OF c _ _ max xs(1,2)] show ?thesis
      by (simp add: h MAX_LATENCY_NS_def exact_percentile_def)
  qed
  from this [OF good_literals(1)] this [OF good_literals(4)] this [OF good_literals(5)] show ?thesis
    by (simp add: print_dashboard_def latency_row_def hist_stats_def Let_def)
qed

theorem dashboard_percentiles_witness:
  "\<exists>a b c. db_latency (print_dashboard (fold tel_step
      [EvMatching 730, EvStart ''match1'' 100, EvEnd ''match1'' 440, EvE2E 5] new_telemetry)) ! 1 = [a, b, c] \<and>
    \<bar>b - 730\<bar> \<le> 50"
proof -
  let ?evs = "[EvMatching 730, EvStart ''match1'' 100, EvEnd ''match1'' 440, EvE2E 5]"
  let ?row = "db_latency (print_dashboard (fold tel_step ?evs new_telemetry)) ! 1"
  have l: "lg_match (fold log_step ?evs (empty_log (\<lambda>_. None))) = [730, 340]"
    by (simp add: empty_log_def log_timer_def i64_def)
  have r: "rank_of 99 100 (length [730, 340 :: int]) - 1 = 1" "sort [730, 340 :: int] = [340, 730]"
    by (simp_all add: rank_of_def)
  have "list_all2 (\<lambda>(a, b) shown. \<bar>shown - sort [730, 340] ! (rank_of a b (length [730, 340 :: int]) - 1)\<bar> \<le> 50)
      [(1, 2), (99, 100), (999, 1000)] ?row"
    using dashboard_percentiles [OF refl refl, of ?evs, unfolded l] by simp
  then obtain a b c where "?row = [a, b, c]" "\<bar>b - sort [730, 340] ! (rank_of 99 100 (length [730, 340 :: int]) - 1)\<bar> \<le> 50"
    by (simp only: list_all2_Cons1 list_all2_Nil split_conv) blast
  then show ?thesis unfolding r by auto
qed

section \<open>The fixed-point averages\<close>

lemma to_fixed_bounds:
  assumes "0 \<le> x" "x \<le> 1"
  shows "0 \<le> to_fixed x" and "to_fixed x \<le> 1000000000"
    and "\<bar>real_of_int (to_fixed x) - x * 1000000000\<bar> \<le> 1 + 1 / 1000"
proof -
  let ?y = "x * 1000000000"
  have scale: "dbl (real_of_int kFixedPointScale) = 1000000000"
    using dbl_of_int [of kFixedPointScale] by (simp add: kFixedPointScale_def)
  have y: "0 \<le> ?y" "?y \<le> real_of_int 1000000000" using assms by simp_all
  have d: "0 \<le> dbl ?y" "dbl ?y \<le> real_of_int 1000000000" by (rule dbl_nonneg [OF y(1)], rule dbl_le_int [OF y(2)]) simp
  have "to_fixed x = i64 \<lfloor>dbl ?y\<rfloor>" using d(1) by (simp add: to_fixed_def scale trunc_real_def)
  moreover have k: "0 \<le> \<lfloor>dbl ?y\<rfloor>" "\<lfloor>dbl ?y\<rfloor> \<le> 1000000000" using d by linarith+
  then have "i64 \<lfloor>dbl ?y\<rfloor> = \<lfloor>dbl ?y\<rfloor>" by (intro i64_id) (simp add: in_i64_def i64_min_def i64_max_def)
  ultimately have eq: "to_fixed x = \<lfloor>dbl ?y\<rfloor>" by simp
  with k show "0 \<le> to_fixed x" "to_fixed x \<le> 1000000000" by simp_all
  have "\<bar>?y\<bar> / 2 ^ 53 \<le> 1 / 1000" using y by simp
  with dbl_error [of ?y] have "\<bar>dbl ?y - ?y\<bar> \<le> 1 / 1000" by linarith
  then show "\<bar>real_of_int (to_fixed x) - ?y\<bar> \<le> 1 + 1 / 1000" unfolding eq by linarith
qed

lemma to_fixed_sum:
  assumes "\<forall>x \<in> set xs. 0 \<le> x \<and> x \<le> 1"
  shows "0 \<le> (\<Sum>x\<leftarrow>xs. to_fixed x)" and "(\<Sum>x\<leftarrow>xs. to_fixed x) \<le> int (length xs) * 1000000000"
    and "\<bar>real_of_int (\<Sum>x\<leftarrow>xs. to_fixed x) - sum_list xs * 1000000000\<bar> \<le> real (length xs) * (1 + 1 / 1000)"
  using assms
proof (induction xs)
  case (Cons x xs)
  case 1 with Cons.IH(1) to_fixed_bounds [of x] show ?case by simp
  case 2 with Cons.IH(2) to_fixed_bounds [of x] show ?case by (simp add: algebra_simps)
  case 3
  have "real_of_int (\<Sum>x\<leftarrow>x # xs. to_fixed x) - sum_list (x # xs) * 1000000000 =
      (real_of_int (to_fixed x) - x * 1000000000) + (real_of_int (\<Sum>x\<leftarrow>xs. to_fixed x) - sum_list xs * 1000000000)"
    by (simp add: distrib_right)
  moreover have "real (length (x # xs)) * (1 + 1 / 1000) = (1 + 1 / 1000) + real (length xs) * (1 + 1 / 1000)"
    by (simp add: distrib_right)
  moreover have "\<bar>real_of_int (to_fixed x) - x * 1000000000\<bar> \<le> 1 + 1 / 1000"
    "\<bar>real_of_int (\<Sum>x\<leftarrow>xs. to_fixed x) - sum_list xs * 1000000000\<bar> \<le> real (length xs) * (1 + 1 / 1000)"
    using 3 Cons.IH(3) to_fixed_bounds(3) [of x] by simp_all
  ultimately show ?case by linarith
qed simp_all

text \<open>The fill probability on the dashboard is the mean of the recorded probabilities, up to two
  units of the fixed-point scale: up to nine million recordings neither the rounding of the
  doubles nor the 64-bit sum adds more than the truncation of each value does.\<close>

theorem dashboard_fill_probability:
  assumes t: "t = fold tel_step evs new_telemetry" and l: "l = fold log_step evs (empty_log (\<lambda>_. None))"
    and xs: "lg_probs l \<noteq> []" "length (lg_probs l) \<le> 9000000" "\<forall>x \<in> set (lg_probs l). 0 \<le> x \<and> x \<le> 1"
  shows "\<exists>avg. db_fill_prob (print_dashboard t) = Some avg \<and>
    \<bar>avg - sum_list (lg_probs l) / real (length (lg_probs l))\<bar> \<le> 2 / 1000000000"
proof -
  let ?S = "\<Sum>x\<leftarrow>lg_probs l. to_fixed x" and ?n = "length (lg_probs l)"
  let ?N = "real ?n" and ?P = "sum_list (lg_probs l)"
  have sum: "fill_prob_sum t = i64 ?S" "fill_prob_count t = word_of_nat ?n"
    using summarises_run [OF summarises_new, of evs] by (simp_all add: summarises_def t l)
  note S = to_fixed_sum [OF xs(3)]
  have n: "0 < ?N" "?N \<le> 9000000" "int ?n \<le> 9000000" using xs(1,2) by simp_all
  have top: "?S \<le> 9000000000000000" using S(2) n(3) by linarith
  have S53: "\<bar>?S\<bar> \<le> 2 ^ 53" using S(1) top by simp
  have id: "i64 ?S = ?S" by (rule i64_id) (use S(1) top in \<open>simp add: in_i64_def i64_min_def i64_max_def\<close>)
  have count: "unat (fill_prob_count t) = ?n" using xs(2) by (simp add: sum unat_of_nat)
  have "dbl (real_of_int kFixedPointScale) = 1000000000" "dbl ?N = ?N"
    using dbl_of_int [of kFixedPointScale] xs(2) by (simp_all add: kFixedPointScale_def)
  moreover have "dbl (?N * 1000000000) = ?N * 1000000000" using dbl_of_nat [of "?n * 1000000000"] xs(2) by simp
  ultimately have avg: "fixed_average (fill_prob_sum t) (fill_prob_count t) = dbl (real_of_int ?S / (?N * 1000000000))"
    using S53 by (simp add: fixed_average_def count sum(1) id)
  let ?q = "real_of_int ?S / (?N * 1000000000)"
  have "0 \<le> ?q" "?q \<le> 1"
  proof -
    have "0 \<le> real_of_int ?S" "real_of_int ?S \<le> real_of_int (int ?n * 1000000000)" using S(1,2) by (simp_all only: of_int_le_iff of_int_0_le_iff)
    then show "0 \<le> ?q" "?q \<le> 1" using n(1) by simp_all
  qed
  then have "\<bar>?q\<bar> / 2 ^ 53 \<le> 1 / 10000000000" by simp
  with dbl_error [of ?q] have e1: "\<bar>dbl ?q - ?q\<bar> \<le> 1 / 10000000000" by linarith
  have "?q - ?P / ?N = (real_of_int ?S - ?P * 1000000000) / (?N * 1000000000)"
    using n(1) by (simp add: diff_divide_distrib)
  then have "\<bar>?q - ?P / ?N\<bar> = \<bar>real_of_int ?S - ?P * 1000000000\<bar> / (?N * 1000000000)" by (simp add: abs_divide)
  also have "\<dots> \<le> ?N * (1 + 1 / 1000) / (?N * 1000000000)" using S(3) n(1) by (intro divide_right_mono) simp_all
  also have "\<dots> = (1 + 1 / 1000) / 1000000000" using n(1) by simp
  finally have "\<bar>dbl ?q - ?q\<bar> + \<bar>?q - ?P / ?N\<bar> \<le> 1 / 10000000000 + (1 + 1 / 1000) / 1000000000"
    using e1 by (intro add_mono)
  moreover have "\<bar>dbl ?q - ?P / ?N\<bar> \<le> \<bar>dbl ?q - ?q\<bar> + \<bar>?q - ?P / ?N\<bar>"
    using abs_triangle_ineq [of "dbl ?q - ?q" "?q - ?P / ?N"] by simp
  ultimately have "\<bar>dbl ?q - ?P / ?N\<bar> \<le> 2 / 1000000000" by simp
  moreover have "fill_prob_count t > 0" using count n(1) by (simp add: word_less_nat_alt)
  ultimately show ?thesis by (simp add: print_dashboard_def avg)
qed

theorem dashboard_fill_probability_witness:
  "\<exists>avg. db_fill_prob (print_dashboard (fold tel_step [EvProb (1 / 4), EvOrder, EvProb 1] new_telemetry)) = Some avg \<and>
    \<bar>avg - 5 / 8\<bar> \<le> 2 / 1000000000"
proof -
  let ?evs = "[EvProb (1 / 4), EvOrder, EvProb 1]"
  have l: "lg_probs (fold log_step ?evs (empty_log (\<lambda>_. None))) = [1 / 4, 1]" by (simp add: empty_log_def)
  from dashboard_fill_probability [OF refl refl, of ?evs, unfolded l] show ?thesis by simp
qed

end
