(* ===== verification/Memory_Pool.thy ===== *)
theory Memory_Pool
  imports HFT_Prelude
begin

text \<open>
  The object pool of \<^verbatim>\<open>src/src/common/memory_pool.h\<close>: a free list threaded through the slots,
  with its head in an atomic word.

  The template parameter \<open>Capacity\<close> is the length of the slot list, and a pointer into the pool
  is the index of its slot.  \<open>allocate\<close> and \<open>deallocate\<close> are the operations run alone, where
  the first compare-and-exchange succeeds; \<open>Memory_Pool_Threads\<close> interleaves threads.  The
  assertions of \<open>deallocate\<close> abort, as in a build with assertions.
  \<open>Memory_Pool_Orders\<close> adds the memory orders.
\<close>

section \<open>The pool and its operations\<close>

record 'a Slot =
  storage :: "'a option"
  next_free :: u32
  in_use :: bool

record 'a MemoryPool =
  slots :: "'a Slot list"
  free_head :: u32
  allocated :: u64

datatype pool_error = NotInPool | DoubleFree

definition new_pool :: "nat \<Rightarrow> 'a MemoryPool" where
  "new_pool Capacity = \<lparr>
     slots = map (\<lambda>i. \<lparr>storage = None, next_free = word_of_nat (i + 1), in_use = False\<rparr>) [0..<Capacity],
     free_head = 0, allocated = 0\<rparr>"

definition pool_capacity :: "'a MemoryPool \<Rightarrow> nat" where
  "pool_capacity p = length (slots p)"

definition pool_available :: "'a MemoryPool \<Rightarrow> u64" where
  "pool_available p = word_of_nat (pool_capacity p) - allocated p"

text \<open>The successful exchange of \<open>free_head\<close>, and what surrounds it.\<close>

definition set_in_use :: "nat \<Rightarrow> bool \<Rightarrow> 'a MemoryPool \<Rightarrow> 'a MemoryPool" where
  "set_in_use i b p = p\<lparr>slots := (slots p)[i := (slots p ! i)\<lparr>in_use := b\<rparr>]\<rparr>"

definition set_storage :: "nat \<Rightarrow> 'a option \<Rightarrow> 'a MemoryPool \<Rightarrow> 'a MemoryPool" where
  "set_storage i x p = p\<lparr>slots := (slots p)[i := (slots p ! i)\<lparr>storage := x\<rparr>]\<rparr>"

definition set_next_free :: "nat \<Rightarrow> u32 \<Rightarrow> 'a MemoryPool \<Rightarrow> 'a MemoryPool" where
  "set_next_free i h p = p\<lparr>slots := (slots p)[i := (slots p ! i)\<lparr>next_free := h\<rparr>]\<rparr>"

definition allocate :: "'a \<Rightarrow> 'a MemoryPool \<Rightarrow> nat option \<times> 'a MemoryPool" where
  "allocate x p =
     (let head = free_head p in
      if unat head \<ge> pool_capacity p then (None, p)
      else let i = unat head;
               p = p\<lparr>free_head := next_free (slots p ! i)\<rparr>;
               p = set_in_use i True p;
               p = p\<lparr>allocated := allocated p + 1\<rparr>
           in (Some i, set_storage i (Some x) p))"

definition deallocate :: "nat option \<Rightarrow> 'a MemoryPool \<Rightarrow> pool_error + 'a MemoryPool" where
  "deallocate ptr p =
     (case ptr of
        None \<Rightarrow> Inr p
      | Some i \<Rightarrow>
          if \<not> i < pool_capacity p then Inl NotInPool
          else if \<not> in_use (slots p ! i) then Inl DoubleFree
          else let p = set_storage i None p;
                   p = set_in_use i False p;
                   p = set_next_free i (free_head p) p;
                   p = p\<lparr>free_head := word_of_nat i\<rparr>
               in Inr (p\<lparr>allocated := allocated p - 1\<rparr>))"

definition destructed :: "'a MemoryPool \<Rightarrow> nat list" where
  "destructed p = filter (\<lambda>i. in_use (slots p ! i)) [0..<pool_capacity p]"

section \<open>The free list\<close>

text \<open>The slots reached from a head through \<open>next_free\<close>, ended by an index out of range.\<close>

fun free_chain :: "'a Slot list \<Rightarrow> u32 \<Rightarrow> nat list \<Rightarrow> bool" where
  "free_chain ss h [] \<longleftrightarrow> length ss \<le> unat h"
| "free_chain ss h (i # is) \<longleftrightarrow> unat h = i \<and> i < length ss \<and> free_chain ss (next_free (ss ! i)) is"

lemma free_chain_bound: "free_chain ss h is \<Longrightarrow> i \<in> set is \<Longrightarrow> i < length ss"
  by (induction "is" arbitrary: h) auto

lemma free_chain_cong:
  "free_chain ss h is \<Longrightarrow> length ss' = length ss \<Longrightarrow>
    \<forall>i \<in> set is. next_free (ss' ! i) = next_free (ss ! i) \<Longrightarrow> free_chain ss' h is"
  by (induction "is" arbitrary: h) auto

lemma free_chain_unique: "free_chain ss h is \<Longrightarrow> free_chain ss h js \<Longrightarrow> is = js"
proof (induction "is" arbitrary: h js)
  case Nil
  then show ?case by (cases js) auto
next
  case (Cons i "is")
  then show ?case by (cases js) auto
qed

lemma free_chain_update:
  "free_chain ss h is \<Longrightarrow> i \<notin> set is \<Longrightarrow> free_chain (ss[i := s]) h is"
  by (erule free_chain_cong) (auto intro!: arg_cong [of _ _ next_free] nth_list_update_neq)

lemma free_chain_update_same:
  assumes "free_chain ss h is" "next_free s = next_free (ss ! i)"
  shows "free_chain (ss[i := s]) h is"
proof (rule free_chain_cong [OF assms(1)])
  have "next_free (ss[i := s] ! j) = next_free (ss ! j)" if "j < length ss" for j
    using that assms(2) by (cases "j = i") simp_all
  then show "\<forall>j \<in> set is. next_free (ss[i := s] ! j) = next_free (ss ! j)"
    using free_chain_bound [OF assms(1)] by blast
qed simp

lemma free_chain_new:
  assumes "n < 2 ^ 32"
  shows "free_chain (slots (new_pool n :: 'a MemoryPool)) 0 [0..<n]"
proof -
  let ?ss = "slots (new_pool n :: 'a MemoryPool)"
  have "free_chain ?ss (word_of_nat i) [i..<n]" if "i \<le> n" for i
    using that
  proof (induction "n - i" arbitrary: i)
    case 0
    with assms show ?case by (simp add: new_pool_def unat_of_nat)
  next
    case (Suc d)
    then have i: "i < n" "[i..<n] = i # [Suc i..<n]" by (simp_all add: upt_conv_Cons)
    with assms have u: "unat (word_of_nat i :: u32) = i" by (simp add: unat_of_nat)
    have "free_chain ?ss (word_of_nat (Suc i)) [Suc i..<n]"
      by (rule Suc.hyps(1)) (use Suc i in simp_all)
    then show ?case using i u by (simp add: new_pool_def del: upt_Suc)
  qed
  from this [of 0] show ?thesis by simp
qed

section \<open>One thread\<close>

text \<open>The live objects: what a client may use, by slot.\<close>

definition pool_view :: "'a MemoryPool \<Rightarrow> nat \<Rightarrow> 'a option" where
  "pool_view p i = (if i < pool_capacity p \<and> in_use (slots p ! i) then storage (slots p ! i) else None)"

definition pool_inv :: "'a MemoryPool \<Rightarrow> bool" where
  "pool_inv p \<longleftrightarrow> pool_capacity p < 2 ^ 32 \<and>
     (\<exists>fr. free_chain (slots p) (free_head p) fr \<and> distinct fr \<and> set fr = {..<pool_capacity p} - dom (pool_view p)) \<and>
     (\<forall>i < pool_capacity p. in_use (slots p ! i) \<longleftrightarrow> storage (slots p ! i) \<noteq> None) \<and>
     unat (allocated p) = card (dom (pool_view p))"

lemma dom_pool_view: "dom (pool_view p) \<subseteq> {..<pool_capacity p}"
  by (auto simp: pool_view_def split: if_splits)

lemma finite_dom_pool_view [simp]: "finite (dom (pool_view p))"
  by (rule finite_subset [OF dom_pool_view]) simp

lemma pool_inv_new: "n < 2 ^ 32 \<Longrightarrow> pool_inv (new_pool n)" "pool_view (new_pool n) = Map.empty"
proof -
  show view: "pool_view (new_pool n) = Map.empty"
    by (auto simp: pool_view_def new_pool_def pool_capacity_def)
  assume "n < 2 ^ 32"
  from free_chain_new [OF this] have "free_chain (slots (new_pool n)) (free_head (new_pool n)) [0..<n] \<and>
      distinct [0..<n] \<and> set [0..<n] = {..<pool_capacity (new_pool n)} - dom (pool_view (new_pool n))"
    unfolding view by (auto simp: new_pool_def pool_capacity_def)
  with \<open>n < 2 ^ 32\<close> show "pool_inv (new_pool n)"
    unfolding pool_inv_def view by (auto simp: new_pool_def pool_capacity_def)
qed

lemma allocate_full: "pool_capacity p \<le> unat (free_head p) \<Longrightarrow> allocate x p = (None, p)"
  by (simp add: allocate_def Let_def)

lemma allocate_room:
  assumes inv: "pool_inv p" and chain: "free_chain (slots p) (free_head p) (i # fr)" "distinct (i # fr)"
    "set (i # fr) = {..<pool_capacity p} - dom (pool_view p)"
  shows "\<exists>p'. allocate x p = (Some i, p') \<and> pool_inv p' \<and> pool_view p' = (pool_view p)(i \<mapsto> x) \<and>
    pool_capacity p' = pool_capacity p \<and> free_chain (slots p') (free_head p') fr"
proof -
  let ?s = "(slots p ! i)\<lparr>in_use := True, storage := Some x\<rparr>"
  let ?p = "p\<lparr>free_head := next_free (slots p ! i), allocated := allocated p + 1, slots := (slots p)[i := ?s]\<rparr>"
  have i: "unat (free_head p) = i" "i < pool_capacity p" "i < length (slots p)" "i \<notin> dom (pool_view p)"
    using chain by (auto simp: pool_capacity_def)
  then have run: "allocate x p = (Some i, ?p)"
    by (simp add: allocate_def Let_def set_in_use_def set_storage_def pool_capacity_def)
  have view: "pool_view ?p = (pool_view p)(i \<mapsto> x)"
    using i(3) by (auto simp: pool_view_def pool_capacity_def nth_list_update fun_eq_iff)
  have cap: "pool_capacity ?p = pool_capacity p" by (simp add: pool_capacity_def)
  have fr: "free_chain (slots ?p) (free_head ?p) fr" using chain free_chain_update by fastforce
  moreover have "set fr = {..<pool_capacity ?p} - dom (pool_view ?p)" unfolding view cap using chain(2,3) by auto
  moreover have "unat (allocated p + 1) = card (dom (pool_view ?p))"
  proof -
    have "card (dom (pool_view p)) \<le> pool_capacity p" using card_mono [OF _ dom_pool_view [of p]] by simp
    with inv have "unat (allocated p) < 2 ^ 32" by (simp add: pool_inv_def)
    then have "unat (allocated p + 1) = unat (allocated p) + 1" by (simp add: unat_word_ariths)
    with inv i(4) show ?thesis unfolding view by (simp add: pool_inv_def)
  qed
  ultimately have "pool_inv ?p" using inv chain(2) i(3) cap
    by (auto simp: pool_inv_def nth_list_update pool_capacity_def)
  with run view cap fr show ?thesis by blast
qed

lemma deallocate_live:
  assumes inv: "pool_inv p" and live: "i \<in> dom (pool_view p)"
  shows "\<exists>p'. deallocate (Some i) p = Inr p' \<and> pool_inv p' \<and> pool_view p' = (pool_view p)(i := None) \<and>
    pool_capacity p' = pool_capacity p \<and>
    (\<forall>fr. free_chain (slots p) (free_head p) fr \<longrightarrow> i \<notin> set fr \<longrightarrow> free_chain (slots p') (free_head p') (i # fr))"
proof -
  let ?s = "(slots p ! i)\<lparr>storage := None, in_use := False, next_free := free_head p\<rparr>"
  let ?p = "p\<lparr>free_head := word_of_nat i, allocated := allocated p - 1, slots := (slots p)[i := ?s]\<rparr>"
  have i: "i < pool_capacity p" "i < length (slots p)" "in_use (slots p ! i)"
    using live by (auto simp: pool_view_def pool_capacity_def split: if_splits)
  then have run: "deallocate (Some i) p = Inr ?p"
    by (simp add: deallocate_def Let_def set_in_use_def set_storage_def set_next_free_def pool_capacity_def)
  have view: "pool_view ?p = (pool_view p)(i := None)"
    using i(2) by (auto simp: pool_view_def pool_capacity_def nth_list_update fun_eq_iff)
  have cap: "pool_capacity ?p = pool_capacity p" by (simp add: pool_capacity_def)
  have "i < 2 ^ 32" using inv i(1) by (simp add: pool_inv_def)
  then have u: "unat (word_of_nat i :: u32) = i" by (simp add: unat_of_nat)
  have chain: "free_chain (slots ?p) (free_head ?p) (i # fr)"
    if "free_chain (slots p) (free_head p) fr" "i \<notin> set fr" for fr
    using that i(2) u by (simp add: free_chain_update)
  from inv obtain fr where fr: "free_chain (slots p) (free_head p) fr" "distinct fr"
    "set fr = {..<pool_capacity p} - dom (pool_view p)" by (auto simp: pool_inv_def)
  with live have "i \<notin> set fr" by simp
  with chain [OF fr(1)] fr(2) have c1: "free_chain (slots ?p) (free_head ?p) (i # fr)" "distinct (i # fr)"
    by (simp_all del: free_chain.simps)
  have c2: "set (i # fr) = {..<pool_capacity ?p} - dom (pool_view ?p)"
    unfolding view cap using fr(3) i(1) by auto
  have c3: "unat (allocated p - 1) = card (dom (pool_view ?p))"
  proof -
    from live have pos: "card (dom (pool_view p)) \<noteq> 0" by auto
    with inv have "allocated p \<noteq> 0" by (auto simp: pool_inv_def)
    then have "unat (allocated p - 1) = unat (allocated p) - 1" by (rule unat_minus_one)
    with inv live show ?thesis unfolding view by (simp add: pool_inv_def card_Diff_singleton)
  qed
  have c4: "\<forall>j < pool_capacity ?p. in_use (slots ?p ! j) \<longleftrightarrow> storage (slots ?p ! j) \<noteq> None"
    using inv i(2) by (auto simp: pool_inv_def nth_list_update pool_capacity_def)
  have "pool_inv ?p" unfolding pool_inv_def
    by (intro conjI exI [of _ "i # fr"] c1 c2 c4) (use inv cap c3 in \<open>simp_all add: pool_inv_def\<close>)
  with run view cap chain show ?thesis by blast
qed

text \<open>C27. Alone, the pool is a bounded map from slots to objects.  On a well-formed pool, \<open>allocate\<close>
  adds the object at a slot that had none, and fails, changing nothing, exactly when every slot
  is taken; \<open>deallocate\<close> removes the object of a live slot and aborts on a slot that is not
  live or not in the pool; both keep the pool well formed and the counter equal to the number
  of live objects; and the destructor destroys exactly the live objects.\<close>

theorem pool_refines_map:
  assumes inv: "pool_inv p"
  shows "(case allocate x p of
      (None, p') \<Rightarrow> p' = p \<and> dom (pool_view p) = {..<pool_capacity p}
    | (Some i, p') \<Rightarrow> i < pool_capacity p \<and> pool_view p i = None \<and>
        pool_view p' = (pool_view p)(i \<mapsto> x) \<and> pool_inv p') \<and>
    (case deallocate (Some i) p of
      Inl NotInPool \<Rightarrow> i \<ge> pool_capacity p
    | Inl DoubleFree \<Rightarrow> i < pool_capacity p \<and> pool_view p i = None
    | Inr p' \<Rightarrow> pool_view p i \<noteq> None \<and> pool_view p' = (pool_view p)(i := None) \<and> pool_inv p') \<and>
    unat (allocated p) = card (dom (pool_view p)) \<and>
    set (destructed p) = dom (pool_view p)" (is "?A \<and> ?D \<and> ?C \<and> ?S")
proof (intro conjI)
  from inv obtain fr where fr: "free_chain (slots p) (free_head p) fr" "distinct fr"
    "set fr = {..<pool_capacity p} - dom (pool_view p)" by (auto simp: pool_inv_def)
  show ?A
  proof (cases fr)
    case Nil
    with fr dom_pool_view [of p] show ?thesis by (auto simp: allocate_full pool_capacity_def)
  next
    case (Cons j fr')
    from allocate_room [OF inv fr [unfolded Cons]] obtain p' where
      "allocate x p = (Some j, p')" "pool_inv p'" "pool_view p' = (pool_view p)(j \<mapsto> x)" by blast
    with fr(3) Cons show ?thesis by auto
  qed
  have use: "j < pool_capacity p \<Longrightarrow> in_use (slots p ! j) \<longleftrightarrow> pool_view p j \<noteq> None" for j
    using inv by (auto simp: pool_inv_def pool_view_def)
  show ?D
  proof (cases "i \<in> dom (pool_view p)")
    case True
    from deallocate_live [OF inv True] True show ?thesis by auto
  next
    case False
    with use [of i] show ?thesis by (auto simp: deallocate_def)
  qed
  show ?C using inv by (simp add: pool_inv_def)
  show ?S using use dom_pool_view [of p] by (auto simp: destructed_def)
qed

theorem pool_refines_map_witness:
  "unat (allocated (new_pool 4 :: nat MemoryPool)) = card (dom (pool_view (new_pool 4 :: nat MemoryPool))) \<and>
   (\<exists>p. allocate (7 :: nat) (new_pool 4) = (Some 0, p) \<and> pool_view p = [0 \<mapsto> 7])"
proof -
  have inv: "pool_inv (new_pool 4 :: nat MemoryPool)" by (rule pool_inv_new) simp
  have "fst (allocate (7 :: nat) (new_pool 4)) = Some 0"
    by (simp add: allocate_def new_pool_def pool_capacity_def Let_def)
  with pool_refines_map [OF inv, of 7 0] show ?thesis
    by (cases "allocate (7 :: nat) (new_pool 4)") (simp add: pool_inv_new)
qed

end
