(* ===== verification/Engine_Types.thy ===== *)
theory Engine_Types
  imports HFT_Types Ring_Buffer Memory_Pool Binary64
begin

text \<open>
  The event union of \<^verbatim>\<open>src/src/common/types.h\<close> and the constants of
  \<^verbatim>\<open>src/src/common/constants.h\<close> that no other theory uses, with what the source demands of
  them: event codes that are distinct, queue sizes that are powers of two, pools whose indices
  fit the 32-bit links.
\<close>

section \<open>Events\<close>

datatype EventType =
  EventNewOrder | EventCancelOrder | EventReplaceOrder | EventExecutionRpt | EventTrade
| EventL1Update | EventL2Update | EventL3Update | EventSimTick | EventShutdown

fun event_code :: "EventType \<Rightarrow> 8 word" where
  "event_code EventNewOrder = 0"
| "event_code EventCancelOrder = 1"
| "event_code EventReplaceOrder = 2"
| "event_code EventExecutionRpt = 3"
| "event_code EventTrade = 4"
| "event_code EventL1Update = 5"
| "event_code EventL2Update = 6"
| "event_code EventL3Update = 7"
| "event_code EventSimTick = 8"
| "event_code EventShutdown = 255"

text \<open>The member of the union that was written last.\<close>

datatype EventPayload =
  PayOrder Order | PayCancel CancelRequest | PayReplace ReplaceRequest | PayReport ExecutionReport
| PayTrade Trade | PayTop TopOfBook | PayDepth DepthSnapshot

record EngineEvent =
  ev_type :: EventType
  ev_payload :: EventPayload
  ev_event_time :: Timestamp

definition default_event :: EngineEvent where
  "default_event = \<lparr>ev_type = EventNewOrder, ev_payload = PayOrder default_order, ev_event_time = 0\<rparr>"

lemma event_code_inj: "event_code x = event_code y \<longleftrightarrow> x = y"
  by (cases x; cases y) simp_all

record CancelOrder =
  co_id :: OrderId

section \<open>Constants\<close>

definition INVALID_PRICE :: Price where "INVALID_PRICE = i64_max"
definition INVALID_QTY :: Quantity where "INVALID_QTY = 0"

definition CACHE_LINE_SIZE :: u64 where "CACHE_LINE_SIZE = 64"
definition MAX_SYMBOLS :: u64 where "MAX_SYMBOLS = 64"
definition MAX_TRADERS :: u64 where "MAX_TRADERS = 256"
definition MAX_ORDERS_PER_BOOK :: u64 where "MAX_ORDERS_PER_BOOK = 100000"
definition MAX_TRADES_PER_BATCH :: u64 where "MAX_TRADES_PER_BATCH = 1024"
definition ORDER_QUEUE_SIZE :: u64 where "ORDER_QUEUE_SIZE = 16384"
definition EXEC_QUEUE_SIZE :: u64 where "EXEC_QUEUE_SIZE = 16384"
definition MD_QUEUE_SIZE :: u64 where "MD_QUEUE_SIZE = 16384"
definition SIM_QUEUE_SIZE :: u64 where "SIM_QUEUE_SIZE = 8192"
definition ORDER_POOL_SIZE :: nat where "ORDER_POOL_SIZE = 500000"
definition TRADE_POOL_SIZE :: nat where "TRADE_POOL_SIZE = 100000"
definition EVENT_POOL_SIZE :: nat where "EVENT_POOL_SIZE = 50000"
definition DEFAULT_NETWORK_LATENCY_NS :: u64 where "DEFAULT_NETWORK_LATENCY_NS = 5000"
definition DEFAULT_MATCHING_LATENCY_NS :: u64 where "DEFAULT_MATCHING_LATENCY_NS = 500"
definition DEFAULT_MD_DISSEMINATION_NS :: u64 where "DEFAULT_MD_DISSEMINATION_NS = 2000"
definition DEFAULT_JITTER_STDDEV_NS :: u64 where "DEFAULT_JITTER_STDDEV_NS = 1000"

text \<open>The parameters meant for a simulation and the affinities of its threads, as the source fixes
  them.\<close>

definition DEFAULT_ORDER_ARRIVAL_RATE :: real where "DEFAULT_ORDER_ARRIVAL_RATE = 100"
definition DEFAULT_CANCEL_RATE :: real where "DEFAULT_CANCEL_RATE = dbl (3 / 10)"
definition DEFAULT_INITIAL_MID_PRICE :: real where "DEFAULT_INITIAL_MID_PRICE = 10000"
definition DEFAULT_TICK_SIZE :: real where "DEFAULT_TICK_SIZE = 1"
definition DEFAULT_SPREAD_TICKS :: real where "DEFAULT_SPREAD_TICKS = 2"
definition DEFAULT_VOLATILITY :: real where "DEFAULT_VOLATILITY = dbl (1 / 1000)"
definition CPU_AFFINITY_MATCHING_ENGINE :: "32 word" where "CPU_AFFINITY_MATCHING_ENGINE = 1"
definition CPU_AFFINITY_FIX_GATEWAY :: "32 word" where "CPU_AFFINITY_FIX_GATEWAY = 2"
definition CPU_AFFINITY_MD_PUBLISHER :: "32 word" where "CPU_AFFINITY_MD_PUBLISHER = 3"
definition CPU_AFFINITY_SIMULATION :: "32 word" where "CPU_AFFINITY_SIMULATION = 4"
definition CPU_AFFINITY_METRICS :: "32 word" where "CPU_AFFINITY_METRICS = 5"

text \<open>The sizes of the queues are legal template arguments of the ring buffer, and pools of the
  configured sizes start well formed and empty.\<close>

lemma queue_sizes_ok:
  "size_ok ORDER_QUEUE_SIZE" "size_ok EXEC_QUEUE_SIZE" "size_ok MD_QUEUE_SIZE" "size_ok SIM_QUEUE_SIZE"
  by (simp_all add: size_ok_def ORDER_QUEUE_SIZE_def EXEC_QUEUE_SIZE_def MD_QUEUE_SIZE_def SIM_QUEUE_SIZE_def)

lemma pools_ok:
  "pool_inv (new_pool ORDER_POOL_SIZE)" "pool_inv (new_pool TRADE_POOL_SIZE)" "pool_inv (new_pool EVENT_POOL_SIZE)"
  by (rule pool_inv_new; simp add: ORDER_POOL_SIZE_def TRADE_POOL_SIZE_def EVENT_POOL_SIZE_def)+

end
