(* ===== verification/Pipeline.thy ===== *)
theory Pipeline
  imports Engine_Claims Market_Data Trade_Engine Telemetry Engine_Types
begin

text \<open>
  The components wired together.  \<^verbatim>\<open>src/src/market/README.md\<close> shows the handlers that feed the
  telemetry from the callbacks of the matching engine, and the loop that feeds the engine from
  a ring buffer of events.  The sinks for the trade engine and the market data engine call the
  operation of each that takes what the callback delivers.

  Each sink is a function on one engine output; since the engine's outputs are logged in the
  order of its callback invocations and no sink touches the engine, a sink folded over the log
  ends in the state it has after the calls.
\<close>

section \<open>The sinks\<close>

text \<open>The two lambdas of the section on telemetry.\<close>

fun telemetry_output :: "EngineOutput \<Rightarrow> Telemetry \<Rightarrow> Telemetry" where
  "telemetry_output (TradeOut t) tel = record_fill (trd_qty t) (trd_price t) (tel_record_trade tel)"
| "telemetry_output (ExecutionOut rpt) tel =
     (let tel = record_order tel in if rpt_status rpt = Rejected then record_reject tel else tel)"
| "telemetry_output (L1Out tob) tel = tel"
| "telemetry_output (L2Out depth) tel = tel"

fun position_output :: "EngineOutput \<Rightarrow> TradeEngine \<Rightarrow> TradeEngine" where
  "position_output (TradeOut t) te = process_trade t te"
| "position_output (ExecutionOut rpt) te = te"
| "position_output (L1Out tob) te = te"
| "position_output (L2Out depth) te = te"

text \<open>All of them on one reading of the clock they share with the engine.\<close>

fun market_data_output :: "Timestamp \<Rightarrow> EngineOutput \<Rightarrow> MarketDataEngine \<Rightarrow> MarketDataEngine" where
  "market_data_output ts (TradeOut t) md = md_on_trade ts t md"
| "market_data_output ts (ExecutionOut rpt) md = md"
| "market_data_output ts (L1Out tob) md = on_tob_update ts tob md"
| "market_data_output ts (L2Out depth) md = on_depth_update ts depth md"

section \<open>What the counters count\<close>

fun trade_weight :: "EngineOutput \<Rightarrow> u64" where
  "trade_weight (TradeOut t) = 1"
| "trade_weight (ExecutionOut rpt) = 0"
| "trade_weight (L1Out tob) = 0"
| "trade_weight (L2Out depth) = 0"

fun report_weight :: "EngineOutput \<Rightarrow> u64" where
  "report_weight (ExecutionOut rpt) = 1"
| "report_weight (TradeOut t) = 0"
| "report_weight (L1Out tob) = 0"
| "report_weight (L2Out depth) = 0"

fun out_qty :: "EngineOutput \<Rightarrow> int" where
  "out_qty (TradeOut t) = trd_qty t"
| "out_qty (ExecutionOut rpt) = 0"
| "out_qty (L1Out tob) = 0"
| "out_qty (L2Out depth) = 0"

definition trade_outs :: "EngineOutput list \<Rightarrow> u64" where
  "trade_outs outs = sum_list (map trade_weight outs)"

definition report_outs :: "EngineOutput list \<Rightarrow> u64" where
  "report_outs outs = sum_list (map report_weight outs)"

definition traded_qty :: "EngineOutput list \<Rightarrow> int" where
  "traded_qty outs = sum_list (map out_qty outs)"

lemma outs_simps [simp]:
  "trade_outs [] = 0" "trade_outs (xs @ ys) = trade_outs xs + trade_outs ys"
  "trade_outs (x # xs) = trade_weight x + trade_outs xs"
  "report_outs [] = 0" "report_outs (xs @ ys) = report_outs xs + report_outs ys"
  "report_outs (x # xs) = report_weight x + report_outs xs"
  "traded_qty [] = 0" "traded_qty (x # xs) = out_qty x + traded_qty xs"
  by (simp_all add: trade_outs_def report_outs_def traded_qty_def)

text \<open>What the engine's log says beyond its counters.\<close>

definition trade_gap :: "MatchingEngine \<Rightarrow> u64" where
  "trade_gap e = trade_outs (me_log e) - trades_generated e"

definition report_gap :: "MatchingEngine \<Rightarrow> u64" where
  "report_gap e = report_outs (me_log e) - orders_processed e"

lemma emit_gap [simp]:
  "trade_gap (emit c out e) = trade_gap e + (if c then trade_weight out else 0)"
  "report_gap (emit c out e) = report_gap e + (if c then report_weight out else 0)"
  by (simp_all add: emit_def trade_gap_def report_gap_def)

lemma gap_update [simp]:
  "trade_gap (e\<lparr>me_symbols := m\<rparr>) = trade_gap e" "report_gap (e\<lparr>me_symbols := m\<rparr>) = report_gap e"
  "trade_gap (e\<lparr>order_symbol_index := i\<rparr>) = trade_gap e" "report_gap (e\<lparr>order_symbol_index := i\<rparr>) = report_gap e"
  "trade_gap (e\<lparr>risk_engine := r\<rparr>) = trade_gap e" "report_gap (e\<lparr>risk_engine := r\<rparr>) = report_gap e"
  "trade_gap (e\<lparr>rejects := n\<rparr>) = trade_gap e" "report_gap (e\<lparr>rejects := n\<rparr>) = report_gap e"
  "trade_gap (e\<lparr>cancels_processed := n\<rparr>) = trade_gap e" "report_gap (e\<lparr>cancels_processed := n\<rparr>) = report_gap e"
  "trade_gap (e\<lparr>orders_processed := n\<rparr>) = trade_gap e"
  "report_gap (e\<lparr>orders_processed := n\<rparr>) = report_gap e + orders_processed e - n"
  "trade_gap (e\<lparr>trades_generated := n\<rparr>) = trade_gap e + trades_generated e - n"
  "report_gap (e\<lparr>trades_generated := n\<rparr>) = report_gap e"
  by (simp_all add: trade_gap_def report_gap_def)

lemma book_callback_gap [simp]:
  "me_trade_cb e \<Longrightarrow> trade_gap (book_callback ev e) = trade_gap e"
  "report_gap (book_callback ev e) = report_gap e"
  by (cases ev; simp add: Let_def split: option.split)+

lemma settle_gap [simp]:
  "me_trade_cb e \<Longrightarrow> trade_gap (settle symbol st book e) = trade_gap e"
  "report_gap (settle symbol st book e) = report_gap e"
proof -
  have "me_trade_cb e \<Longrightarrow> trade_gap (fold book_callback evs e) = trade_gap e"
    "report_gap (fold book_callback evs e) = report_gap e" for evs e
    by (induction evs arbitrary: e) simp_all
  then show "me_trade_cb e \<Longrightarrow> trade_gap (settle symbol st book e) = trade_gap e"
    "report_gap (settle symbol st book e) = report_gap e" by (simp_all add: settle_def)
qed

lemma publish_gap [simp]:
  "trade_gap (publish_market_data symbol ts e) = trade_gap e"
  "report_gap (publish_market_data symbol ts e) = report_gap e"
  by (simp_all add: publish_market_data_def Let_def split: option.split)

lemma risk_gap [simp]:
  "trade_gap (risk_fill order rpt e) = trade_gap e" "report_gap (risk_fill order rpt e) = report_gap e"
  "trade_gap (snd (risk_check order e)) = trade_gap e" "report_gap (snd (risk_check order e)) = report_gap e"
  by (simp_all add: risk_fill_def risk_check_def case_prod_unfold split: option.split)

lemma hooks_frame [simp]:
  "me_trade_cb (publish_market_data symbol ts e) = me_trade_cb e" "exec_cb (publish_market_data symbol ts e) = exec_cb e"
  "me_trade_cb (risk_fill order rpt e) = me_trade_cb e"
  "me_trade_cb (snd (risk_check order e)) = me_trade_cb e" "exec_cb (snd (risk_check order e)) = exec_cb e"
  "me_trade_cb (snd (reject_order order reason ts e)) = me_trade_cb e"
  "exec_cb (snd (reject_order order reason ts e)) = exec_cb e"
  by (simp_all add: publish_market_data_def risk_fill_def risk_check_def reject_order_def case_prod_unfold
      Let_def split: option.split)

text \<open>A command keeps the handlers installed.  A new order reports once; a cancel or a replace
  request reports once if its symbol is known, and else is not counted anywhere.\<close>

lemma new_order_gap:
  assumes "me_trade_cb e" "exec_cb e" and e': "e' = snd (process_new_order order ts ts' e)"
  shows "me_trade_cb e' \<and> exec_cb e' \<and> trade_gap e' = trade_gap e \<and> report_gap e' = report_gap e"
proof (cases "me_symbols e (ord_symbol order)")
  case None
  then show ?thesis using assms by (simp add: process_new_order_def reject_order_def Let_def)
next
  case (Some st)
  show ?thesis
    using assms(1,2) by (simp add: e' process_new_order_def Some case_prod_unfold reject_order_def Let_def)
qed

lemma cancel_on_gap:
  assumes "me_trade_cb e" "exec_cb e" and "cancel_on req s ts ts' e = Some (rpt, e')"
  shows "me_trade_cb e' \<and> exec_cb e' \<and> trade_gap e' = trade_gap e \<and>
    report_gap e' = report_gap e + (if has_symbol s e then 1 else 0)"
  using assms by (auto simp: cancel_on_def has_symbol_def Let_def split: option.splits if_splits)

text \<open>The symbol a cancel request is routed to, if any.\<close>

definition cancel_symbol :: "CancelRequest \<Rightarrow> MatchingEngine \<Rightarrow> Symbol option" where
  "cancel_symbol req e =
     (if cxl_symbol req = default_symbol then order_symbol_index e (cxl_order_id req) else Some (cxl_symbol req))"

definition reported_cancel :: "CancelRequest \<Rightarrow> MatchingEngine \<Rightarrow> bool" where
  "reported_cancel req e \<longleftrightarrow> (\<exists>s. cancel_symbol req e = Some s \<and> has_symbol s e)"

lemma cancel_gap:
  assumes "me_trade_cb e" "exec_cb e" and "process_cancel req ts ts' e = Some (rpt, e')"
  shows "me_trade_cb e' \<and> exec_cb e' \<and> trade_gap e' = trade_gap e \<and>
    report_gap e' = report_gap e + (if reported_cancel req e then 1 else 0)"
  using assms cancel_on_gap [OF assms(1,2)]
  by (auto simp: process_cancel_def reported_cancel_def cancel_symbol_def split: option.splits if_splits)

lemma replace_gap:
  assumes "me_trade_cb e" "exec_cb e" and "process_replace req ts ts' e = Some (rpt, e')"
  shows "me_trade_cb e' \<and> exec_cb e' \<and> trade_gap e' = trade_gap e \<and>
    report_gap e' = report_gap e + (if has_symbol (rep_symbol req) e then 1 else 0)"
  using assms by (auto simp: process_replace_def has_symbol_def Let_def split: option.splits)

lemma symbol_gap:
  "me_trade_cb (add_symbol b a s e) = me_trade_cb e" "exec_cb (add_symbol b a s e) = exec_cb e"
  "trade_gap (add_symbol b a s e) = trade_gap e" "report_gap (add_symbol b a s e) = report_gap e"
  by (simp_all add: add_symbol_def)

section \<open>A watched engine\<close>

text \<open>A run of an engine whose trade and execution handlers were installed before any symbol was
  added, with the number of cancel and replace requests it reported on.\<close>

inductive watched :: "nat \<Rightarrow> MatchingEngine \<Rightarrow> bool" where
  start: "watched 0 (me_on_execution (me_on_trade new_engine))"
| new_order: "watched n e \<Longrightarrow> in_i64 (ord_quantity order) \<Longrightarrow> watched n (snd (process_new_order order ts ts' e))"
| cancel: "watched n e \<Longrightarrow> process_cancel req ts ts' e = Some (rpt, e') \<Longrightarrow>
    watched (n + (if reported_cancel req e then 1 else 0)) e'"
| replace: "watched n e \<Longrightarrow> in_i64 (rep_new_qty req) \<Longrightarrow> process_replace req ts ts' e = Some (rpt, e') \<Longrightarrow>
    watched (n + (if has_symbol (rep_symbol req) e then 1 else 0)) e'"
| symbol: "watched n e \<Longrightarrow> watched n (add_symbol any_bid any_ask s e)"
| tune: "watched n e \<Longrightarrow> tune f \<Longrightarrow> watched n (f e)"

lemma tune_gap:
  assumes "tune f" "me_trade_cb e" "exec_cb e"
  shows "me_trade_cb (f e) \<and> exec_cb (f e) \<and> trade_gap (f e) = trade_gap e \<and> report_gap (f e) = report_gap e"
  using assms by (auto simp: tune_def me_on_execution_def me_on_trade_def me_on_l1_update_def
      me_on_l2_update_def set_risk_engine_def trade_gap_def report_gap_def)

lemma watched_gaps:
  "watched n e \<Longrightarrow> me_trade_cb e \<and> exec_cb e \<and> trade_gap e = 0 \<and> report_gap e = word_of_nat n"
proof (induction rule: watched.induct)
  case start
  show ?case by (simp add: me_on_execution_def me_on_trade_def new_engine_def trade_gap_def report_gap_def)
next
  case (new_order n e order ts ts')
  then show ?case using new_order_gap [OF _ _ refl, of e order ts ts'] by simp
next
  case (cancel n e req ts ts' rpt e')
  then show ?case using cancel_gap [OF _ _ cancel(2)] by simp
next
  case (replace n e req ts ts' rpt e')
  then show ?case using replace_gap [OF _ _ replace(3)] by simp
next
  case (symbol n e any_bid any_ask s)
  then show ?case by (simp add: symbol_gap)
next
  case (tune n e f)
  then show ?case using tune_gap [of f e] by simp
qed

lemma watched_reach: "watched n e \<Longrightarrow> engine_reach e"
proof (induction rule: watched.induct)
  case start
  have "engine_reach (me_on_trade new_engine)"
    by (rule engine_reach.step [OF engine_reach.empty engine_step.tune]) (simp add: tune_def)
  then show ?case by (rule engine_reach.step [OF _ engine_step.tune]) (simp add: tune_def)
next
  case (new_order n e order ts ts')
  from engine_reach.step [OF new_order(3) engine_step.new_order [OF new_order(2)]] show ?case .
next
  case (cancel n e req ts ts' rpt e')
  from engine_reach.step [OF cancel(3) engine_step.cancel [OF cancel(2)]] show ?case .
next
  case (replace n e req ts ts' rpt e')
  from engine_reach.step [OF replace(4) engine_step.replace [OF replace(2,3)]] show ?case .
next
  case (symbol n e any_bid any_ask s)
  from engine_reach.step [OF symbol(2) engine_step.symbol] show ?case .
next
  case (tune n e f)
  from engine_reach.step [OF tune(3) engine_step.tune [OF tune(2)]] show ?case .
qed

section \<open>The sinks over a log\<close>

text \<open>A sink that counts: each output adds its weight to a 64-bit counter of the sink.\<close>

locale output_counter =
  fixes handle :: "EngineOutput \<Rightarrow> 's \<Rightarrow> 's"
    and counter :: "'s \<Rightarrow> u64"
    and weight :: "EngineOutput \<Rightarrow> u64"
  assumes counted: "counter (handle out s) = counter s + weight out"
begin

lemma counted_all: "counter (fold handle outs s) = counter s + sum_list (map weight outs)"
  by (induction outs arbitrary: s) (simp_all add: counted)

end

lemmas recording_defs = tel_record_trade_def record_fill_def record_order_def record_reject_def Let_def

lemma process_trade_totals:
  "te_total_trades (process_trade t te) = te_total_trades te + 1"
  "te_total_volume (process_trade t te) = i64 (te_total_volume te + trd_qty t)"
  by (simp_all add: process_trade_def update_position_def Let_def)

interpretation tel_trade_counter: output_counter telemetry_output tel_trades trade_weight
proof
  show "tel_trades (telemetry_output out tel) = tel_trades tel + trade_weight out" for out tel
    by (cases out) (simp_all add: recording_defs)
qed

interpretation tel_order_counter: output_counter telemetry_output tel_orders report_weight
proof
  show "tel_orders (telemetry_output out tel) = tel_orders tel + report_weight out" for out tel
    by (cases out) (simp_all add: recording_defs)
qed

interpretation tel_qty_counter: output_counter telemetry_output total_fill_qty "\<lambda>out. word_of_int (out_qty out)"
proof
  show "total_fill_qty (telemetry_output out tel) = total_fill_qty tel + word_of_int (out_qty out)" for out tel
    by (cases out) (simp_all add: recording_defs)
qed

interpretation te_trade_counter: output_counter position_output te_total_trades trade_weight
proof
  show "te_total_trades (position_output out te) = te_total_trades te + trade_weight out" for out te
    by (cases out) (simp_all add: process_trade_totals)
qed

lemma word_of_traded_qty: "sum_list (map (\<lambda>out. word_of_int (out_qty out)) outs) = (word_of_int (traded_qty outs) :: u64)"
  by (induction outs) simp_all

lemma position_volume:
  "in_i64 (te_total_volume te) \<Longrightarrow>
    te_total_volume (fold position_output outs te) = i64 (te_total_volume te + traded_qty outs)"
proof (induction outs arbitrary: te)
  case (Cons out outs)
  then show ?case
    by (cases out) (simp_all add: process_trade_totals i64_add_left add.assoc)
qed (simp add: i64_id)

lemma position_reach: "te_reach te \<Longrightarrow> te_reach (fold position_output outs te)"
proof (induction outs arbitrary: te)
  case (Cons out outs)
  then show ?case by (cases out) (simp_all add: te_reach.trade)
qed simp

section \<open>Positions by trader\<close>

text \<open>What a trade adds to the position of a trader in its symbol.\<close>

definition trade_delta :: "TraderId \<Rightarrow> Trade \<Rightarrow> int" where
  "trade_delta t tr =
     (if t = trd_incoming_trader tr then signed_qty (trd_aggressor_side tr) (trd_qty tr) else 0) -
     (if t = trd_resting_trader tr then signed_qty (trd_aggressor_side tr) (trd_qty tr) else 0)"

lemma update_position_net:
  "net_qty (position_at key (update_position tid s sd q px te)) =
     (if key = (tid, s) then i64 (net_qty (position_at key te) + signed_qty sd q) else net_qty (position_at key te))"
  by (simp add: net_position_at update_position_positions update_conv' fill_position_net signed_qty_def)

lemma process_trade_net:
  assumes "in_i64 (net_qty (position_at (t, s) te))"
  shows "net_qty (position_at (t, s) (process_trade tr te)) =
    i64 (net_qty (position_at (t, s) te) + (if s = trd_symbol tr then trade_delta t tr else 0))"
proof -
  let ?te0 = "te\<lparr>te_total_trades := te_total_trades te + 1,
                te_total_volume := i64 (te_total_volume te + trd_qty tr),
                te_total_notional := dadd (te_total_notional te)
                  (dmul (to_double (trd_qty tr)) (to_double (trd_price tr)))\<rparr>"
  let ?passive = "if trd_aggressor_side tr = Buy then Sell else Buy"
  have flip: "signed_qty ?passive (trd_qty tr) = - signed_qty (trd_aggressor_side tr) (trd_qty tr)"
    by (cases "trd_aggressor_side tr") (simp_all add: signed_qty_def)
  have "position_at (t, s) (process_trade tr te) =
      position_at (t, s) (update_position (trd_resting_trader tr) (trd_symbol tr) ?passive (trd_qty tr) (trd_price tr)
        (update_position (trd_incoming_trader tr) (trd_symbol tr) (trd_aggressor_side tr) (trd_qty tr) (trd_price tr) ?te0))"
    by (simp add: process_trade_def Let_def position_at_def)
  moreover have "position_at k ?te0 = position_at k te" for k by (simp add: position_at_def)
  moreover have "i64 (i64 x - y) = i64 (x - y)" for x y using i64_add_left [of x "- y"] by simp
  ultimately show ?thesis
    using assms by (auto simp: update_position_net flip trade_delta_def i64_id)
qed

lemma process_trades_net:
  assumes "in_i64 (net_qty (position_at (t, s) te))" and "\<forall>tr \<in> set trs. trd_symbol tr = s'"
  shows "net_qty (position_at (t, s) (fold process_trade trs te)) =
    i64 (net_qty (position_at (t, s) te) + (if s = s' then sum_list (map (trade_delta t) trs) else 0))"
  using assms
proof (induction trs arbitrary: te)
  case Nil
  then show ?case by (auto simp: i64_id)
next
  case (Cons tr trs)
  note net = process_trade_net [OF Cons.prems(1), of tr]
  then have "in_i64 (net_qty (position_at (t, s) (process_trade tr te)))" by simp
  from Cons.IH [OF this] net Cons.prems(2) show ?case by (simp add: i64_add_left add.assoc)
qed

text \<open>The trades of an order all carry its trader and side and the symbol of the book.\<close>

lemma trades_of_member:
  assumes inv: "book_inv b" and q: "in_i64 (ord_quantity order)" and t: "t \<in> set (trades_of order ts b)"
  shows "trd_incoming_trader t = ord_trader_id order \<and> trd_aggressor_side t = ord_side order \<and>
    trd_symbol t = bk_symbol b"
proof -
  have t': "t \<in> set (res_trades (fst (match_incoming order ts b)))"
    using t by (auto simp: trades_of_def split: if_splits)
  then have run: "\<not> fok_fails order b" by (auto simp: match_incoming_killed)
  from t' obtain tid p r m where "t = trade_for order ts (bk_symbol b) tid (p, r, m)"
    unfolding match_trades(1) [OF inv q run] by (rule order_trades_member)
  then show ?thesis by (simp add: trade_for_def)
qed

lemma signed_sum:
  "sum_list (map (\<lambda>x. signed_qty sd (f x)) xs) = signed_qty sd (sum_list (map f xs))"
  by (cases sd; induction xs) (simp_all add: signed_qty_def)

text \<open>The quantity an order took from the resting orders of a trader.\<close>

definition taken_from :: "TraderId \<Rightarrow> Trade list \<Rightarrow> Quantity" where
  "taken_from t trs = sum_list (map trd_qty (filter (\<lambda>tr. trd_resting_trader tr = t) trs))"

lemma trade_deltas:
  assumes "\<forall>tr \<in> set trs. trd_incoming_trader tr = tid \<and> trd_aggressor_side tr = sd"
  shows "sum_list (map (trade_delta t) trs) =
    (if t = tid then signed_qty sd (sum_list (map trd_qty trs)) else 0) - signed_qty sd (taken_from t trs)"
  using assms
  by (induction trs) (cases sd; auto simp: trade_delta_def taken_from_def signed_qty_def)+

lemma position_output_trades: "fold position_output (map TradeOut trs) te = fold process_trade trs te"
  by (induction trs arbitrary: te) simp_all

text \<open>The outputs of one command, and what they make of the positions.\<close>

definition new_outputs :: "MatchingEngine \<Rightarrow> MatchingEngine \<Rightarrow> EngineOutput list" where
  "new_outputs e e' = drop (length (me_log e)) (me_log e')"

lemma new_order_positions:
  assumes reach: "engine_reach e" and q: "in_i64 (ord_quantity order)"
    and b: "get_book (ord_symbol order) e = Some b"
    and risk: "\<forall>risk. risk_engine e = Some risk \<longrightarrow> fst (check_order order risk) = NoReject"
    and hook: "me_trade_cb e" and step: "process_new_order order ts ts' e = (rpt, e')"
    and rng: "in_i64 (net_qty (position_at (t, s) te))"
  shows "net_qty (position_at (t, s) (fold position_output (new_outputs e e') te)) =
    i64 (net_qty (position_at (t, s) te) + (if s = ord_symbol order then
      (if t = ord_trader_id order then signed_qty (ord_side order) (sum_list (map trd_qty (trades_of order ts b))) else 0) -
      signed_qty (ord_side order) (taken_from t (trades_of order ts b)) else 0))"
proof -
  note book = engine_book [OF reach b]
  note member = trades_of_member [OF book(1) q, of _ ts]
  have "fold position_output (new_outputs e e') te = fold process_trade (trades_of order ts b) te"
    using hook by (simp add: new_outputs_def new_order_log(1) [OF reach q b risk step] position_output_trades)
  moreover have "\<forall>tr \<in> set (trades_of order ts b). trd_symbol tr = ord_symbol order"
    using member book(5) by simp
  moreover have "sum_list (map (trade_delta t) (trades_of order ts b)) =
      (if t = ord_trader_id order then signed_qty (ord_side order) (sum_list (map trd_qty (trades_of order ts b))) else 0) -
      signed_qty (ord_side order) (taken_from t (trades_of order ts b))"
    using member by (intro trade_deltas) simp
  ultimately show ?thesis using process_trades_net [OF rng, of "trades_of order ts b" "ord_symbol order"] by simp
qed

section \<open>The market data of an accepted order\<close>

lemma market_data_trades:
  assumes "md_inv md" "length (md_pending md) + length trs < 16384"
  shows "md_inv (fold (market_data_output ts) (map TradeOut trs) md) \<and>
    md_pending (fold (market_data_output ts) (map TradeOut trs) md) =
      md_pending md @ map (\<lambda>tr. TradeMessage (trd_symbol tr) ts tr) trs \<and>
    throttle_ns (fold (market_data_output ts) (map TradeOut trs) md) = throttle_ns md \<and>
    last_publish_time (fold (market_data_output ts) (map TradeOut trs) md) = last_publish_time md \<and>
    messages_throttled (fold (market_data_output ts) (map TradeOut trs) md) = messages_throttled md"
  using assms
proof (induction trs arbitrary: md)
  case (Cons tr trs)
  have "length (md_pending md) < 16383" using Cons.prems(2) by simp
  note one = md_on_trade_pending [OF Cons.prems(1) this, of ts tr]
  have "length (md_pending (md_on_trade ts tr md)) + length trs < 16384" using Cons.prems(2) by (simp add: one(2))
  from Cons.IH [OF one(1) this] one(2) show ?case by (simp add: md_on_trade_def enqueue_def)
qed simp

lemma top_of_book_symbol: "tob_symbol (top_of_book ts b) = bk_symbol b"
  by (simp add: top_of_book_def Let_def split: option.split)

lemma get_depth_symbol: "get_book s e = Some b \<Longrightarrow> dep_symbol (get_depth s ts e) = bk_symbol b"
  by (auto simp: get_depth_def get_book_def snapshot_def Let_def)

lemma new_order_keeps_symbols:
  assumes "process_new_order order ts ts' e = (rpt, e')"
  shows "get_book s e' = None \<longleftrightarrow> get_book s e = None"
proof (cases "gate order e = NoReject")
  case True
  then obtain b where b: "get_book (ord_symbol order) e = Some b" by (auto simp: gate_def split: if_splits)
  from gate_open_book(2) [OF True b, of s ts ts'] assms b show ?thesis by auto
next
  case False
  from gate_shut(2) [OF this, of s ts ts'] assms show ?thesis by simp
qed

text \<open>A top-of-book update is queued or counted as throttled.\<close>

lemma tob_update_pending:
  assumes "md_inv md" "length (md_pending md) < 16383"
    and skip_def: "skip = fst (should_throttle (tob_symbol tob) ts md)"
  shows "md_pending (on_tob_update ts tob md) =
      md_pending md @ (if skip then [] else [TobMessage (tob_symbol tob) ts tob])"
    and "messages_throttled (on_tob_update ts tob md) = messages_throttled md + (if skip then 1 else 0)"
proof -
  obtain thr md1 where thr: "should_throttle (tob_symbol tob) ts md = (thr, md1)" by fastforce
  then have q: "md_queue md1 = md_queue md" "messages_throttled md1 = messages_throttled md"
    using throttle_frame [of "tob_symbol tob" ts md] by simp_all
  show "md_pending (on_tob_update ts tob md) =
      md_pending md @ (if skip then [] else [TobMessage (tob_symbol tob) ts tob])"
    using assms(1,2) ring.push_room [of MD_QUEUE_CAPACITY "md_queue md" "TobMessage (tob_symbol tob) ts tob"]
    by (simp add: on_tob_update_def thr skip_def md_pending_def md_inv_def enqueue_def count_throttled_def q
        MD_QUEUE_CAPACITY_def)
  show "messages_throttled (on_tob_update ts tob md) = messages_throttled md + (if skip then 1 else 0)"
    by (simp add: on_tob_update_def thr skip_def enqueue_def count_throttled_def q)
qed

section \<open>The matching loop\<close>

text \<open>The consumer loop of the section on the ring buffer, over the state of the engine and the
  number of orders it has taken; \<open>clk k\<close> are the clock readings of the \<open>k\<close>-th of them.  Reading
  the order of an event that holds another member of the union has no meaning, so that the
  state is lost.\<close>

definition matching_step ::
  "(nat \<Rightarrow> Timestamp \<times> Timestamp) \<Rightarrow> EngineEvent \<Rightarrow> (nat \<times> MatchingEngine) option \<Rightarrow> (nat \<times> MatchingEngine) option" where
  "matching_step clk event st =
     (case st of
        None \<Rightarrow> None
      | Some (k, e) \<Rightarrow>
          if ev_type event = EventNewOrder
          then (case ev_payload event of
                  PayOrder order \<Rightarrow> Some (k + 1, snd (process_new_order order (fst (clk k)) (snd (clk k)) e))
                | _ \<Rightarrow> None)
          else Some (k, e))"

text \<open>An event whose type field tells what the union holds, with a quantity in range.\<close>

definition order_event_ok :: "EngineEvent \<Rightarrow> bool" where
  "order_event_ok event \<longleftrightarrow> (ev_type event = EventNewOrder \<longrightarrow>
     (\<exists>order. ev_payload event = PayOrder order \<and> in_i64 (ord_quantity order)))"

fun orders_of :: "EngineEvent list \<Rightarrow> Order list" where
  "orders_of [] = []"
| "orders_of (event # events) =
     (case (ev_type event, ev_payload event) of (EventNewOrder, PayOrder order) \<Rightarrow> order # orders_of events
      | _ \<Rightarrow> orders_of events)"

text \<open>The orders one after the other.\<close>

fun process_all :: "(nat \<Rightarrow> Timestamp \<times> Timestamp) \<Rightarrow> nat \<Rightarrow> Order list \<Rightarrow> MatchingEngine \<Rightarrow> MatchingEngine" where
  "process_all clk k [] e = e"
| "process_all clk k (order # orders) e =
     process_all clk (k + 1) orders (snd (process_new_order order (fst (clk k)) (snd (clk k)) e))"

lemma order_event_cases:
  assumes "order_event_ok event"
  obtains order where "ev_type event = EventNewOrder" "ev_payload event = PayOrder order" "in_i64 (ord_quantity order)"
  | "ev_type event \<noteq> EventNewOrder" "orders_of (event # events) = orders_of events"
proof (cases "ev_type event = EventNewOrder")
  case True
  with assms that(1) show thesis by (auto simp: order_event_ok_def)
next
  case False
  then have "orders_of (event # events) = orders_of events" by (cases "ev_type event") simp_all
  with False show thesis by (rule that(2))
qed

lemma matching_fold:
  "list_all order_event_ok events \<Longrightarrow> fold (matching_step clk) events (Some (k, e)) =
    Some (k + length (orders_of events), process_all clk k (orders_of events) e)"
proof (induction events arbitrary: k e)
  case (Cons event events)
  then have "order_event_ok event" by simp
  then show ?case
  proof (cases rule: order_event_cases [where events = events])
    case (1 order)
    with Cons show ?thesis by (simp add: matching_step_def)
  next
    case 2
    with Cons show ?thesis by (simp add: matching_step_def)
  qed
qed simp

lemma orders_of_range: "list_all order_event_ok events \<Longrightarrow> \<forall>order \<in> set (orders_of events). in_i64 (ord_quantity order)"
proof (induction events)
  case (Cons event events)
  then have "order_event_ok event" by simp
  then show ?case by (cases rule: order_event_cases [where events = events]) (use Cons in auto)
qed simp

lemma process_all_reach:
  "engine_reach e \<Longrightarrow> \<forall>order \<in> set orders. in_i64 (ord_quantity order) \<Longrightarrow> engine_reach (process_all clk k orders e)"
proof (induction orders arbitrary: k e)
  case (Cons order orders)
  from engine_reach.step [OF Cons.prems(1) engine_step.new_order] Cons.prems(2)
  have "engine_reach (snd (process_new_order order (fst (clk k)) (snd (clk k)) e))" by simp
  from Cons.IH [OF this] Cons.prems(2) show ?case by simp
qed simp

text \<open>Every new order is counted, whatever becomes of it.\<close>

lemma orders_processed_frame [simp]:
  "orders_processed (emit c out e) = orders_processed e"
  "orders_processed (publish_market_data symbol ts e) = orders_processed e"
  "orders_processed (risk_fill order rpt e) = orders_processed e"
  "orders_processed (snd (risk_check order e)) = orders_processed e"
  "orders_processed (snd (reject_order order reason ts e)) = orders_processed e"
  by (simp_all add: emit_def publish_market_data_def risk_fill_def risk_check_def reject_order_def
      case_prod_unfold Let_def split: option.split)

lemma callback_orders [simp]: "orders_processed (book_callback ev e) = orders_processed e"
  by (cases ev) (simp_all add: Let_def split: option.split)

lemma settle_orders [simp]: "orders_processed (settle symbol st book e) = orders_processed e"
proof -
  have "orders_processed (fold book_callback evs e) = orders_processed e" for evs e
    by (induction evs arbitrary: e) simp_all
  then show ?thesis by (simp add: settle_def)
qed

lemma new_order_counted: "orders_processed (snd (process_new_order order ts ts' e)) = orders_processed e + 1"
  by (simp add: process_new_order_def case_prod_unfold Let_def split: option.split)

lemma process_all_counted:
  "orders_processed (process_all clk k orders e) = orders_processed e + word_of_nat (length orders)"
  by (induction orders arbitrary: k e) (simp_all add: new_order_counted)

end
