(* ===== verification/Weak_Memory.thy ===== *)
theory Weak_Memory
  imports HFT_Prelude
begin

text \<open>
  The part of the C++ memory model that the sources rely on, as an operational semantics of
  views.  An atomic object keeps the history of its stores, in modification order.  Every thread
  has a view: for each object, the latest store it knows of.  A load may read any store that is
  not older than that, so a thread can see old values of several objects in any combination.  A
  release store publishes the view of its thread together with the value, and an acquire load
  that reads it takes that view over; relaxed accesses do neither.

  An object is stored to by one thread only, or by exchanges, which read the newest store and
  continue what it published; either way a store is appended to the history.  A plain object
  keeps count of the accesses to it instead; an access by a thread that does not know of those
  it conflicts with is a data race, for which C++ defines no behaviour.
\<close>

datatype memory_order = Relaxed | Acquire | Release | AcqRel

fun acquires :: "memory_order \<Rightarrow> bool" where
  "acquires Acquire = True"
| "acquires AcqRel = True"
| "acquires mo = False"

fun releases :: "memory_order \<Rightarrow> bool" where
  "releases Release = True"
| "releases AcqRel = True"
| "releases mo = False"

type_synonym 'l view = "'l \<Rightarrow> nat"
type_synonym ('v, 'l) history = "('v \<times> 'l view) list"

definition no_view :: "'l view" where
  "no_view = (\<lambda>_. 0)"

definition join :: "'l view \<Rightarrow> 'l view \<Rightarrow> 'l view" where
  "join v w = (\<lambda>l. max (v l) (w l))"

text \<open>The stores a thread may read.\<close>

definition readable :: "'l \<Rightarrow> 'l view \<Rightarrow> ('v, 'l) history \<Rightarrow> nat \<Rightarrow> bool" where
  "readable l v h i \<longleftrightarrow> v l \<le> i \<and> i < length h"

definition load_view :: "memory_order \<Rightarrow> 'l \<Rightarrow> ('v, 'l) history \<Rightarrow> nat \<Rightarrow> 'l view \<Rightarrow> 'l view" where
  "load_view mo l h i v =
     (let v' = v(l := i) in if acquires mo then join v' (snd (h ! i)) else v')"

definition store_view :: "'l \<Rightarrow> ('v, 'l) history \<Rightarrow> 'l view \<Rightarrow> 'l view" where
  "store_view l h v = v(l := length h)"

definition store_history ::
  "memory_order \<Rightarrow> 'l \<Rightarrow> 'v \<Rightarrow> 'l view \<Rightarrow> ('v, 'l) history \<Rightarrow> ('v, 'l) history" where
  "store_history mo l x v h = h @ [(x, store_view l h (if releases mo then v else no_view))]"

text \<open>The store of an exchange: it publishes what the store it read published, and with a release order
  also what its own thread knows.\<close>

definition exchange_history ::
  "memory_order \<Rightarrow> 'l \<Rightarrow> 'v \<Rightarrow> 'l view \<Rightarrow> ('v, 'l) history \<Rightarrow> ('v, 'l) history" where
  "exchange_history mo l x v h =
     h @ [(x, store_view l h (join (snd (last h)) (if releases mo then v else no_view)))]"

lemma join_apply [simp]: "join v w l = max (v l) (w l)"
  by (simp add: join_def)

lemma no_view_apply [simp]: "no_view l = 0"
  by (simp add: no_view_def)

text \<open>A message knows at least its own store; then an acquire load is a join.\<close>

lemma acquire_join:
  assumes "readable l v h i" "snd (h ! i) l = i" "acquires mo"
  shows "load_view mo l h i v = join v (snd (h ! i))"
  using assms by (auto simp: load_view_def readable_def fun_eq_iff)

lemma relaxed_own:
  assumes "readable l v h i" "v l = length h - 1"
  shows "i = length h - 1" "load_view Relaxed l h i v = v"
  using assms by (auto simp: load_view_def readable_def fun_eq_iff)

end
