(* ===== verification/Ring_Orders.thy ===== *)
theory Ring_Orders
  imports Ring_Buffer Weak_Memory
begin

text \<open>
  The ring buffer of \<^verbatim>\<open>src/src/HPRingBuffer.hpp\<close> under the memory orders it asks for.  One producer
  and one consumer run \<open>push\<close> and \<open>pop\<close> access by access; every atomic load may return any store
  its thread is not yet past, and the slots are plain objects.  The consumer moves the element
  out, which writes the slot: \<open>moved\<close> is what the move leaves behind.  Where moving is copying,
  \<open>moved\<close> is the identity; counting the access as a write then only asks for more.

  The orders of the source make this machine behave like the interleaving of \<open>spsc_step\<close>, without
  a data race (\<open>ring_orders_suffice\<close>); and each of the four orders that are not relaxed is needed
  (\<open>ring_orders_needed\<close>).
\<close>

section \<open>The machine\<close>

datatype ring_loc = HeadLoc | TailLoc | SlotLoc nat

text \<open>The orders of an operation: its load of its own index, its load of the other index, its store.\<close>

record op_orders =
  own_load :: memory_order
  other_load :: memory_order
  own_store :: memory_order

definition push_orders :: op_orders where
  "push_orders = \<lparr>own_load = Relaxed, other_load = Acquire, own_store = Release\<rparr>"

definition pop_orders :: op_orders where
  "pop_orders = \<lparr>own_load = Relaxed, other_load = Acquire, own_store = Release\<rparr>"

text \<open>The points between the accesses, with the local variables.\<close>

datatype 'a push_pc = WIdle | WHead 'a u64 | WRoom 'a u64 | WWritten 'a u64

datatype 'a pop_pc = RIdle | RTail u64 | RSome u64 | RMoved 'a u64

record 'a weak_ring =
  wr_heads :: "(u64, ring_loc) history"
  wr_tails :: "(u64, ring_loc) history"
  wr_slots :: "'a list"
  wr_writes :: "nat \<Rightarrow> nat"
  wr_pview :: "ring_loc view"
  wr_cview :: "ring_loc view"
  wr_producer :: "'a push_pc"
  wr_consumer :: "'a pop_pc"
  wr_race :: bool
  wr_pushed :: "'a list"
  wr_popped :: "'a list"

definition weak_init :: "'a \<Rightarrow> u64 \<Rightarrow> 'a weak_ring" where
  "weak_init any Size = \<lparr>wr_heads = [(0, no_view)], wr_tails = [(0, no_view)],
     wr_slots = replicate (unat Size) any, wr_writes = (\<lambda>_. 0), wr_pview = no_view, wr_cview = no_view,
     wr_producer = WIdle, wr_consumer = RIdle, wr_race = False, wr_pushed = [], wr_popped = []\<rparr>"

text \<open>Writing a slot; it races unless the thread knows of all writes to the slot.\<close>

definition write_slot :: "ring_loc view \<Rightarrow> nat \<Rightarrow> 'a \<Rightarrow> 'a weak_ring \<Rightarrow> 'a weak_ring" where
  "write_slot v k x s = s\<lparr>wr_slots := (wr_slots s)[k := x], wr_writes := (wr_writes s)(k := wr_writes s k + 1),
     wr_race := wr_race s \<or> v (SlotLoc k) \<noteq> wr_writes s k\<rparr>"

datatype 'a ring_event =
  PushLoadHead 'a nat | PushLoadTail nat | PushWrite | PushStore
| PopLoadTail nat | PopLoadHead nat | PopMove | PopStore

fun push_event :: "op_orders \<Rightarrow> u64 \<Rightarrow> 'a ring_event \<Rightarrow> 'a push_pc \<Rightarrow> 'a weak_ring \<Rightarrow> 'a weak_ring option" where
  "push_event ord Size (PushLoadHead x i) WIdle s =
     (if readable HeadLoc (wr_pview s) (wr_heads s) i
      then Some (s\<lparr>wr_producer := WHead x (fst (wr_heads s ! i)),
        wr_pview := load_view (own_load ord) HeadLoc (wr_heads s) i (wr_pview s)\<rparr>)
      else None)"
| "push_event ord Size (PushLoadTail i) (WHead x head) s =
     (if readable TailLoc (wr_pview s) (wr_tails s) i
      then Some (s\<lparr>wr_producer := if increment Size head = fst (wr_tails s ! i) then WIdle else WRoom x head,
        wr_pview := load_view (other_load ord) TailLoc (wr_tails s) i (wr_pview s)\<rparr>)
      else None)"
| "push_event ord Size PushWrite (WRoom x head) s =
     Some ((write_slot (wr_pview s) (unat head) x s)\<lparr>wr_producer := WWritten x head,
       wr_pview := (wr_pview s)(SlotLoc (unat head) := wr_writes s (unat head) + 1)\<rparr>)"
| "push_event ord Size PushStore (WWritten x head) s =
     Some (s\<lparr>wr_heads := store_history (own_store ord) HeadLoc (increment Size head) (wr_pview s) (wr_heads s),
       wr_pview := store_view HeadLoc (wr_heads s) (wr_pview s), wr_producer := WIdle,
       wr_pushed := wr_pushed s @ [x]\<rparr>)"
| "push_event ord Size ev pc s = None"

fun pop_event ::
  "op_orders \<Rightarrow> ('a \<Rightarrow> 'a) \<Rightarrow> u64 \<Rightarrow> 'a ring_event \<Rightarrow> 'a pop_pc \<Rightarrow> 'a weak_ring \<Rightarrow> 'a weak_ring option" where
  "pop_event ord moved Size (PopLoadTail i) RIdle s =
     (if readable TailLoc (wr_cview s) (wr_tails s) i
      then Some (s\<lparr>wr_consumer := RTail (fst (wr_tails s ! i)),
        wr_cview := load_view (own_load ord) TailLoc (wr_tails s) i (wr_cview s)\<rparr>)
      else None)"
| "pop_event ord moved Size (PopLoadHead i) (RTail tail) s =
     (if readable HeadLoc (wr_cview s) (wr_heads s) i
      then Some (s\<lparr>wr_consumer := if tail = fst (wr_heads s ! i) then RIdle else RSome tail,
        wr_cview := load_view (other_load ord) HeadLoc (wr_heads s) i (wr_cview s)\<rparr>)
      else None)"
| "pop_event ord moved Size PopMove (RSome tail) s =
     (let x = wr_slots s ! unat tail
      in Some ((write_slot (wr_cview s) (unat tail) (moved x) s)\<lparr>wr_consumer := RMoved x tail,
        wr_cview := (wr_cview s)(SlotLoc (unat tail) := wr_writes s (unat tail) + 1)\<rparr>))"
| "pop_event ord moved Size PopStore (RMoved x tail) s =
     Some (s\<lparr>wr_tails := store_history (own_store ord) TailLoc (increment Size tail) (wr_cview s) (wr_tails s),
       wr_cview := store_view TailLoc (wr_tails s) (wr_cview s), wr_consumer := RIdle,
       wr_popped := wr_popped s @ [x]\<rparr>)"
| "pop_event ord moved Size ev pc s = None"

definition ring_event ::
  "op_orders \<Rightarrow> op_orders \<Rightarrow> ('a \<Rightarrow> 'a) \<Rightarrow> u64 \<Rightarrow> 'a ring_event \<Rightarrow> 'a weak_ring \<Rightarrow> 'a weak_ring option" where
  "ring_event po co moved Size ev s =
     (case push_event po Size ev (wr_producer s) s of
        Some s' \<Rightarrow> Some s'
      | None \<Rightarrow> pop_event co moved Size ev (wr_consumer s) s)"

inductive ring_runs :: "op_orders \<Rightarrow> op_orders \<Rightarrow> ('a \<Rightarrow> 'a) \<Rightarrow> u64 \<Rightarrow> 'a weak_ring \<Rightarrow> bool"
  for po co moved Size where
  start: "ring_runs po co moved Size (weak_init any Size)"
| event: "ring_runs po co moved Size s \<Longrightarrow> ring_event po co moved Size ev s = Some s' \<Longrightarrow>
    ring_runs po co moved Size s'"

section \<open>Counting the accesses to a slot\<close>

text \<open>How many of the first \<open>m\<close> elements pass through slot \<open>k\<close> of \<open>n\<close>.\<close>

primrec uses :: "nat \<Rightarrow> nat \<Rightarrow> nat \<Rightarrow> nat" where
  "uses n k 0 = 0"
| "uses n k (Suc m) = uses n k m + (if m mod n = k then 1 else 0)"

lemma uses_mono: "m \<le> m' \<Longrightarrow> uses n k m \<le> uses n k m'"
  by (induction m') (auto simp: le_Suc_eq)

lemma mod_apart: "a < b \<Longrightarrow> b < a + n \<Longrightarrow> b mod n \<noteq> a mod n" for a b n :: nat
  by (metis add_diff_cancel_left' add_less_cancel_left less_imp_add_positive mod_eq_dvd_iff_nat nat_dvd_not_less less_imp_le_nat)

lemma uses_before: "j \<le> h \<Longrightarrow> h < j + n \<Longrightarrow> uses n (h mod n) j = uses n (h mod n) h"
proof (induction "h - j" arbitrary: j)
  case (Suc d)
  then have "uses n (h mod n) (Suc j) = uses n (h mod n) h" by (intro Suc.hyps(1)) auto
  moreover have "h mod n \<noteq> j mod n" using Suc by (intro mod_apart) auto
  ultimately show ?case by simp
qed simp

lemma uses_after: "t < i \<Longrightarrow> i \<le> t + n \<Longrightarrow> uses n (t mod n) i = uses n (t mod n) t + 1"
proof (induction i)
  case (Suc i)
  show ?case
  proof (cases "t = i")
    case False
    with Suc have "i mod n \<noteq> t mod n" by (intro mod_apart) auto
    with Suc False show ?thesis by simp
  qed simp
qed simp

text \<open>A view that knows of a push or a pop knows of the writes to the slots that went before.\<close>

definition knows_slots :: "nat \<Rightarrow> ring_loc view \<Rightarrow> bool" where
  "knows_slots n v \<longleftrightarrow> (\<forall>k < n. 2 * uses n k (v TailLoc) \<le> v (SlotLoc k) \<and>
     2 * uses n k (v HeadLoc) \<le> v (SlotLoc k) + 1)"

definition view_below :: "nat \<Rightarrow> nat \<Rightarrow> (nat \<Rightarrow> nat) \<Rightarrow> ring_loc view \<Rightarrow> bool" where
  "view_below h t ver v \<longleftrightarrow> v HeadLoc \<le> h \<and> v TailLoc \<le> t \<and> (\<forall>k. v (SlotLoc k) \<le> ver k)"

lemma knows_slots_join: "knows_slots n v \<Longrightarrow> knows_slots n w \<Longrightarrow> knows_slots n (join v w)"
  by (auto simp: knows_slots_def max_def intro: order_trans)

lemma view_below_join: "view_below h t ver v \<Longrightarrow> view_below h t ver w \<Longrightarrow> view_below h t ver (join v w)"
  by (simp add: view_below_def)

lemma view_below_mono:
  "view_below h t ver v \<Longrightarrow> h \<le> h' \<Longrightarrow> t \<le> t' \<Longrightarrow> (\<And>k. ver k \<le> ver' k) \<Longrightarrow> view_below h' t' ver' v"
  by (auto simp: view_below_def intro: order_trans)

section \<open>The invariant\<close>

definition history_ok ::
  "nat \<Rightarrow> ring_loc \<Rightarrow> nat \<Rightarrow> nat \<Rightarrow> (nat \<Rightarrow> nat) \<Rightarrow> (u64, ring_loc) history \<Rightarrow> bool" where
  "history_ok n l h t ver hs \<longleftrightarrow> hs \<noteq> [] \<and> (\<forall>i < length hs. unat (fst (hs ! i)) = i mod n \<and>
     snd (hs ! i) l = i \<and> knows_slots n (snd (hs ! i)) \<and> view_below h t ver (snd (hs ! i)))"

text \<open>What a thread knows at each point: \<open>h\<close> elements were pushed, \<open>t\<close> were popped.\<close>

fun push_ok :: "nat \<Rightarrow> nat \<Rightarrow> ring_loc view \<Rightarrow> 'a push_pc \<Rightarrow> bool" where
  "push_ok n h v WIdle \<longleftrightarrow> h + 1 \<le> v TailLoc + n"
| "push_ok n h v (WHead x head) \<longleftrightarrow> h + 1 \<le> v TailLoc + n \<and> unat head = h mod n"
| "push_ok n h v (WRoom x head) \<longleftrightarrow> h + 2 \<le> v TailLoc + n \<and> unat head = h mod n"
| "push_ok n h v (WWritten x head) \<longleftrightarrow> h + 2 \<le> v TailLoc + n \<and> unat head = h mod n \<and>
     2 * uses n (h mod n) h + 1 \<le> v (SlotLoc (h mod n))"

fun pop_ok :: "nat \<Rightarrow> nat \<Rightarrow> ring_loc view \<Rightarrow> 'a pop_pc \<Rightarrow> bool" where
  "pop_ok n t v RIdle \<longleftrightarrow> t \<le> v HeadLoc"
| "pop_ok n t v (RTail tail) \<longleftrightarrow> t \<le> v HeadLoc \<and> unat tail = t mod n"
| "pop_ok n t v (RSome tail) \<longleftrightarrow> t < v HeadLoc \<and> unat tail = t mod n"
| "pop_ok n t v (RMoved x tail) \<longleftrightarrow> t < v HeadLoc \<and> unat tail = t mod n \<and>
     2 * uses n (t mod n) t + 2 \<le> v (SlotLoc (t mod n))"

fun written :: "'a push_pc \<Rightarrow> nat" where
  "written (WWritten x head) = 1"
| "written pc = 0"

fun taken :: "'a pop_pc \<Rightarrow> nat" where
  "taken (RMoved x tail) = 1"
| "taken pc = 0"

abbreviation pushes :: "'a weak_ring \<Rightarrow> nat" where "pushes s \<equiv> length (wr_heads s) - 1"
abbreviation pops :: "'a weak_ring \<Rightarrow> nat" where "pops s \<equiv> length (wr_tails s) - 1"

definition weak_inv :: "u64 \<Rightarrow> 'a weak_ring \<Rightarrow> bool" where
  "weak_inv Size s \<longleftrightarrow> size_ok Size \<and>
     history_ok (unat Size) HeadLoc (pushes s) (pops s) (wr_writes s) (wr_heads s) \<and>
     history_ok (unat Size) TailLoc (pushes s) (pops s) (wr_writes s) (wr_tails s) \<and>
     view_below (pushes s) (pops s) (wr_writes s) (wr_pview s) \<and> knows_slots (unat Size) (wr_pview s) \<and>
     view_below (pushes s) (pops s) (wr_writes s) (wr_cview s) \<and> knows_slots (unat Size) (wr_cview s) \<and>
     wr_pview s HeadLoc = pushes s \<and> wr_cview s TailLoc = pops s \<and>
     (\<forall>k < unat Size. wr_writes s k =
        uses (unat Size) k (pushes s + written (wr_producer s)) + uses (unat Size) k (pops s + taken (wr_consumer s))) \<and>
     push_ok (unat Size) (pushes s) (wr_pview s) (wr_producer s) \<and>
     pop_ok (unat Size) (pops s) (wr_cview s) (wr_consumer s) \<and> \<not> wr_race s"

lemma size_ok_pos: "size_ok Size \<Longrightarrow> 0 < unat Size"
  by (simp add: size_ok_def unat_gt_0)

lemma weak_inv_init: "size_ok Size \<Longrightarrow> weak_inv Size (weak_init any Size)"
  using size_ok_pos [of Size]
  by (simp add: weak_inv_def weak_init_def history_ok_def knows_slots_def view_below_def)

lemma history_ok_mono:
  "history_ok n l h t ver hs \<Longrightarrow> h \<le> h' \<Longrightarrow> t \<le> t' \<Longrightarrow> (\<And>k. ver k \<le> ver' k) \<Longrightarrow> history_ok n l h' t' ver' hs"
  unfolding history_ok_def by (meson view_below_mono)

text \<open>An acquire load keeps what a thread knows and adds the store that was read.\<close>

lemma acquire_ok:
  assumes h: "history_ok n l a b ver hs" and r: "readable l v hs i"
    and v: "knows_slots n v" "view_below a b ver v"
  defines "v' \<equiv> load_view Acquire l hs i v"
  shows "knows_slots n v'" "view_below a b ver v'" "v' l = i" "v k \<le> v' k" "v l \<le> i" "unat (fst (hs ! i)) = i mod n"
proof -
  from r h have m: "snd (hs ! i) l = i" "knows_slots n (snd (hs ! i))" "view_below a b ver (snd (hs ! i))"
    "v l \<le> i" "unat (fst (hs ! i)) = i mod n" by (simp_all add: readable_def history_ok_def)
  then have "v' = join v (snd (hs ! i))" unfolding v'_def by (intro acquire_join [OF r]) simp_all
  with m v show "knows_slots n v'" "view_below a b ver v'" "v' l = i" "v k \<le> v' k" "v l \<le> i"
    "unat (fst (hs ! i)) = i mod n" by (simp_all add: knows_slots_join view_below_join)
qed

lemma weak_inv_bounds:
  assumes "weak_inv Size s"
  shows "pops s \<le> pushes s" "pops s + taken (wr_consumer s) \<le> wr_cview s HeadLoc" "wr_cview s HeadLoc \<le> pushes s"
    "pushes s + written (wr_producer s) + 1 \<le> wr_pview s TailLoc + unat Size" "wr_pview s TailLoc \<le> pops s"
proof -
  have *: "pop_ok (unat Size) (pops s) (wr_cview s) (wr_consumer s)" "push_ok (unat Size) (pushes s) (wr_pview s) (wr_producer s)"
    "wr_cview s HeadLoc \<le> pushes s" "wr_pview s TailLoc \<le> pops s"
    using assms by (simp_all add: weak_inv_def view_below_def)
  from * show "pops s + taken (wr_consumer s) \<le> wr_cview s HeadLoc" "wr_cview s HeadLoc \<le> pushes s" "wr_pview s TailLoc \<le> pops s"
    "pushes s + written (wr_producer s) + 1 \<le> wr_pview s TailLoc + unat Size"
    by (cases "wr_consumer s"; cases "wr_producer s"; simp)+
  then show "pops s \<le> pushes s" by simp
qed

lemma head_loaded:
  assumes inv: "weak_inv Size s" and ev: "push_event push_orders Size (PushLoadHead x i) (wr_producer s) s = Some s'"
  shows "wr_producer s = WIdle" "s' = s\<lparr>wr_producer := WHead x (fst (last (wr_heads s)))\<rparr>"
    "unat (fst (last (wr_heads s))) = pushes s mod unat Size" "weak_inv Size s'"
proof -
  show idle: "wr_producer s = WIdle" using ev by (cases "wr_producer s") (auto split: if_splits)
  with ev have r: "readable HeadLoc (wr_pview s) (wr_heads s) i" by (auto split: if_splits)
  have own: "wr_pview s HeadLoc = pushes s" "wr_heads s \<noteq> []"
    "unat (fst (wr_heads s ! pushes s)) = pushes s mod unat Size" using inv by (simp_all add: weak_inv_def history_ok_def)
  note * = relaxed_own [OF r own(1)]
  show s': "s' = s\<lparr>wr_producer := WHead x (fst (last (wr_heads s)))\<rparr>"
    using ev r own(2) *(2) by (simp add: idle push_orders_def last_conv_nth *(1) [symmetric] del: One_nat_def)
  show "unat (fst (last (wr_heads s))) = pushes s mod unat Size" using own by (simp add: last_conv_nth)
  then show "weak_inv Size s'" using inv unfolding s' by (simp add: weak_inv_def idle)
qed

lemma tail_loaded:
  assumes inv: "weak_inv Size s" and ev: "pop_event pop_orders moved Size (PopLoadTail i) (wr_consumer s) s = Some s'"
  shows "wr_consumer s = RIdle" "s' = s\<lparr>wr_consumer := RTail (fst (last (wr_tails s)))\<rparr>"
    "unat (fst (last (wr_tails s))) = pops s mod unat Size" "weak_inv Size s'"
proof -
  show idle: "wr_consumer s = RIdle" using ev by (cases "wr_consumer s") (auto split: if_splits)
  with ev have r: "readable TailLoc (wr_cview s) (wr_tails s) i" by (auto split: if_splits)
  have own: "wr_cview s TailLoc = pops s" "wr_tails s \<noteq> []"
    "unat (fst (wr_tails s ! pops s)) = pops s mod unat Size" using inv by (simp_all add: weak_inv_def history_ok_def)
  note * = relaxed_own [OF r own(1)]
  show s': "s' = s\<lparr>wr_consumer := RTail (fst (last (wr_tails s)))\<rparr>"
    using ev r own(2) *(2) by (simp add: idle pop_orders_def last_conv_nth *(1) [symmetric] del: One_nat_def)
  show "unat (fst (last (wr_tails s))) = pops s mod unat Size" using own by (simp add: last_conv_nth)
  then show "weak_inv Size s'" using inv unfolding s' by (simp add: weak_inv_def idle)
qed

lemma tail_seen:
  assumes inv: "weak_inv Size s" and ev: "push_event push_orders Size (PushLoadTail i) (wr_producer s) s = Some s'"
  shows "\<exists>x head v pc. wr_producer s = WHead x head \<and> pc \<in> {WIdle, WRoom x head} \<and>
    s' = s\<lparr>wr_producer := pc, wr_pview := v\<rparr> \<and> weak_inv Size s'"
proof -
  obtain x head where pc: "wr_producer s = WHead x head" using ev by (cases "wr_producer s") auto
  then have r: "readable TailLoc (wr_pview s) (wr_tails s) i" using ev by (auto split: if_splits)
  define v where "v = load_view Acquire TailLoc (wr_tails s) i (wr_pview s)"
  define pc' where "pc' = (if increment Size head = fst (wr_tails s ! i) then WIdle else WRoom x head)"
  have s': "s' = s\<lparr>wr_producer := pc', wr_pview := v\<rparr>"
    using ev r by (simp add: pc push_orders_def v_def pc'_def)
  have hist: "history_ok (unat Size) TailLoc (pushes s) (pops s) (wr_writes s) (wr_tails s)"
    and old: "knows_slots (unat Size) (wr_pview s)" "view_below (pushes s) (pops s) (wr_writes s) (wr_pview s)"
      "wr_pview s HeadLoc = pushes s" "pushes s + 1 \<le> wr_pview s TailLoc + unat Size" "unat head = pushes s mod unat Size"
    and size: "size_ok Size" using inv by (simp_all add: weak_inv_def pc)
  note a = acquire_ok [OF hist r old(1,2), folded v_def]
  have "v HeadLoc = pushes s" using a(2) a(4) [of HeadLoc] old(3) by (simp add: view_below_def)
  moreover have "push_ok (unat Size) (pushes s) v pc'"
  proof (cases "increment Size head = fst (wr_tails s ! i)")
    case False
    have "head < Size" using old(5) size_ok_pos [OF size] by (simp add: word_less_nat_alt)
    then have "(unat head + 1) mod unat Size \<noteq> i mod unat Size"
      using False a(6) increment_mod(1) [OF size] by (metis word_unat_eq_iff)
    then have "(pushes s + 1) mod unat Size \<noteq> i mod unat Size" by (simp only: old(5) mod_add_left_eq not_False_eq_True)
    then have "pushes s + 1 \<noteq> i + unat Size" by (metis mod_add_self2)
    then show ?thesis using old(4,5) a(3,5) False by (simp add: pc'_def)
  qed (use old(4) a(3,5) in \<open>simp add: pc'_def\<close>)
  moreover have "written pc' = 0" by (simp add: pc'_def)
  ultimately have "weak_inv Size s'" using inv a(1,2) unfolding s' by (simp add: weak_inv_def pc)
  then show ?thesis using pc s' by (auto simp: pc'_def)
qed

lemma head_seen:
  assumes inv: "weak_inv Size s" and ev: "pop_event pop_orders moved Size (PopLoadHead i) (wr_consumer s) s = Some s'"
  shows "\<exists>tail v pc. wr_consumer s = RTail tail \<and> pc \<in> {RIdle, RSome tail} \<and>
    s' = s\<lparr>wr_consumer := pc, wr_cview := v\<rparr> \<and> weak_inv Size s'"
proof -
  obtain tail where pc: "wr_consumer s = RTail tail" using ev by (cases "wr_consumer s") auto
  then have r: "readable HeadLoc (wr_cview s) (wr_heads s) i" using ev by (auto split: if_splits)
  define v where "v = load_view Acquire HeadLoc (wr_heads s) i (wr_cview s)"
  define pc' :: "'a pop_pc" where "pc' = (if tail = fst (wr_heads s ! i) then RIdle else RSome tail)"
  have s': "s' = s\<lparr>wr_consumer := pc', wr_cview := v\<rparr>"
    using ev r by (simp add: pc pop_orders_def v_def pc'_def)
  have hist: "history_ok (unat Size) HeadLoc (pushes s) (pops s) (wr_writes s) (wr_heads s)"
    and old: "knows_slots (unat Size) (wr_cview s)" "view_below (pushes s) (pops s) (wr_writes s) (wr_cview s)"
      "wr_cview s TailLoc = pops s" "pops s \<le> wr_cview s HeadLoc" "unat tail = pops s mod unat Size"
    and size: "size_ok Size" using inv by (simp_all add: weak_inv_def pc)
  note a = acquire_ok [OF hist r old(1,2), folded v_def]
  have "v TailLoc = pops s" using a(2) a(4) [of TailLoc] old(3) by (simp add: view_below_def)
  moreover have "pop_ok (unat Size) (pops s) v pc'"
  proof (cases "tail = fst (wr_heads s ! i)")
    case False
    then have "pops s mod unat Size \<noteq> i mod unat Size" using old(5) a(6) by (metis word_unat_eq_iff)
    then have "i \<noteq> pops s" by metis
    then show ?thesis using old(4,5) a(3,5) False by (simp add: pc'_def)
  qed (use old(4) a(3,5) in \<open>simp add: pc'_def\<close>)
  moreover have "taken pc' = 0" by (simp add: pc'_def)
  ultimately have "weak_inv Size s'" using inv a(1,2) unfolding s' by (simp add: weak_inv_def pc)
  then show ?thesis using pc s' by (auto simp: pc'_def)
qed

text \<open>Writing a slot needs a view that knows of all writes to it; then only the counts move.\<close>

lemma view_below_slot:
  assumes "view_below h t ver v"
  shows "view_below h t (ver(k := ver k + 1)) (v(SlotLoc k := ver k + 1))"
  using assms by (auto simp: view_below_def)

lemma view_below_other: "view_below h t ver v \<Longrightarrow> view_below h t (ver(k := ver k + 1)) v"
  by (erule view_below_mono) simp_all

lemma history_ok_slot: "history_ok n l h t ver hs \<Longrightarrow> history_ok n l h t (ver(k := ver k + 1)) hs"
  by (erule history_ok_mono) simp_all

lemma knows_slots_slot:
  "view_below h t ver v \<Longrightarrow> knows_slots n v \<Longrightarrow> knows_slots n (v(SlotLoc k := ver k + 1))"
  unfolding knows_slots_def view_below_def
  by (auto intro: order_trans [OF _ le_SucI] order_trans [OF _ Suc_le_mono [THEN iffD2]])

lemma slot_written:
  assumes inv: "weak_inv Size s" and ev: "push_event ord Size PushWrite (wr_producer s) s = Some s'"
  shows "\<exists>x head v w. wr_producer s = WRoom x head \<and> unat head = pushes s mod unat Size \<and>
    s' = s\<lparr>wr_slots := (wr_slots s)[unat head := x], wr_writes := w, wr_pview := v, wr_producer := WWritten x head\<rparr> \<and>
    weak_inv Size s'"
proof -
  obtain x head where pc: "wr_producer s = WRoom x head" using ev by (cases "wr_producer s") auto
  let ?k = "unat head" and ?n = "unat Size"
  have old: "view_below (pushes s) (pops s) (wr_writes s) (wr_pview s)" "view_below (pushes s) (pops s) (wr_writes s) (wr_cview s)"
      "knows_slots ?n (wr_pview s)" "pushes s + 2 \<le> wr_pview s TailLoc + ?n" "?k = pushes s mod ?n"
      "wr_pview s HeadLoc = pushes s" "\<not> wr_race s"
    and size: "size_ok Size" using inv by (simp_all add: weak_inv_def pc)
  have hist: "history_ok ?n HeadLoc (pushes s) (pops s) (wr_writes s) (wr_heads s)"
    "history_ok ?n TailLoc (pushes s) (pops s) (wr_writes s) (wr_tails s)" using inv by (simp_all add: weak_inv_def)
  have count: "k < ?n \<Longrightarrow> wr_writes s k = uses ?n k (pushes s) + uses ?n k (pops s + taken (wr_consumer s))" for k
    using inv by (simp add: weak_inv_def pc)
  note b = weak_inv_bounds [OF inv]
  have k: "?k < ?n" using old(5) size_ok_pos [OF size] by simp
  have "uses ?n ?k (wr_pview s TailLoc) = uses ?n ?k (pushes s)"
    "uses ?n ?k (pops s + taken (wr_consumer s)) = uses ?n ?k (pushes s)"
    unfolding old(5) using b old(4) by (intro uses_before; linarith)+
  moreover have "2 * uses ?n ?k (wr_pview s TailLoc) \<le> wr_pview s (SlotLoc ?k)" "wr_pview s (SlotLoc ?k) \<le> wr_writes s ?k"
    using old(1,3) k by (simp_all add: knows_slots_def view_below_def)
  ultimately have known: "wr_pview s (SlotLoc ?k) = wr_writes s ?k" "wr_writes s ?k = 2 * uses ?n ?k (pushes s)"
    using count [OF k] by simp_all
  let ?w = "(wr_writes s)(?k := wr_writes s ?k + 1)" and ?v = "(wr_pview s)(SlotLoc ?k := wr_writes s ?k + 1)"
  have s': "s' = s\<lparr>wr_slots := (wr_slots s)[?k := x], wr_writes := ?w, wr_pview := ?v, wr_producer := WWritten x head\<rparr>"
    using ev old(7) known(1) by (auto simp: pc write_slot_def)
  have "?w k = uses ?n k (pushes s + 1) + uses ?n k (pops s + taken (wr_consumer s))" if "k < ?n" for k
    using count [OF that] old(5) by auto
  moreover have "push_ok ?n (pushes s) ?v (WWritten x head)" using old(4,5) known(2) by simp
  ultimately have "weak_inv Size s'"
    using inv view_below_slot [OF old(1)] view_below_other [OF old(2)] knows_slots_slot [OF old(1,3)]
      hist [THEN history_ok_slot]
    unfolding s' by (simp add: weak_inv_def pc old(5) known(2) [unfolded old(5)])
  with pc s' old(5) show ?thesis by blast
qed

lemma slot_emptied:
  assumes inv: "weak_inv Size s" and ev: "pop_event ord moved Size PopMove (wr_consumer s) s = Some s'"
  shows "\<exists>tail v w. wr_consumer s = RSome tail \<and> unat tail = pops s mod unat Size \<and>
    s' = s\<lparr>wr_slots := (wr_slots s)[unat tail := moved (wr_slots s ! unat tail)], wr_writes := w, wr_cview := v,
      wr_consumer := RMoved (wr_slots s ! unat tail) tail\<rparr> \<and>
    weak_inv Size s'"
proof -
  obtain tail where pc: "wr_consumer s = RSome tail" using ev by (cases "wr_consumer s") auto
  let ?k = "unat tail" and ?n = "unat Size"
  have old: "view_below (pushes s) (pops s) (wr_writes s) (wr_pview s)" "view_below (pushes s) (pops s) (wr_writes s) (wr_cview s)"
      "knows_slots ?n (wr_cview s)" "pops s < wr_cview s HeadLoc" "?k = pops s mod ?n"
      "wr_cview s TailLoc = pops s" "\<not> wr_race s"
    and size: "size_ok Size" using inv by (simp_all add: weak_inv_def pc)
  have hist: "history_ok ?n HeadLoc (pushes s) (pops s) (wr_writes s) (wr_heads s)"
    "history_ok ?n TailLoc (pushes s) (pops s) (wr_writes s) (wr_tails s)" using inv by (simp_all add: weak_inv_def)
  have count: "k < ?n \<Longrightarrow> wr_writes s k = uses ?n k (pushes s + written (wr_producer s)) + uses ?n k (pops s)" for k
    using inv by (simp add: weak_inv_def pc)
  note b = weak_inv_bounds [OF inv]
  have k: "?k < ?n" using old(5) size_ok_pos [OF size] by simp
  have "uses ?n ?k (wr_cview s HeadLoc) = uses ?n ?k (pops s) + 1"
    "uses ?n ?k (pushes s + written (wr_producer s)) = uses ?n ?k (pops s) + 1"
    unfolding old(5) using b old(4) by (intro uses_after; linarith)+
  moreover have "2 * uses ?n ?k (wr_cview s HeadLoc) \<le> wr_cview s (SlotLoc ?k) + 1" "wr_cview s (SlotLoc ?k) \<le> wr_writes s ?k"
    using old(2,3) k by (simp_all add: knows_slots_def view_below_def)
  ultimately have known: "wr_cview s (SlotLoc ?k) = wr_writes s ?k" "wr_writes s ?k = 2 * uses ?n ?k (pops s) + 1"
    using count [OF k] by simp_all
  let ?w = "(wr_writes s)(?k := wr_writes s ?k + 1)" and ?v = "(wr_cview s)(SlotLoc ?k := wr_writes s ?k + 1)"
  let ?x = "wr_slots s ! ?k"
  have s': "s' = s\<lparr>wr_slots := (wr_slots s)[?k := moved ?x], wr_writes := ?w, wr_cview := ?v, wr_consumer := RMoved ?x tail\<rparr>"
    using ev old(7) known(1) by (auto simp: pc write_slot_def Let_def)
  have "?w k = uses ?n k (pushes s + written (wr_producer s)) + uses ?n k (pops s + 1)" if "k < ?n" for k
    using count [OF that] old(5) by auto
  moreover have "pop_ok ?n (pops s) ?v (RMoved ?x tail)" using old(4,5) known(2) by simp
  ultimately have "weak_inv Size s'"
    using inv view_below_slot [OF old(2)] view_below_other [OF old(1)] knows_slots_slot [OF old(2,3)]
      hist [THEN history_ok_slot]
    unfolding s' by (simp add: weak_inv_def pc old(5) known(2) [unfolded old(5)])
  with pc s' old(5) show ?thesis by blast
qed

text \<open>A release store publishes what its thread knows.\<close>

lemma history_ok_store:
  assumes "history_ok n l h t ver hs" "view_below h' t' ver (v(l := length hs))" "h \<le> h'" "t \<le> t'"
    and "knows_slots n (v(l := length hs))" "unat x = length hs mod n"
  shows "history_ok n l h' t' ver (store_history Release l x v hs)"
proof -
  have "history_ok n l h' t' ver hs" by (rule history_ok_mono [OF assms(1,3,4)]) simp
  with assms(2,5,6) show ?thesis
    by (auto simp: history_ok_def store_history_def store_view_def nth_append less_Suc_eq)
qed

lemma increment_count:
  assumes "size_ok Size" "unat idx = k mod unat Size"
  shows "unat (increment Size idx) = (k + 1) mod unat Size"
proof -
  have "idx < Size" using assms size_ok_pos [OF assms(1)] by (simp add: word_less_nat_alt)
  from increment_mod(1) [OF assms(1) this] show ?thesis by (simp add: assms(2) mod_Suc_eq)
qed

lemma head_stored:
  assumes inv: "weak_inv Size s" and ev: "push_event push_orders Size PushStore (wr_producer s) s = Some s'"
  shows "\<exists>x head v h. wr_producer s = WWritten x head \<and> h \<noteq> [] \<and> length h = length (wr_heads s) + 1 \<and>
    fst (last h) = increment Size head \<and>
    s' = s\<lparr>wr_heads := h, wr_pview := v, wr_producer := WIdle, wr_pushed := wr_pushed s @ [x]\<rparr> \<and> weak_inv Size s'"
proof -
  obtain x head where pc: "wr_producer s = WWritten x head" using ev by (cases "wr_producer s") auto
  let ?n = "unat Size" and ?v = "(wr_pview s)(HeadLoc := length (wr_heads s))"
  let ?h = "store_history Release HeadLoc (increment Size head) (wr_pview s) (wr_heads s)"
  have s': "s' = s\<lparr>wr_heads := ?h, wr_pview := ?v, wr_producer := WIdle, wr_pushed := wr_pushed s @ [x]\<rparr>"
    using ev by (auto simp: pc push_orders_def store_view_def)
  have hist: "history_ok ?n HeadLoc (pushes s) (pops s) (wr_writes s) (wr_heads s)"
      "history_ok ?n TailLoc (pushes s) (pops s) (wr_writes s) (wr_tails s)"
    and view: "view_below (pushes s) (pops s) (wr_writes s) (wr_pview s)" "knows_slots ?n (wr_pview s)"
      "view_below (pushes s) (pops s) (wr_writes s) (wr_cview s)"
    and ok: "pushes s + 2 \<le> wr_pview s TailLoc + ?n" "unat head = pushes s mod ?n"
      "2 * uses ?n (pushes s mod ?n) (pushes s) + 1 \<le> wr_pview s (SlotLoc (pushes s mod ?n))"
    and own: "wr_pview s HeadLoc = pushes s" and size: "size_ok Size" using inv by (simp_all add: weak_inv_def pc)
  obtain m where len: "length (wr_heads s) = Suc m" using hist by (cases "wr_heads s") (simp_all add: history_ok_def)
  then have len': "length ?h = Suc (Suc m)" by (simp add: store_history_def)
  have below: "view_below (Suc m) (pops s) (wr_writes s) ?v" using view(1) len by (simp add: view_below_def)
  have knows: "knows_slots ?n ?v" using view(2) ok(3) own by (auto simp: knows_slots_def len)
  have "unat (increment Size head) = length (wr_heads s) mod ?n" using increment_count [OF size ok(2)] len by simp
  from history_ok_store [OF hist(1) below _ order_refl knows this]
  have new: "history_ok ?n HeadLoc (Suc m) (pops s) (wr_writes s) ?h" by (simp add: len)
  have "history_ok ?n TailLoc (Suc m) (pops s) (wr_writes s) (wr_tails s)"
    by (rule history_ok_mono [OF hist(2)]) (simp_all add: len)
  moreover have "view_below (Suc m) (pops s) (wr_writes s) (wr_cview s)"
    by (rule view_below_mono [OF view(3)]) (simp_all add: len)
  ultimately have "weak_inv Size s'"
    using inv new below knows len ok(1) unfolding s' by (simp add: weak_inv_def pc len')
  moreover have "?h \<noteq> []" "length ?h = length (wr_heads s) + 1" "fst (last ?h) = increment Size head"
    by (simp_all add: store_history_def)
  ultimately show ?thesis using pc s' by blast
qed

lemma tail_stored:
  assumes inv: "weak_inv Size s" and ev: "pop_event pop_orders moved Size PopStore (wr_consumer s) s = Some s'"
  shows "\<exists>x tail v h. wr_consumer s = RMoved x tail \<and> h \<noteq> [] \<and> length h = length (wr_tails s) + 1 \<and>
    fst (last h) = increment Size tail \<and>
    s' = s\<lparr>wr_tails := h, wr_cview := v, wr_consumer := RIdle, wr_popped := wr_popped s @ [x]\<rparr> \<and> weak_inv Size s'"
proof -
  obtain x tail where pc: "wr_consumer s = RMoved x tail" using ev by (cases "wr_consumer s") auto
  let ?n = "unat Size" and ?v = "(wr_cview s)(TailLoc := length (wr_tails s))"
  let ?h = "store_history Release TailLoc (increment Size tail) (wr_cview s) (wr_tails s)"
  have s': "s' = s\<lparr>wr_tails := ?h, wr_cview := ?v, wr_consumer := RIdle, wr_popped := wr_popped s @ [x]\<rparr>"
    using ev by (auto simp: pc pop_orders_def store_view_def)
  have hist: "history_ok ?n HeadLoc (pushes s) (pops s) (wr_writes s) (wr_heads s)"
      "history_ok ?n TailLoc (pushes s) (pops s) (wr_writes s) (wr_tails s)"
    and view: "view_below (pushes s) (pops s) (wr_writes s) (wr_cview s)" "knows_slots ?n (wr_cview s)"
      "view_below (pushes s) (pops s) (wr_writes s) (wr_pview s)"
    and ok: "pops s < wr_cview s HeadLoc" "unat tail = pops s mod ?n"
      "2 * uses ?n (pops s mod ?n) (pops s) + 2 \<le> wr_cview s (SlotLoc (pops s mod ?n))"
    and own: "wr_cview s TailLoc = pops s" and size: "size_ok Size" using inv by (simp_all add: weak_inv_def pc)
  obtain m where len: "length (wr_tails s) = Suc m" using hist by (cases "wr_tails s") (simp_all add: history_ok_def)
  then have len': "length ?h = Suc (Suc m)" by (simp add: store_history_def)
  have below: "view_below (pushes s) (Suc m) (wr_writes s) ?v" using view(1) len by (simp add: view_below_def)
  have knows: "knows_slots ?n ?v" using view(2) ok(3) own by (auto simp: knows_slots_def len)
  have "unat (increment Size tail) = length (wr_tails s) mod ?n" using increment_count [OF size ok(2)] len by simp
  from history_ok_store [OF hist(2) below order_refl _ knows this]
  have new: "history_ok ?n TailLoc (pushes s) (Suc m) (wr_writes s) ?h" by (simp add: len)
  have "history_ok ?n HeadLoc (pushes s) (Suc m) (wr_writes s) (wr_heads s)"
    by (rule history_ok_mono [OF hist(1)]) (simp_all add: len)
  moreover have "view_below (pushes s) (Suc m) (wr_writes s) (wr_pview s)"
    by (rule view_below_mono [OF view(3)]) (simp_all add: len)
  ultimately have "weak_inv Size s'"
    using inv new below knows len ok(1) unfolding s' by (simp add: weak_inv_def pc len')
  moreover have "?h \<noteq> []" "length ?h = length (wr_tails s) + 1" "fst (last ?h) = increment Size tail"
    by (simp_all add: store_history_def)
  ultimately show ?thesis using pc s' by blast
qed

section \<open>Every run is an interleaving\<close>

fun sc_producer :: "'a push_pc \<Rightarrow> 'a producer" where
  "sc_producer (WRoom x head) = PChecked x"
| "sc_producer (WWritten x head) = PWritten x"
| "sc_producer pc = PIdle"

fun sc_consumer :: "'a pop_pc \<Rightarrow> 'a consumer" where
  "sc_consumer (RSome tail) = CChecked"
| "sc_consumer (RMoved x tail) = CRead x"
| "sc_consumer pc = CIdle"

text \<open>An interleaved state that looks the same: the same indices, points and calls, and the same
  elements in the slots that hold any.\<close>

definition sc_image :: "u64 \<Rightarrow> 'a weak_ring \<Rightarrow> 'a spsc \<Rightarrow> bool" where
  "sc_image Size w s \<longleftrightarrow> rb_head (sp_ring s) = fst (last (wr_heads w)) \<and> rb_tail (sp_ring s) = fst (last (wr_tails w)) \<and>
     sp_producer s = sc_producer (wr_producer w) \<and> sp_consumer s = sc_consumer (wr_consumer w) \<and>
     sp_pushed s = wr_pushed w \<and> sp_popped s = wr_popped w \<and>
     length (rb_buffer (sp_ring s)) = unat Size \<and> length (wr_slots w) = unat Size \<and>
     (\<forall>p. pops w + taken (wr_consumer w) \<le> p \<and> p < pushes w + written (wr_producer w) \<longrightarrow>
       wr_slots w ! (p mod unat Size) = rb_buffer (sp_ring s) ! (p mod unat Size))"

lemma sc_image_init: "sc_image Size (weak_init any Size) (spsc_init any Size)"
  by (simp add: sc_image_def weak_init_def spsc_init_def new_ring_def)

text \<open>The indices that the threads use are the current ones, and they are as far apart as they were seen.\<close>

lemma image_indices:
  assumes inv: "weak_inv Size w" and img: "sc_image Size w s"
  shows "unat (rb_head (sp_ring s)) = pushes w mod unat Size" "unat (rb_tail (sp_ring s)) = pops w mod unat Size"
    "wr_producer w = WRoom x head \<or> wr_producer w = WWritten x head \<Longrightarrow> head = rb_head (sp_ring s)"
    "wr_consumer w = RSome tail \<or> wr_consumer w = RMoved x tail \<Longrightarrow> tail = rb_tail (sp_ring s)"
    "wr_producer w = WRoom x head \<Longrightarrow> increment Size (rb_head (sp_ring s)) \<noteq> rb_tail (sp_ring s)"
    "wr_consumer w = RSome tail \<Longrightarrow> rb_tail (sp_ring s) \<noteq> rb_head (sp_ring s)"
proof -
  have h: "history_ok (unat Size) HeadLoc (pushes w) (pops w) (wr_writes w) (wr_heads w)"
    "history_ok (unat Size) TailLoc (pushes w) (pops w) (wr_writes w) (wr_tails w)" "size_ok Size"
    "push_ok (unat Size) (pushes w) (wr_pview w) (wr_producer w)" "pop_ok (unat Size) (pops w) (wr_cview w) (wr_consumer w)"
    using inv by (simp_all add: weak_inv_def)
  then show ix: "unat (rb_head (sp_ring s)) = pushes w mod unat Size" "unat (rb_tail (sp_ring s)) = pops w mod unat Size"
    using img by (simp_all add: sc_image_def history_ok_def last_conv_nth)
  show "wr_producer w = WRoom x head \<or> wr_producer w = WWritten x head \<Longrightarrow> head = rb_head (sp_ring s)"
    using h(4) ix(1) by (auto simp: word_unat_eq_iff)
  show "wr_consumer w = RSome tail \<or> wr_consumer w = RMoved x tail \<Longrightarrow> tail = rb_tail (sp_ring s)"
    using h(5) ix(2) by (auto simp: word_unat_eq_iff)
  note b = weak_inv_bounds [OF inv]
  show "increment Size (rb_head (sp_ring s)) \<noteq> rb_tail (sp_ring s)" if "wr_producer w = WRoom x head"
  proof -
    have "(pushes w + 1) mod unat Size \<noteq> pops w mod unat Size"
      using h(4) b(1,5) that by (intro mod_apart) auto
    then show ?thesis using increment_count [OF h(3) ix(1)] ix(2) by metis
  qed
  show "rb_tail (sp_ring s) \<noteq> rb_head (sp_ring s)" if "wr_consumer w = RSome tail"
  proof -
    have "pushes w mod unat Size \<noteq> pops w mod unat Size" using h(5) b that by (intro mod_apart) auto
    then show ?thesis using ix by metis
  qed
qed

text \<open>Each event is a step of the interleaving, or none at all.\<close>

lemma ring_event_image:
  assumes ev: "ring_event push_orders pop_orders moved Size ev w = Some w'"
    and inv: "weak_inv Size w" and img: "sc_image Size w s"
  shows "weak_inv Size w' \<and> (\<exists>s'. (s' = s \<or> spsc_step Size s s') \<and> sc_image Size w' s')"
proof -
  consider (push) "push_event push_orders Size ev (wr_producer w) w = Some w'"
    | (pop) "pop_event pop_orders moved Size ev (wr_consumer w) w = Some w'"
    using ev by (auto simp: ring_event_def split: option.splits)
  then show ?thesis
  proof cases
    case push
    show ?thesis
    proof (cases ev)
      case (PushLoadHead x i)
      from head_loaded [OF inv push [unfolded PushLoadHead]] img show ?thesis
        by (intro conjI exI [of _ s]) (simp_all add: sc_image_def)
    next
      case (PushLoadTail i)
      from tail_seen [OF inv push [unfolded PushLoadTail]] obtain x head v pc where
        pc: "wr_producer w = WHead x head" "pc \<in> {WIdle, WRoom x head}" and
        w': "w' = w\<lparr>wr_producer := pc, wr_pview := v\<rparr>" and inv': "weak_inv Size w'" by blast
      show ?thesis
      proof (cases "pc = WIdle")
        case True
        with img pc(1) inv' show ?thesis by (intro conjI exI [of _ s]) (simp_all add: sc_image_def w')
      next
        case False
        let ?s = "s\<lparr>sp_producer := PChecked x\<rparr>"
        have img': "sc_image Size w' ?s" using img pc False by (simp add: sc_image_def w')
        have "sp_producer s = PIdle" using img pc(1) by (simp add: sc_image_def)
        moreover have "increment Size (rb_head (sp_ring ?s)) \<noteq> rb_tail (sp_ring ?s)"
          by (rule image_indices(5) [OF inv' img', of x head]) (use pc False w' in simp)
        ultimately have "spsc_step Size s ?s" by (intro spsc_step.push_check) simp_all
        with inv' img' show ?thesis by blast
      qed
    next
      case PushWrite
      from slot_written [OF inv push [unfolded PushWrite]] obtain x head v ver where
        pc: "wr_producer w = WRoom x head" and
        w': "w' = w\<lparr>wr_slots := (wr_slots w)[unat head := x], wr_writes := ver, wr_pview := v, wr_producer := WWritten x head\<rparr>"
        and head: "unat head = pushes w mod unat Size" and inv': "weak_inv Size w'" by blast
      let ?s = "s\<lparr>sp_ring := (sp_ring s)\<lparr>rb_buffer := (rb_buffer (sp_ring s))[unat (rb_head (sp_ring s)) := x]\<rparr>,
        sp_producer := PWritten x\<rparr>"
      have "head = rb_head (sp_ring s)" using image_indices(3) [OF inv img] pc by blast
      moreover have "0 < unat Size" using inv by (simp add: weak_inv_def size_ok_pos)
      ultimately have "sc_image Size w' ?s"
        using img pc head by (auto simp: sc_image_def w' nth_list_update less_Suc_eq)
      moreover have "spsc_step Size s ?s" using img pc by (intro spsc_step.push_write) (simp_all add: sc_image_def)
      ultimately show ?thesis using inv' by blast
    next
      case PushStore
      from head_stored [OF inv push [unfolded PushStore]] obtain x head v h where
        pc: "wr_producer w = WWritten x head" and h: "h \<noteq> []" "length h = length (wr_heads w) + 1" "fst (last h) = increment Size head"
        and w': "w' = w\<lparr>wr_heads := h, wr_pview := v, wr_producer := WIdle, wr_pushed := wr_pushed w @ [x]\<rparr>"
        and inv': "weak_inv Size w'" by blast
      let ?s = "s\<lparr>sp_ring := (sp_ring s)\<lparr>rb_head := increment Size (rb_head (sp_ring s))\<rparr>,
        sp_producer := PIdle, sp_pushed := sp_pushed s @ [x]\<rparr>"
      have "head = rb_head (sp_ring s)" using image_indices(3) [OF inv img] pc by blast
      moreover have "wr_heads w \<noteq> []" using inv by (simp add: weak_inv_def history_ok_def)
      ultimately have "sc_image Size w' ?s" using img pc h by (simp add: sc_image_def w')
      moreover have "spsc_step Size s ?s" using img pc by (intro spsc_step.push_store) (simp_all add: sc_image_def)
      ultimately show ?thesis using inv' by blast
    qed (use push in simp_all)
  next
    case pop
    show ?thesis
    proof (cases ev)
      case (PopLoadTail i)
      from tail_loaded [OF inv pop [unfolded PopLoadTail]] img show ?thesis
        by (intro conjI exI [of _ s]) (simp_all add: sc_image_def)
    next
      case (PopLoadHead i)
      from head_seen [OF inv pop [unfolded PopLoadHead]] obtain tail v pc where
        pc: "wr_consumer w = RTail tail" "pc \<in> {RIdle, RSome tail}" and
        w': "w' = w\<lparr>wr_consumer := pc, wr_cview := v\<rparr>" and inv': "weak_inv Size w'" by blast
      show ?thesis
      proof (cases "pc = RIdle")
        case True
        with img pc(1) inv' show ?thesis by (intro conjI exI [of _ s]) (simp_all add: sc_image_def w')
      next
        case False
        let ?s = "s\<lparr>sp_consumer := CChecked\<rparr>"
        have img': "sc_image Size w' ?s" using img pc False by (simp add: sc_image_def w')
        have "sp_consumer s = CIdle" using img pc(1) by (simp add: sc_image_def)
        moreover have "rb_tail (sp_ring ?s) \<noteq> rb_head (sp_ring ?s)"
          by (rule image_indices(6) [OF inv' img', of tail]) (use pc False w' in simp)
        ultimately have "spsc_step Size s ?s" by (intro spsc_step.pop_check) simp_all
        with inv' img' show ?thesis by blast
      qed
    next
      case PopMove
      from slot_emptied [OF inv pop [unfolded PopMove]] obtain tail v ver where
        pc: "wr_consumer w = RSome tail" and
        w': "w' = w\<lparr>wr_slots := (wr_slots w)[unat tail := moved (wr_slots w ! unat tail)], wr_writes := ver, wr_cview := v,
          wr_consumer := RMoved (wr_slots w ! unat tail) tail\<rparr>"
        and tail: "unat tail = pops w mod unat Size" and inv': "weak_inv Size w'" by blast
      note b = weak_inv_bounds [OF inv]
      have eq: "tail = rb_tail (sp_ring s)" using image_indices(4) [OF inv img] pc by blast
      have "pops w < pushes w" using inv b by (simp add: weak_inv_def pc)
      moreover have "pops w \<le> p \<Longrightarrow> p < pushes w + written (wr_producer w) \<Longrightarrow>
          wr_slots w ! (p mod unat Size) = rb_buffer (sp_ring s) ! (p mod unat Size)" for p
        using img pc by (simp add: sc_image_def)
      ultimately have x: "wr_slots w ! unat tail = rb_buffer (sp_ring s) ! unat (rb_tail (sp_ring s))"
        unfolding eq [symmetric] tail by (simp del: One_nat_def)
      let ?s = "s\<lparr>sp_consumer := CRead (rb_buffer (sp_ring s) ! unat (rb_tail (sp_ring s)))\<rparr>"
      have "unat tail \<noteq> p mod unat Size" if "Suc (pops w) \<le> p" "p < pushes w + written (wr_producer w)" for p
      proof -
        have "p mod unat Size \<noteq> pops w mod unat Size" using that b by (intro mod_apart) simp_all
        then show ?thesis by (simp add: tail)
      qed
      then have "sc_image Size w' ?s" using img pc x by (simp add: sc_image_def w')
      moreover have "spsc_step Size s ?s" using img pc by (intro spsc_step.pop_read) (simp_all add: sc_image_def)
      ultimately show ?thesis using inv' by blast
    next
      case PopStore
      from tail_stored [OF inv pop [unfolded PopStore]] obtain x tail v h where
        pc: "wr_consumer w = RMoved x tail" and h: "h \<noteq> []" "length h = length (wr_tails w) + 1" "fst (last h) = increment Size tail"
        and w': "w' = w\<lparr>wr_tails := h, wr_cview := v, wr_consumer := RIdle, wr_popped := wr_popped w @ [x]\<rparr>"
        and inv': "weak_inv Size w'" by blast
      let ?s = "s\<lparr>sp_ring := (sp_ring s)\<lparr>rb_tail := increment Size (rb_tail (sp_ring s))\<rparr>,
        sp_consumer := CIdle, sp_popped := sp_popped s @ [x]\<rparr>"
      have "tail = rb_tail (sp_ring s)" using image_indices(4) [OF inv img] pc by blast
      moreover have "wr_tails w \<noteq> []" using inv by (simp add: weak_inv_def history_ok_def)
      ultimately have "sc_image Size w' ?s" using img pc h by (simp add: sc_image_def w')
      moreover have "spsc_step Size s ?s" using img pc by (intro spsc_step.pop_store) (simp_all add: sc_image_def)
      ultimately show ?thesis using inv' by blast
    qed (use pop in simp_all)
  qed
qed

lemma ring_runs_image:
  assumes "ring_runs push_orders pop_orders moved Size w" and size: "size_ok Size"
  shows "weak_inv Size w \<and> (\<exists>s. spsc_reach Size s \<and> sc_image Size w s)"
  using assms(1)
proof (induction rule: ring_runs.induct)
  case (start any)
  show ?case using weak_inv_init [OF size, of any] sc_image_init [of Size any] spsc_reach.init [of Size any] by blast
next
  case (event w ev w')
  then obtain s where s: "weak_inv Size w" "spsc_reach Size s" "sc_image Size w s" by blast
  from ring_event_image [OF event.hyps(2) s(1,3)] obtain s' where
    s': "weak_inv Size w'" "s' = s \<or> spsc_step Size s s'" "sc_image Size w' s'" by blast
  from s'(2) have "spsc_reach Size s'" using s(2) spsc_reach.step [OF s(2)] by (elim disjE) simp_all
  with s' show ?case by blast
qed

text \<open>So the buffer is a queue, and nothing races.\<close>

lemma ring_runs_queue:
  assumes "ring_runs push_orders pop_orders moved Size w" and "size_ok Size"
  shows "\<not> wr_race w"
    and "\<exists>s. spsc_reach Size s \<and> sc_image Size w s \<and> wr_pushed w = wr_popped w @ contents Size (sp_ring s) \<and>
      length (wr_pushed w) \<le> length (wr_popped w) + (unat Size - 1)"
proof -
  from ring_runs_image [OF assms] obtain s where s: "weak_inv Size w" "spsc_reach Size s" "sc_image Size w s" by blast
  show "\<not> wr_race w" using s(1) by (simp add: weak_inv_def)
  from spsc_reach_inv [OF s(2) assms(2)] have inv: "ring_inv Size (sp_ring s)" "sp_pushed s = sp_popped s @ contents Size (sp_ring s)"
    by (simp_all add: spsc_inv_def)
  have "sp_pushed s = wr_pushed w" "sp_popped s = wr_popped w" using s(3) by (simp_all add: sc_image_def)
  with inv contents_bound [OF inv(1)] have "wr_pushed w = wr_popped w @ contents Size (sp_ring s) \<and>
      length (wr_pushed w) \<le> length (wr_popped w) + (unat Size - 1)" by simp
  with s(2,3) show "\<exists>s. spsc_reach Size s \<and> sc_image Size w s \<and> wr_pushed w = wr_popped w @ contents Size (sp_ring s) \<and>
      length (wr_pushed w) \<le> length (wr_popped w) + (unat Size - 1)" by blast
qed

text \<open>C24. The memory orders of the ring buffer suffice.  Whatever old values the atomic loads of the
  producer and the consumer return, no run has a data race on a slot; every state it reaches
  looks like a state of the sequentially consistent interleaving; and the elements popped are
  a prefix of those pushed, followed by what is in the buffer, at most \<open>Size - 1\<close> elements.\<close>

theorem ring_orders_suffice:
  assumes "ring_runs push_orders pop_orders moved Size w" and "size_ok Size"
  shows "\<not> wr_race w \<and> (\<exists>s. spsc_reach Size s \<and> sc_image Size w s \<and>
    wr_pushed w = wr_popped w @ contents Size (sp_ring s) \<and>
    length (wr_pushed w) \<le> length (wr_popped w) + (unat Size - 1))"
  using ring_runs_queue [OF assms] by blast

text \<open>Runs as lists of events.\<close>

fun ring_trace ::
  "op_orders \<Rightarrow> op_orders \<Rightarrow> ('a \<Rightarrow> 'a) \<Rightarrow> u64 \<Rightarrow> 'a ring_event list \<Rightarrow> 'a weak_ring \<Rightarrow> 'a weak_ring option" where
  "ring_trace po co moved Size [] s = Some s"
| "ring_trace po co moved Size (ev # evs) s =
     (case ring_event po co moved Size ev s of None \<Rightarrow> None | Some s' \<Rightarrow> ring_trace po co moved Size evs s')"

lemma ring_runs_trace:
  "ring_runs po co moved Size s \<Longrightarrow> ring_trace po co moved Size evs s = Some s' \<Longrightarrow> ring_runs po co moved Size s'"
  by (induction po co moved Size evs s rule: ring_trace.induct) (auto split: option.splits intro: ring_runs.event)

definition do_push :: "'a \<Rightarrow> nat \<Rightarrow> nat \<Rightarrow> 'a ring_event list" where
  "do_push x i j = [PushLoadHead x i, PushLoadTail j, PushWrite, PushStore]"

definition do_pop :: "nat \<Rightarrow> nat \<Rightarrow> 'a ring_event list" where
  "do_pop i j = [PopLoadTail i, PopLoadHead j, PopMove, PopStore]"

theorem ring_orders_suffice_witness:
  "\<exists>w. ring_runs push_orders pop_orders (\<lambda>_. 0) 4 w \<and> wr_pushed w = [7, 8 :: nat] \<and> wr_popped w = [7] \<and> \<not> wr_race w"
proof -
  have "map_option (\<lambda>w. (wr_pushed w, wr_popped w)) (ring_trace push_orders pop_orders (\<lambda>_. 0) 4
      (do_push 7 0 0 @ [PopLoadTail 0, PopLoadHead 0] @ do_pop 0 1 @ do_push 8 1 0) (weak_init 0 4)) = Some ([7 :: nat, 8], [7])"
    by code_simp
  then obtain w where w: "ring_trace push_orders pop_orders (\<lambda>_. 0) 4
      (do_push 7 0 0 @ [PopLoadTail 0, PopLoadHead 0] @ do_pop 0 1 @ do_push 8 1 0) (weak_init 0 4) = Some w"
    "wr_pushed w = [7 :: nat, 8]" "wr_popped w = [7]" by auto
  from ring_runs_trace [OF ring_runs.start w(1)] have run: "ring_runs push_orders pop_orders (\<lambda>_. 0) 4 w" .
  with ring_orders_suffice [OF run] w(2,3) show ?thesis by (auto simp: size_ok_def)
qed

section \<open>None of the orders can be dropped\<close>

text \<open>A store or the other load with the order relaxed.\<close>

definition relaxed_store :: "op_orders \<Rightarrow> op_orders" where
  "relaxed_store ord = ord\<lparr>own_store := Relaxed\<rparr>"

definition relaxed_load :: "op_orders \<Rightarrow> op_orders" where
  "relaxed_load ord = ord\<lparr>other_load := Relaxed\<rparr>"

definition racy :: "op_orders \<Rightarrow> op_orders \<Rightarrow> bool" where
  "racy po co \<longleftrightarrow> (\<exists>w :: nat weak_ring. ring_runs po co id 2 w \<and> wr_race w)"

lemma racyI:
  assumes "map_option wr_race (ring_trace po co id 2 evs (weak_init (0 :: nat) 2)) = Some True"
  shows "racy po co"
  using assms ring_runs_trace [OF ring_runs.start [of po co id 2 0]] by (auto simp: racy_def)

text \<open>A push and a pop; and two of each, after which the producer reuses the first slot.\<close>

definition one_round :: "nat ring_event list" where
  "one_round = do_push 7 0 0 @ do_pop 0 1"

definition slot_reused :: "nat ring_event list" where
  "slot_reused = do_push 7 0 0 @ do_pop 0 1 @ do_push 8 1 1 @ do_pop 1 2 @ do_push 9 2 2"

text \<open>C36. Each of the memory orders is needed.  If the producer's store or the consumer's load of the
  head is relaxed, the consumer can read a slot it does not know to be written; if the
  consumer's store or the producer's load of the tail is, the producer can overwrite a slot it
  does not know to be emptied.  Each is a data race on a buffer of two slots, which with the
  orders of the source has none.\<close>

theorem ring_orders_needed:
  "racy (relaxed_store push_orders) pop_orders \<and> racy push_orders (relaxed_load pop_orders) \<and>
   racy push_orders (relaxed_store pop_orders) \<and> racy (relaxed_load push_orders) pop_orders \<and>
   \<not> racy push_orders pop_orders"
proof (intro conjI)
  show "racy (relaxed_store push_orders) pop_orders" by (rule racyI [of _ _ one_round]) code_simp
  show "racy push_orders (relaxed_load pop_orders)" by (rule racyI [of _ _ one_round]) code_simp
  show "racy push_orders (relaxed_store pop_orders)" by (rule racyI [of _ _ slot_reused]) code_simp
  show "racy (relaxed_load push_orders) pop_orders" by (rule racyI [of _ _ slot_reused]) code_simp
  have "size_ok 2" by (simp add: size_ok_def)
  then show "\<not> racy push_orders pop_orders" unfolding racy_def using ring_runs_queue(1) by blast
qed

section \<open>Observers of a third thread\<close>

text \<open>\<open>size\<close> loads the head and then the tail.  A thread that is neither producer nor consumer can run
  it between their operations: \<open>observed_size\<close> is what it answers when the head it loads is that
  of \<open>s\<close> and the tail that of the later \<open>s'\<close>.\<close>

definition observed_size :: "u64 \<Rightarrow> 'a weak_ring \<Rightarrow> 'a weak_ring \<Rightarrow> u64" where
  "observed_size Size s s' = (let h = fst (last (wr_heads s)); t = fst (last (wr_tails s'))
     in if t \<le> h then h - t else Size - (t - h))"

text \<open>The answer need not be the length of the queue at any moment: a buffer of four slots that never
  holds more than one element reports three.\<close>

theorem ring_size_not_atomic:
  "\<exists>(s :: nat weak_ring) s'. ring_runs push_orders pop_orders id 4 s \<and>
     ring_trace push_orders pop_orders id 4 (do_push 7 0 0 @ do_pop 0 1) s = Some s' \<and>
     wr_pushed s = [] \<and> wr_pushed s' = [7] \<and> wr_popped s' = [7] \<and> observed_size 4 s s' = 3"
proof -
  have "map_option (\<lambda>s'. (wr_pushed s', wr_popped s', observed_size 4 (weak_init (0 :: nat) 4) s'))
      (ring_trace push_orders pop_orders id 4 (do_push 7 0 0 @ do_pop 0 1) (weak_init 0 4)) = Some ([7], [7], 3)"
    by code_simp
  then obtain s' where "ring_trace push_orders pop_orders id 4 (do_push 7 0 0 @ do_pop 0 1) (weak_init (0 :: nat) 4) = Some s'"
    "wr_pushed s' = [7]" "wr_popped s' = [7]" "observed_size 4 (weak_init (0 :: nat) 4) s' = 3" by auto
  moreover have "wr_pushed (weak_init (0 :: nat) 4) = []" by (simp add: weak_init_def)
  moreover note ring_runs.start [of push_orders pop_orders id 4 "0 :: nat"]
  ultimately show ?thesis by blast
qed

end
