(* ===== verification/Threaded_Loop.thy ===== *)
theory Threaded_Loop
  imports Pipeline Ring_Orders
begin

text \<open>
  The threads that \<^verbatim>\<open>src/src/market/README.md\<close> recommends: one thread pushes into a ring buffer, as
  a gateway does with orders, another pops and runs the body of its loop on what it got, as the
  matching loop and the delivery loop of the market data engine do.  The buffer runs under its
  C++ memory orders; the body touches only what its own thread owns.

  \<open>threaded_matching\<close> shows that the engine cannot tell this from being handed the orders one by
  one, and \<open>threaded_delivery\<close> the same of the handlers of market data.
\<close>

section \<open>A loop over a buffer\<close>

text \<open>The consumer runs its body on an element as part of the event that completes the pop.  These runs
  include those of a thread that enters the loop again after it has found the buffer empty, as
  the delivery loop is; what holds in all of them holds in those of a loop that is run once, whose
  exit is in \<open>Loop_Progress\<close>.\<close>

inductive loop_runs ::
  "('a \<Rightarrow> 'a) \<Rightarrow> u64 \<Rightarrow> ('a \<Rightarrow> 's \<Rightarrow> 's) \<Rightarrow> 's \<Rightarrow> 'a weak_ring \<Rightarrow> 's \<Rightarrow> bool"
  for moved Size body s0 where
  start: "loop_runs moved Size body s0 (weak_init any Size) s0"
| buffer: "loop_runs moved Size body s0 w s \<Longrightarrow> ev \<noteq> PopStore \<Longrightarrow>
    ring_event push_orders pop_orders moved Size ev w = Some w' \<Longrightarrow> loop_runs moved Size body s0 w' s"
| item: "loop_runs moved Size body s0 w s \<Longrightarrow>
    ring_event push_orders pop_orders moved Size PopStore w = Some w' \<Longrightarrow>
    loop_runs moved Size body s0 w' (body (last (wr_popped w')) s)"

lemma ring_event_popped:
  assumes "ring_event po co moved Size ev w = Some w'"
  shows "ev \<noteq> PopStore \<Longrightarrow> wr_popped w' = wr_popped w"
    and "ev = PopStore \<Longrightarrow> \<exists>x. wr_popped w' = wr_popped w @ [x]"
proof -
  have push: "push_event po Size ev (wr_producer w) w = Some w' \<Longrightarrow> wr_popped w' = wr_popped w \<and> ev \<noteq> PopStore"
    by (cases ev; cases "wr_producer w") (auto simp: write_slot_def split: if_splits)
  have pop: "pop_event co moved Size ev (wr_consumer w) w = Some w' \<Longrightarrow>
      if ev = PopStore then \<exists>x. wr_popped w' = wr_popped w @ [x] else wr_popped w' = wr_popped w"
    by (cases ev; cases "wr_consumer w") (auto simp: write_slot_def Let_def split: if_splits)
  from assms consider "push_event po Size ev (wr_producer w) w = Some w'" | "pop_event co moved Size ev (wr_consumer w) w = Some w'"
    by (auto simp: ring_event_def split: option.splits)
  then have "if ev = PopStore then \<exists>x. wr_popped w' = wr_popped w @ [x] else wr_popped w' = wr_popped w"
    by cases (use push pop in auto)
  then show "ev \<noteq> PopStore \<Longrightarrow> wr_popped w' = wr_popped w" "ev = PopStore \<Longrightarrow> \<exists>x. wr_popped w' = wr_popped w @ [x]"
    by simp_all
qed

text \<open>At any moment the loop has run its body on what was popped, which is a prefix of what was pushed.\<close>

lemma loop_folds:
  "loop_runs moved Size body s0 w s \<Longrightarrow>
     ring_runs push_orders pop_orders moved Size w \<and> s = fold body (wr_popped w) s0"
proof (induction rule: loop_runs.induct)
  case (start any)
  show ?case using ring_runs.start [of push_orders pop_orders moved Size any] by (simp add: weak_init_def)
next
  case (buffer w s ev w')
  then show ?case using ring_event_popped(1) [OF buffer.hyps(3,2)] ring_runs.event [OF _ buffer.hyps(3)] by simp
next
  case (item w s w')
  from ring_event_popped(2) [OF item.hyps(2) refl] obtain x where "wr_popped w' = wr_popped w @ [x]" by blast
  with item show ?case using ring_runs.event [OF _ item.hyps(2)] by simp
qed

lemma loop_prefix:
  assumes "loop_runs moved Size body s0 w s" and size: "size_ok Size"
  shows "\<exists>k \<le> length (wr_pushed w). s = fold body (take k (wr_pushed w)) s0 \<and> length (wr_pushed w) \<le> k + (unat Size - 1)"
    and "\<not> wr_race w"
proof -
  from loop_folds [OF assms(1)] have
    runs: "ring_runs push_orders pop_orders moved Size w" and s: "s = fold body (wr_popped w) s0" by simp_all
  show "\<not> wr_race w" by (rule ring_runs_queue(1) [OF runs size])
  from ring_runs_queue(2) [OF runs size] obtain xs where "wr_pushed w = wr_popped w @ xs"
    "length (wr_pushed w) \<le> length (wr_popped w) + (unat Size - 1)" by blast
  with s show "\<exists>k \<le> length (wr_pushed w). s = fold body (take k (wr_pushed w)) s0 \<and> length (wr_pushed w) \<le> k + (unat Size - 1)"
    by (intro exI [of _ "length (wr_popped w)"]) simp
qed

section \<open>Matching on a thread of its own\<close>

text \<open>C9. A gateway thread and a matching thread.  Let one thread push events into the order queue
  while another runs the matching loop on it, under the memory orders of the buffer and in any
  interleaving.  Then there is no data race, and at any moment the engine is what it becomes
  when the first so many of the pushed orders are processed one by one: a reachable engine,
  with no order lost, repeated or overtaken, and at most \<open>Size - 1\<close> events behind.\<close>

theorem threaded_matching:
  assumes "loop_runs moved Size (matching_step clk) (Some (0, e)) w st" and "size_ok Size"
    and "engine_reach e" and "list_all order_event_ok (wr_pushed w)"
  shows "\<not> wr_race w \<and> (\<exists>k \<le> length (wr_pushed w). \<exists>e'.
    st = Some (length (orders_of (take k (wr_pushed w))), e') \<and>
    e' = process_all clk 0 (orders_of (take k (wr_pushed w))) e \<and> engine_reach e' \<and>
    length (wr_pushed w) \<le> k + (unat Size - 1))"
proof -
  from loop_prefix(1) [OF assms(1,2)] obtain k where k: "k \<le> length (wr_pushed w)"
    "st = fold (matching_step clk) (take k (wr_pushed w)) (Some (0, e))" "length (wr_pushed w) \<le> k + (unat Size - 1)" by blast
  let ?evs = "take k (wr_pushed w)"
  have ok: "list_all order_event_ok ?evs" using assms(4) by (auto simp: list_all_iff dest: in_set_takeD)
  have "st = Some (length (orders_of ?evs), process_all clk 0 (orders_of ?evs) e)"
    using matching_fold [OF ok, of clk 0 e] k(2) by simp
  moreover have "engine_reach (process_all clk 0 (orders_of ?evs) e)"
    by (rule process_all_reach [OF assms(3) orders_of_range [OF ok]])
  ultimately show ?thesis using k(1,3) loop_prefix(2) [OF assms(1,2)] by blast
qed

text \<open>Events of a loop as a list, with the state of its client.\<close>

fun loop_trace ::
  "('a \<Rightarrow> 'a) \<Rightarrow> u64 \<Rightarrow> ('a \<Rightarrow> 's \<Rightarrow> 's) \<Rightarrow> 'a ring_event list \<Rightarrow> 'a weak_ring \<times> 's \<Rightarrow> ('a weak_ring \<times> 's) option" where
  "loop_trace moved Size body [] c = Some c"
| "loop_trace moved Size body (ev # evs) c =
     (case ring_event push_orders pop_orders moved Size ev (fst c) of None \<Rightarrow> None
      | Some w' \<Rightarrow> loop_trace moved Size body evs
          (w', if ev = PopStore then body (last (wr_popped w')) (snd c) else snd c))"

lemma loop_runs_trace:
  "loop_runs moved Size body s0 (fst c) (snd c) \<Longrightarrow> loop_trace moved Size body evs c = Some c' \<Longrightarrow>
    loop_runs moved Size body s0 (fst c') (snd c')"
proof (induction moved Size body evs c rule: loop_trace.induct)
  case (2 moved Size body ev evs c)
  from 2(3) obtain w' where w': "ring_event push_orders pop_orders moved Size ev (fst c) = Some w'"
    by (auto split: option.splits)
  let ?c = "(w', if ev = PopStore then body (last (wr_popped w')) (snd c) else snd c)"
  have "loop_runs moved Size body s0 (fst ?c) (snd ?c)"
    using loop_runs.item [OF 2(2)] loop_runs.buffer [OF 2(2)] w' by (cases "ev = PopStore") simp_all
  with 2(1) [OF w'] 2(3) w' show ?case by simp
qed simp

definition order_event :: "Order \<Rightarrow> EngineEvent" where
  "order_event order = \<lparr>ev_type = EventNewOrder, ev_payload = PayOrder order, ev_event_time = 0\<rparr>"

definition two_orders_one_matched :: "EngineEvent ring_event list" where
  "two_orders_one_matched = do_push (order_event (eng_order 2 9 Buy 101 4)) 0 0 @
     [PopLoadTail 0, PushLoadHead (order_event (eng_order 3 9 Buy 101 2)) 1, PopLoadHead 1, PopMove, PushLoadTail 0,
      PopStore, PushWrite, PushStore, PopLoadTail 1, PopLoadHead 1]"

theorem threaded_matching_witness:
  "\<exists>w st. loop_runs id 4 (matching_step (\<lambda>k. (5, 6))) (Some (0, demo_me)) w st \<and>
    length (wr_pushed w) = 2 \<and> \<not> wr_race w \<and>
    (\<exists>e'. st = Some (1, e') \<and> engine_reach e' \<and> trades_generated e' = 1)"
proof -
  let ?c = "(weak_init default_event 4, Some (0, demo_me))"
  have "map_option (\<lambda>c. (wr_pushed (fst c), map_option (\<lambda>(n, e). (n, trades_generated e)) (snd c)))
      (loop_trace id 4 (matching_step (\<lambda>k. (5, 6))) two_orders_one_matched ?c) =
      Some ([order_event (eng_order 2 9 Buy 101 4), order_event (eng_order 3 9 Buy 101 2)], Some (1, 1))" by code_simp
  then obtain c e' where c: "loop_trace id 4 (matching_step (\<lambda>k. (5, 6))) two_orders_one_matched ?c = Some c"
    "wr_pushed (fst c) = [order_event (eng_order 2 9 Buy 101 4), order_event (eng_order 3 9 Buy 101 2)]"
    "snd c = Some (1, e')" "trades_generated e' = 1" by (auto simp: map_option_case split: option.splits)
  have "loop_runs id 4 (matching_step (\<lambda>k. (5, 6))) (Some (0, demo_me)) (fst ?c) (snd ?c)"
    using loop_runs.start by simp
  from loop_runs_trace [OF this c(1)] have
    run: "loop_runs id 4 (matching_step (\<lambda>k. (5, 6))) (Some (0, demo_me)) (fst c) (snd c)" .
  have "size_ok 4" by (simp add: size_ok_def)
  moreover have "list_all order_event_ok (wr_pushed (fst c))"
    by (simp add: c(2) order_event_ok_def order_event_def eng_order_def in_i64_def i64_min_def i64_max_def)
  ultimately have "\<not> wr_race (fst c)" "engine_reach e'"
    using threaded_matching [OF run _ demo_me_reach] c(3) by auto
  with run c show ?thesis by (intro exI [of _ "fst c"] exI [of _ "snd c"]) simp
qed

section \<open>Delivery on a thread of its own\<close>

text \<open>The matching thread queues market data and another thread delivers it: the handlers are called for
  a prefix of the queued messages, in order, each message once.\<close>

theorem threaded_delivery:
  assumes "loop_runs moved MD_QUEUE_CAPACITY deliver e w e'"
  shows "\<not> wr_race w \<and> (\<exists>k \<le> length (wr_pushed w).
    md_log e' = md_log e @ concat (map (\<lambda>msg. handler_calls msg e) (take k (wr_pushed w))) \<and>
    messages_published e' = messages_published e + word_of_nat k \<and> length (wr_pushed w) \<le> k + 16383)"
proof -
  from loop_prefix(1) [OF assms md_size_ok] obtain k where k: "k \<le> length (wr_pushed w)"
    "e' = fold deliver (take k (wr_pushed w)) e" "length (wr_pushed w) \<le> k + (unat MD_QUEUE_CAPACITY - 1)" by blast
  have "unat MD_QUEUE_CAPACITY - 1 = 16383" by (simp add: MD_QUEUE_CAPACITY_def)
  with k loop_prefix(2) [OF assms md_size_ok] show ?thesis by (intro conjI exI [of _ k]) (simp_all add: deliver_fold)
qed

end
