(* ===== verification/Loop_Progress.thy ===== *)
theory Loop_Progress
  imports Threaded_Loop
begin

text \<open>
  The consumer loop of \<^verbatim>\<open>src/src/market/README.md\<close> on a thread of its own, with its exit: a pop that
  finds the buffer empty ends \<^verbatim>\<open>while (auto event = order_queue.pop())\<close>, and the thread returns.  An
  old head is enough to find the buffer empty.

  Once loads return the newest stores, which C++ asks to happen in finite time, a consumer that
  runs alone never waits: it pops every element that was pushed, in at most four accesses each,
  and returns.  Otherwise it can return with elements pending, and then processes none of them.
\<close>

section \<open>The loop and its exit\<close>

record ('a, 's) loop_state =
  ls_ring :: "'a weak_ring"
  ls_client :: 's
  ls_returned :: bool

fun of_consumer :: "'a ring_event \<Rightarrow> bool" where
  "of_consumer (PopLoadTail i) = True"
| "of_consumer (PopLoadHead i) = True"
| "of_consumer PopMove = True"
| "of_consumer PopStore = True"
| "of_consumer ev = False"

text \<open>The load of the head after which \<open>pop\<close> answers that there is nothing.\<close>

fun finds_empty :: "'a ring_event \<Rightarrow> 'a pop_pc \<Rightarrow> bool" where
  "finds_empty (PopLoadHead i) pc = (pc = RIdle)"
| "finds_empty ev pc = False"

definition loop_event ::
  "('a \<Rightarrow> 'a) \<Rightarrow> u64 \<Rightarrow> ('a \<Rightarrow> 's \<Rightarrow> 's) \<Rightarrow> 'a ring_event \<Rightarrow> ('a, 's) loop_state \<Rightarrow> ('a, 's) loop_state option" where
  "loop_event moved Size body ev c =
     (if of_consumer ev \<and> ls_returned c then None
      else map_option (\<lambda>w. \<lparr>ls_ring = w,
          ls_client = if ev = PopStore then body (last (wr_popped w)) (ls_client c) else ls_client c,
          ls_returned = ls_returned c \<or> finds_empty ev (wr_consumer w)\<rparr>)
        (ring_event push_orders pop_orders moved Size ev (ls_ring c)))"

inductive loop_thread ::
  "('a \<Rightarrow> 'a) \<Rightarrow> u64 \<Rightarrow> ('a \<Rightarrow> 's \<Rightarrow> 's) \<Rightarrow> 's \<Rightarrow> ('a, 's) loop_state \<Rightarrow> bool" for moved Size body s0 where
  start: "loop_thread moved Size body s0 \<lparr>ls_ring = weak_init any Size, ls_client = s0, ls_returned = False\<rparr>"
| event: "loop_thread moved Size body s0 c \<Longrightarrow> loop_event moved Size body ev c = Some c' \<Longrightarrow>
    loop_thread moved Size body s0 c'"

fun loop_events ::
  "('a \<Rightarrow> 'a) \<Rightarrow> u64 \<Rightarrow> ('a \<Rightarrow> 's \<Rightarrow> 's) \<Rightarrow> 'a ring_event list \<Rightarrow> ('a, 's) loop_state \<Rightarrow> ('a, 's) loop_state option" where
  "loop_events moved Size body [] c = Some c"
| "loop_events moved Size body (ev # evs) c =
     (case loop_event moved Size body ev c of None \<Rightarrow> None | Some c' \<Rightarrow> loop_events moved Size body evs c')"

lemma loop_thread_events:
  "loop_thread moved Size body s0 c \<Longrightarrow> loop_events moved Size body evs c = Some c' \<Longrightarrow> loop_thread moved Size body s0 c'"
  by (induction moved Size body evs c rule: loop_events.induct) (auto split: option.splits intro: loop_thread.event)

text \<open>Without the exit it is the loop of \<open>Threaded_Loop\<close>, so what holds there of all runs holds here.\<close>

lemma loop_thread_runs:
  "loop_thread moved Size body s0 c \<Longrightarrow> loop_runs moved Size body s0 (ls_ring c) (ls_client c)"
proof (induction rule: loop_thread.induct)
  case (start any)
  show ?case using loop_runs.start by simp
next
  case (event c ev c')
  then show ?case using loop_runs.item [OF event.IH] loop_runs.buffer [OF event.IH]
    by (cases "ev = PopStore") (auto simp: loop_event_def split: if_splits)
qed

section \<open>A consumer that runs alone\<close>

text \<open>The next access of the consumer, when its loads return the newest store.\<close>

definition fresh_pop :: "'a weak_ring \<Rightarrow> 'a ring_event" where
  "fresh_pop w = (case wr_consumer w of
     RIdle \<Rightarrow> PopLoadTail (pops w)
   | RTail tail \<Rightarrow> PopLoadHead (pushes w)
   | RSome tail \<Rightarrow> PopMove
   | RMoved x tail \<Rightarrow> PopStore)"

text \<open>At most \<open>n\<close> accesses of the consumer, until it returns.\<close>

primrec loop_alone ::
  "('a \<Rightarrow> 'a) \<Rightarrow> u64 \<Rightarrow> ('a \<Rightarrow> 's \<Rightarrow> 's) \<Rightarrow> nat \<Rightarrow> ('a, 's) loop_state \<Rightarrow> ('a, 's) loop_state option" where
  "loop_alone moved Size body 0 c = Some c"
| "loop_alone moved Size body (Suc n) c =
     (if ls_returned c then Some c
      else Option.bind (loop_event moved Size body (fresh_pop (ls_ring c)) c) (loop_alone moved Size body n))"

section \<open>Its progress\<close>

text \<open>Accesses until everything pushed is popped and the buffer is found empty.\<close>

definition accesses_left :: "'a weak_ring \<Rightarrow> nat" where
  "accesses_left w = 4 * (pushes w - pops w) + 2 -
     (case wr_consumer w of RIdle \<Rightarrow> 0 | RTail tail \<Rightarrow> 1 | RSome tail \<Rightarrow> 2 | RMoved x tail \<Rightarrow> 3)"

lemma push_event_pop [simp]:
  "push_event ord Size (PopLoadTail i) pc w = None" "push_event ord Size (PopLoadHead i) pc w = None"
  "push_event ord Size PopMove pc w = None" "push_event ord Size PopStore pc w = None"
  by (cases pc; simp)+

text \<open>With an element pending it gets on; with none it finds the buffer empty, or is about to.\<close>

lemma fresh_pop_moves:
  assumes inv: "weak_inv Size w" and some: "pops w < pushes w"
  shows "\<exists>w'. ring_event push_orders pop_orders moved Size (fresh_pop w) w = Some w' \<and>
    wr_pushed w' = wr_pushed w \<and> accesses_left w = Suc (accesses_left w') \<and> \<not> finds_empty (fresh_pop w) (wr_consumer w')"
proof -
  have view: "wr_cview w TailLoc = pops w" "wr_cview w HeadLoc \<le> pushes w" "wr_tails w \<noteq> []" "wr_heads w \<noteq> []"
    using inv by (simp_all add: weak_inv_def history_ok_def view_below_def)
  then have fresh: "readable TailLoc (wr_cview w) (wr_tails w) (pops w)" "readable HeadLoc (wr_cview w) (wr_heads w) (pushes w)"
    by (simp_all add: readable_def)
  show ?thesis
  proof (cases "wr_consumer w")
    case RIdle
    with fresh(1) some show ?thesis
      by (simp add: ring_event_def fresh_pop_def accesses_left_def)
  next
    case (RTail tail)
    have tail: "unat tail = pops w mod unat Size" "unat (fst (wr_heads w ! pushes w)) = pushes w mod unat Size"
      using inv view(4) by (simp_all add: weak_inv_def history_ok_def RTail)
    have "pushes w mod unat Size \<noteq> pops w mod unat Size"
      using weak_inv_bounds [OF inv] some by (intro mod_apart) simp_all
    with tail have "tail \<noteq> fst (wr_heads w ! pushes w)" by metis
    with fresh(2) some show ?thesis
      by (simp add: RTail ring_event_def fresh_pop_def accesses_left_def)
  next
    case (RSome tail)
    with some show ?thesis
      by (simp add: ring_event_def fresh_pop_def accesses_left_def write_slot_def Let_def)
  next
    case (RMoved x tail)
    with some view(3) show ?thesis
      by (cases "wr_tails w") (simp_all add: ring_event_def fresh_pop_def accesses_left_def store_history_def)
  qed
qed

lemma fresh_pop_ends:
  assumes inv: "weak_inv Size w" and none: "pushes w \<le> pops w"
  shows "\<exists>w'. ring_event push_orders pop_orders moved Size (fresh_pop w) w = Some w' \<and>
    wr_pushed w' = wr_pushed w \<and> wr_popped w' = wr_popped w \<and>
    (if accesses_left w = 1 then finds_empty (fresh_pop w) (wr_consumer w')
     else \<not> finds_empty (fresh_pop w) (wr_consumer w') \<and> accesses_left w = Suc (accesses_left w'))"
proof -
  note B = weak_inv_bounds [OF inv]
  have view: "wr_cview w TailLoc = pops w" "wr_cview w HeadLoc \<le> pushes w" "wr_tails w \<noteq> []" "wr_heads w \<noteq> []"
    using inv by (simp_all add: weak_inv_def history_ok_def view_below_def)
  then have fresh: "readable TailLoc (wr_cview w) (wr_tails w) (pops w)" "readable HeadLoc (wr_cview w) (wr_heads w) (pushes w)"
    by (simp_all add: readable_def)
  have pop: "pop_ok (unat Size) (pops w) (wr_cview w) (wr_consumer w)" using inv by (simp add: weak_inv_def)
  show ?thesis
  proof (cases "wr_consumer w")
    case RIdle
    with fresh(1) none show ?thesis by (simp add: ring_event_def fresh_pop_def accesses_left_def)
  next
    case (RTail tail)
    have "unat tail = unat (fst (wr_heads w ! pushes w))"
      using inv view(4) none B(1) by (simp add: weak_inv_def history_ok_def RTail)
    then have "tail = fst (wr_heads w ! pushes w)" by (simp add: word_unat_eq_iff)
    with fresh(2) none show ?thesis by (simp add: RTail ring_event_def fresh_pop_def accesses_left_def)
  qed (use pop view none in simp_all)
qed

lemma ring_runs_counts:
  "ring_runs po co moved Size w \<Longrightarrow> pushes w = length (wr_pushed w) \<and> pops w = length (wr_popped w) \<and>
     wr_heads w \<noteq> [] \<and> wr_tails w \<noteq> []"
proof (induction rule: ring_runs.induct)
  case (start any)
  show ?case by (simp add: weak_init_def)
next
  case (event w ev w')
  then consider "push_event po Size ev (wr_producer w) w = Some w'" | "pop_event co moved Size ev (wr_consumer w) w = Some w'"
    by (auto simp: ring_event_def split: option.splits)
  then show ?case
  proof cases
    case 1
    with event.IH show ?thesis
      by (cases ev; cases "wr_producer w") (auto simp: write_slot_def store_history_def neq_Nil_conv split: if_splits)
  next
    case 2
    with event.IH show ?thesis
      by (cases ev; cases "wr_consumer w") (auto simp: write_slot_def store_history_def neq_Nil_conv Let_def split: if_splits)
  qed
qed

lemma accesses_left_pos:
  assumes "weak_inv Size w"
  shows "0 < accesses_left w" and "accesses_left w = 1 \<Longrightarrow> pushes w \<le> pops w"
proof -
  have "pop_ok (unat Size) (pops w) (wr_cview w) (wr_consumer w)" "wr_cview w HeadLoc \<le> pushes w"
    using assms by (simp_all add: weak_inv_def view_below_def)
  moreover define n where "n = pushes w - pops w"
  ultimately have "n = 0 \<Longrightarrow> (case wr_consumer w of RIdle \<Rightarrow> True | RTail tail \<Rightarrow> True | _ \<Rightarrow> False)"
    by (cases "wr_consumer w") auto
  moreover have "accesses_left w = 4 * n + 2 -
     (case wr_consumer w of RIdle \<Rightarrow> 0 | RTail tail \<Rightarrow> 1 | RSome tail \<Rightarrow> 2 | RMoved x tail \<Rightarrow> 3)"
    by (simp add: accesses_left_def n_def)
  ultimately have "0 < accesses_left w \<and> (accesses_left w = 1 \<longrightarrow> n = 0)"
    by (cases "wr_consumer w"; cases n) simp_all
  then show "0 < accesses_left w" "accesses_left w = 1 \<Longrightarrow> pushes w \<le> pops w" by (simp_all add: n_def)
qed

lemma loop_event_ring:
  "\<not> ls_returned c \<Longrightarrow> ring_event push_orders pop_orders moved Size ev (ls_ring c) = Some w \<Longrightarrow>
    \<exists>c1. loop_event moved Size body ev c = Some c1 \<and> ls_ring c1 = w \<and> ls_returned c1 = finds_empty ev (wr_consumer w)"
  by (simp add: loop_event_def)

lemma alone_returns:
  assumes "loop_thread moved Size body s0 c" and "\<not> ls_returned c" and size: "size_ok Size"
  shows "\<exists>c'. loop_alone moved Size body (accesses_left (ls_ring c)) c = Some c' \<and> ls_returned c' \<and>
    wr_pushed (ls_ring c') = wr_pushed (ls_ring c) \<and> wr_popped (ls_ring c') = wr_pushed (ls_ring c) \<and>
    loop_thread moved Size body s0 c'"
  using assms(1,2)
proof (induction "accesses_left (ls_ring c)" arbitrary: c)
  case 0
  from loop_folds [OF loop_thread_runs [OF 0(2)]] ring_runs_image [OF _ size] have "weak_inv Size (ls_ring c)" by blast
  from accesses_left_pos(1) [OF this] 0(1) show ?case by simp
next
  case (Suc n)
  let ?w = "ls_ring c" and ?ev = "fresh_pop (ls_ring c)"
  from loop_folds [OF loop_thread_runs [OF Suc.prems(1)]] have runs: "ring_runs push_orders pop_orders moved Size ?w" ..
  from ring_runs_image [OF runs size] have inv: "weak_inv Size ?w" ..
  have "\<exists>c1. loop_event moved Size body ?ev c = Some c1 \<and> wr_pushed (ls_ring c1) = wr_pushed ?w \<and>
    (if accesses_left ?w = 1 then ls_returned c1 \<and> wr_popped (ls_ring c1) = wr_popped ?w
     else \<not> ls_returned c1 \<and> accesses_left ?w = Suc (accesses_left (ls_ring c1)))"
  proof (cases "pushes ?w \<le> pops ?w")
    case True
    from fresh_pop_ends [OF inv True, of moved] obtain w' where
      "ring_event push_orders pop_orders moved Size ?ev ?w = Some w'" "wr_pushed w' = wr_pushed ?w" "wr_popped w' = wr_popped ?w"
      "if accesses_left ?w = 1 then finds_empty ?ev (wr_consumer w')
       else \<not> finds_empty ?ev (wr_consumer w') \<and> accesses_left ?w = Suc (accesses_left w')" by blast
    with loop_event_ring [OF Suc.prems(2) this(1), of body] show ?thesis by (metis (no_types, lifting))
  next
    case False
    then have some: "pops ?w < pushes ?w" by simp
    with accesses_left_pos(2) [OF inv] have "accesses_left ?w \<noteq> 1" by auto
    moreover from fresh_pop_moves [OF inv some, of moved] obtain w' where
      "ring_event push_orders pop_orders moved Size ?ev ?w = Some w'" "wr_pushed w' = wr_pushed ?w"
      "accesses_left ?w = Suc (accesses_left w')" "\<not> finds_empty ?ev (wr_consumer w')" by blast
    moreover from loop_event_ring [OF Suc.prems(2) this(1), of body] obtain c1 where
      "loop_event moved Size body ?ev c = Some c1" "ls_ring c1 = w'" "ls_returned c1 = finds_empty ?ev (wr_consumer w')" by blast
    ultimately show ?thesis by (intro exI [of _ c1]) simp
  qed
  then obtain c1 where step: "loop_event moved Size body ?ev c = Some c1" and pushed: "wr_pushed (ls_ring c1) = wr_pushed ?w"
    and c1: "if accesses_left ?w = 1 then ls_returned c1 \<and> wr_popped (ls_ring c1) = wr_popped ?w
      else \<not> ls_returned c1 \<and> accesses_left ?w = Suc (accesses_left (ls_ring c1))" by blast
  note thread = loop_thread.event [OF Suc.prems(1) step]
  show ?case
  proof (cases "accesses_left ?w = 1")
    case True
    from ring_runs_queue(2) [OF runs size] obtain xs where xs: "wr_pushed ?w = wr_popped ?w @ xs" by blast
    with ring_runs_counts [OF runs] accesses_left_pos(2) [OF inv True] have "wr_popped ?w = wr_pushed ?w" by simp
    with True c1 step pushed thread Suc.prems(2) show ?thesis by (intro exI [of _ c1]) simp
  next
    case False
    with c1 have left: "n = accesses_left (ls_ring c1)" "\<not> ls_returned c1" using Suc.hyps(2) by auto
    from Suc.hyps(1) [OF left(1) thread left(2)] left(1) pushed obtain c' where
      "loop_alone moved Size body n c1 = Some c'" "ls_returned c'" "wr_pushed (ls_ring c') = wr_pushed ?w"
      "wr_popped (ls_ring c') = wr_pushed ?w" "loop_thread moved Size body s0 c'" by auto
    with step Suc.prems(2) show ?thesis by (intro exI [of _ c']) (simp flip: Suc.hyps(2))
  qed
qed

text \<open>C10. The matching loop finishes its work.  Let a gateway thread push orders and another run the
  loop of the README, which returns at the first pop that finds the queue empty, and let it not
  have returned yet.  Wherever the two threads stand, and whatever old values the matching thread
  had loaded: if from now on it runs alone and its loads return the newest stores, then each of
  its accesses succeeds, and after at most four per pending order and two more it has returned,
  the queue is empty and the engine is what it becomes when every pushed order is processed, one
  by one and in order.\<close>

theorem matching_loop_finishes:
  assumes "loop_thread moved Size (matching_step clk) (Some (0, e)) c" and "\<not> ls_returned c" and "size_ok Size"
    and "engine_reach e" and "list_all order_event_ok (wr_pushed (ls_ring c))"
  shows "\<exists>n c' e'. n \<le> 4 * (length (wr_pushed (ls_ring c)) - length (wr_popped (ls_ring c))) + 2 \<and>
    loop_alone moved Size (matching_step clk) n c = Some c' \<and> ls_returned c' \<and>
    wr_pushed (ls_ring c') = wr_pushed (ls_ring c) \<and> wr_popped (ls_ring c') = wr_pushed (ls_ring c) \<and>
    ls_client c' = Some (length (orders_of (wr_pushed (ls_ring c))), e') \<and>
    e' = process_all clk 0 (orders_of (wr_pushed (ls_ring c))) e \<and> engine_reach e'"
proof -
  let ?w = "ls_ring c"
  from alone_returns [OF assms(1-3)] obtain c' where
    run: "loop_alone moved Size (matching_step clk) (accesses_left ?w) c = Some c'" "ls_returned c'"
      "wr_pushed (ls_ring c') = wr_pushed ?w" "wr_popped (ls_ring c') = wr_pushed ?w"
      "loop_thread moved Size (matching_step clk) (Some (0, e)) c'" by blast
  have "accesses_left ?w \<le> 4 * (length (wr_pushed ?w) - length (wr_popped ?w)) + 2"
    using ring_runs_counts loop_folds [OF loop_thread_runs [OF assms(1)]] by (fastforce simp: accesses_left_def)
  moreover have "ls_client c' = Some (length (orders_of (wr_pushed ?w)), process_all clk 0 (orders_of (wr_pushed ?w)) e)"
    using loop_folds [OF loop_thread_runs [OF run(5)]] matching_fold [OF assms(5), of clk 0 e] by (simp add: run(4))
  moreover have "engine_reach (process_all clk 0 (orders_of (wr_pushed ?w)) e)"
    by (rule process_all_reach [OF assms(4) orders_of_range [OF assms(5)]])
  ultimately show ?thesis using run(1-4) by blast
qed

theorem matching_loop_finishes_witness:
  "\<exists>c n c' e'. loop_thread id 4 (matching_step (\<lambda>k. (5, 6))) (Some (0, demo_me)) c \<and> \<not> ls_returned c \<and>
    length (wr_pushed (ls_ring c)) = 2 \<and> length (wr_popped (ls_ring c)) = 1 \<and> n \<le> 6 \<and>
    loop_alone id 4 (matching_step (\<lambda>k. (5, 6))) n c = Some c' \<and> ls_returned c' \<and>
    ls_client c' = Some (2, e') \<and> engine_reach e'"
proof -
  let ?c = "\<lparr>ls_ring = weak_init default_event 4, ls_client = Some (0, demo_me), ls_returned = False\<rparr>"
  let ?step = "matching_step (\<lambda>k. (5, 6))"
  have "map_option (\<lambda>c. (wr_pushed (ls_ring c), length (wr_popped (ls_ring c)), ls_returned c))
      (loop_events id 4 ?step (butlast two_orders_one_matched) ?c) =
      Some ([order_event (eng_order 2 9 Buy 101 4), order_event (eng_order 3 9 Buy 101 2)], 1, False)" by code_simp
  then obtain c where c: "loop_events id 4 ?step (butlast two_orders_one_matched) ?c = Some c" "length (wr_popped (ls_ring c)) = 1"
    "\<not> ls_returned c"
    "wr_pushed (ls_ring c) = [order_event (eng_order 2 9 Buy 101 4), order_event (eng_order 3 9 Buy 101 2)]" by auto
  from loop_thread_events [OF loop_thread.start c(1)] have run: "loop_thread id 4 ?step (Some (0, demo_me)) c" .
  have "size_ok 4" by (simp add: size_ok_def)
  moreover have "list_all order_event_ok (wr_pushed (ls_ring c))"
    by (simp add: c(4) order_event_ok_def order_event_def eng_order_def in_i64_def i64_min_def i64_max_def)
  moreover have "length (orders_of (wr_pushed (ls_ring c))) = 2" unfolding c(4) by code_simp
  ultimately have "\<exists>n c' e'. n \<le> 6 \<and> loop_alone id 4 ?step n c = Some c' \<and> ls_returned c' \<and>
      ls_client c' = Some (2, e') \<and> engine_reach e'"
    using matching_loop_finishes [OF run c(3) _ demo_me_reach] c(2,4) by fastforce
  with run c(2,3,4) show ?thesis by (intro exI [of _ c]) simp
qed

section \<open>Returning too early\<close>

lemma returned_stays:
  assumes "ls_returned c" and "loop_events moved Size body evs c = Some c'"
  shows "ls_returned c' \<and> ls_client c' = ls_client c \<and> wr_popped (ls_ring c') = wr_popped (ls_ring c)"
  using assms
proof (induction moved Size body evs c rule: loop_events.induct)
  case (2 moved Size body ev evs c)
  from "2.prems" obtain c1 where c1: "loop_event moved Size body ev c = Some c1" "loop_events moved Size body evs c1 = Some c'"
    by (auto split: option.splits)
  from c1(1) "2.prems"(1) obtain w where w: "\<not> of_consumer ev" "ring_event push_orders pop_orders moved Size ev (ls_ring c) = Some w"
    "c1 = \<lparr>ls_ring = w, ls_client = ls_client c, ls_returned = True\<rparr>"
    by (cases ev) (auto simp: loop_event_def split: if_splits)
  from w(1) have "ev \<noteq> PopStore" by auto
  from ring_event_popped(1) [OF w(2) this] "2.IH" [OF c1(1) _ c1(2)] w(3) show ?case by simp
qed simp

text \<open>The loop loses orders.  The gateway thread pushes an order and completes the push; then the matching
  thread, which loads the head as it was before, finds the queue empty and returns.  From then on
  nothing that either thread does processes that order or any later one.\<close>

theorem matching_loop_returns_early:
  "\<exists>c. loop_thread moved 4 (matching_step clk) (Some (0, e)) c \<and> wr_pushed (ls_ring c) = [x] \<and> ls_returned c \<and>
    (\<forall>evs c'. loop_events moved 4 (matching_step clk) evs c = Some c' \<longrightarrow>
      ls_client c' = Some (0, e) \<and> wr_popped (ls_ring c') = [])"
proof -
  let ?c = "\<lparr>ls_ring = weak_init x 4, ls_client = Some (0, e), ls_returned = False\<rparr>"
  have "\<exists>c. loop_events moved 4 (matching_step clk) (do_push x 0 0 @ [PopLoadTail 0, PopLoadHead 0]) ?c = Some c \<and>
      wr_pushed (ls_ring c) = [x] \<and> wr_popped (ls_ring c) = [] \<and> ls_returned c \<and> ls_client c = Some (0, e)"
    by (simp add: do_push_def loop_event_def ring_event_def weak_init_def readable_def increment_def write_slot_def store_history_def load_view_def
        push_orders_def pop_orders_def Let_def)
  then obtain c where c: "loop_events moved 4 (matching_step clk) (do_push x 0 0 @ [PopLoadTail 0, PopLoadHead 0]) ?c = Some c"
    "wr_pushed (ls_ring c) = [x]" "wr_popped (ls_ring c) = []" "ls_returned c" "ls_client c = Some (0, e)" by blast
  from loop_thread_events [OF loop_thread.start c(1)] have "loop_thread moved 4 (matching_step clk) (Some (0, e)) c" .
  with c(2-5) returned_stays [OF c(4)] show ?thesis by (intro exI [of _ c]) fastforce
qed

end
