(* ===== verification/Book_Spec.thy ===== *)
theory Book_Spec
  imports L3_Service
begin

text \<open>
  The abstract book that an order book promises to be, and the L3 book as an implementation of
  it.  An abstract book is, for each side, a list of quotes in priority order: price, order id
  and open quantity.  Its operations are written without levels, iterators, indexes, positions
  or counters; \<open>quotes\<close> forgets those of a concrete book.
\<close>

section \<open>The abstract book\<close>

type_synonym quote = "Price \<times> OrderId \<times> Quantity"
type_synonym quote_book = "Side \<Rightarrow> quote list"

definition spec_ids :: "quote_book \<Rightarrow> OrderId set" where
  "spec_ids Q = (fst \<circ> snd) ` set (Q Buy) \<union> (fst \<circ> snd) ` set (Q Sell)"

lemma in_spec_ids: "oid \<in> spec_ids Q \<longleftrightarrow> (\<exists>sd. oid \<in> (fst \<circ> snd) ` set (Q sd))"
proof -
  have "(\<exists>sd. P sd) \<longleftrightarrow> P Buy \<or> P Sell" for P by (metis (full_types) Side.exhaust)
  then show ?thesis unfolding spec_ids_def by simp
qed

text \<open>Whether an order may trade at a price.\<close>

definition accepts :: "Order \<Rightarrow> Price \<Rightarrow> bool" where
  "accepts order p \<longleftrightarrow> (case ord_type order of Market \<Rightarrow> True
     | Limit \<Rightarrow> (case ord_side order of Buy \<Rightarrow> p \<le> ord_price order | Sell \<Rightarrow> ord_price order \<le> p))"

text \<open>Matching \<open>n\<close> units: the fills, what remains, and the quotes that are left.\<close>

fun spec_match :: "(Price \<Rightarrow> bool) \<Rightarrow> Quantity \<Rightarrow> quote list \<Rightarrow> quote list \<times> Quantity \<times> quote list" where
  "spec_match ok n [] = ([], n, [])"
| "spec_match ok n ((p, i, m) # xs) =
     (if n \<le> 0 \<or> \<not> ok p then ([], n, (p, i, m) # xs)
      else if m \<le> n then (case spec_match ok (n - m) xs of (fs, k, ys) \<Rightarrow> ((p, i, m) # fs, k, ys))
      else ([(p, i, n)], 0, (p, i, m - n) # xs))"

definition spec_insert :: "Side \<Rightarrow> quote \<Rightarrow> quote list \<Rightarrow> quote list" where
  "spec_insert sd x xs =
     filter (\<lambda>y. \<not> before_of sd (fst x) (fst y)) xs @ x # filter (\<lambda>y. before_of sd (fst x) (fst y)) xs"

definition spec_rests :: "Order \<Rightarrow> Quantity \<Rightarrow> bool" where
  "spec_rests order n \<longleftrightarrow> 0 < n \<and> ord_type order = Limit \<and> (ord_tif order = Day \<or> ord_tif order = GTC)"

text \<open>Whether a fill-or-kill order must be killed.\<close>

definition spec_killed :: "Order \<Rightarrow> quote_book \<Rightarrow> bool" where
  "spec_killed order Q \<longleftrightarrow> ord_tif order = FOK \<and>
     sum_list (map (snd \<circ> snd) (takeWhile (accepts order \<circ> fst) (Q (opposite (ord_side order))))) < ord_quantity order"

definition spec_add :: "Order \<Rightarrow> quote_book \<Rightarrow> quote list \<times> quote_book" where
  "spec_add order Q =
     (let sd = ord_side order; opp = opposite sd in
      if ord_id order \<in> spec_ids Q \<or> spec_killed order Q then ([], Q)
      else case spec_match (accepts order) (ord_quantity order) (Q opp) of (fs, n, ys) \<Rightarrow>
        (fs, if spec_rests order n
             then Q(opp := ys, sd := spec_insert sd (ord_price order, ord_id order, n) (Q sd))
             else Q(opp := ys)))"

definition spec_cancel :: "OrderId \<Rightarrow> quote_book \<Rightarrow> quote_book" where
  "spec_cancel oid Q = (\<lambda>sd. filter (\<lambda>x. fst (snd x) \<noteq> oid) (Q sd))"

definition spec_side :: "OrderId \<Rightarrow> quote_book \<Rightarrow> Side" where
  "spec_side oid Q = (if oid \<in> (fst \<circ> snd) ` set (Q Buy) then Buy else Sell)"

text \<open>Replacing is cancelling, then adding a day limit order with the id and side of the old one.\<close>

definition spec_replace :: "ReplaceRequest \<Rightarrow> quote_book \<Rightarrow> quote list \<times> quote_book" where
  "spec_replace req Q =
     (let oid = rep_order_id req in
      if oid \<notin> spec_ids Q then ([], Q)
      else spec_add (default_order\<lparr>ord_id := oid, ord_side := spec_side oid Q, ord_type := Limit, ord_tif := Day,
        ord_price := rep_new_price req, ord_quantity := rep_new_qty req\<rparr>) (spec_cancel oid Q))"

section \<open>Properties of the abstract book\<close>

lemma spec_match_zero [simp]: "n \<le> 0 \<Longrightarrow> spec_match ok n xs = ([], n, xs)"
  by (cases xs) auto

lemma spec_match_append:
  assumes "\<forall>x \<in> set xs. ok (fst x)"
  shows "spec_match ok n (xs @ ys) = (case spec_match ok n xs of (fs, k, xs') \<Rightarrow>
    case spec_match ok k ys of (gs, k', ys') \<Rightarrow> (fs @ gs, k', xs' @ ys'))"
  using assms
  by (induction ok n xs rule: spec_match.induct) (auto split: prod.splits)

lemma spec_match_all:
  assumes "\<forall>x \<in> set xs. ok (fst x)"
  shows "spec_match ok n xs = spec_match (\<lambda>p. True) n xs"
  using assms by (induction ok n xs rule: spec_match.induct) (auto split: prod.splits)

lemma spec_match_stop:
  "\<not> ok (fst x) \<Longrightarrow> spec_match ok n (x # xs) = ([], n, x # xs)"
  by (cases x) simp

lemma accepts_break: "\<not> price_break order p \<longleftrightarrow> accepts order p"
  by (cases "ord_type order"; cases "ord_side order") (auto simp: price_break_def accepts_def)

lemma spec_rests_iff: "spec_rests = rests"
  by (simp add: fun_eq_iff spec_rests_def rests_def)

section \<open>The L3 book as an abstract book\<close>

definition quote_of :: "Price \<times> node \<times> L3Order \<Rightarrow> quote" where
  "quote_of e = (case e of (p, h, r) \<Rightarrow> (p, l3_id r, open_qty r))"

definition quotes :: "L3OrderBook \<Rightarrow> quote_book" where
  "quotes b = (\<lambda>sd. map quote_of (entries sd b))"

definition fill_quote :: "Price \<times> L3Order \<times> Quantity \<Rightarrow> quote" where
  "fill_quote f = (case f of (p, r, m) \<Rightarrow> (p, l3_id r, m))"

definition trade_quote :: "Trade \<Rightarrow> quote" where
  "trade_quote t = (trd_price t, trd_resting_id t, trd_qty t)"

lemma quote_of_fields [simp]:
  "fst (quote_of (p, h, r)) = p" "quote_of (p, h, r) = (p, l3_id r, open_qty r)"
  by (simp_all add: quote_of_def)

lemma open_qty_pos [simp]: "open_qty (r\<lparr>l3_queue_pos := w\<rparr>) = open_qty r"
  by (simp add: open_qty_def)

lemma quote_of_pos: "quote_of (p, h, r\<lparr>l3_queue_pos := w\<rparr>) = quote_of (p, h, r)"
  by (simp add: open_qty_def)

lemma trade_quotes: "map trade_quote (trades_for order ts symbol tid fs) = map fill_quote fs"
  by (induction order ts symbol tid fs rule: trades_for.induct)
    (auto simp: trade_quote_def fill_quote_def trade_for_def split: prod.split)

lemma spec_match_entries:
  assumes "\<forall>(p, h, r) \<in> set xs. l3_ok r"
  shows "spec_match (accepts order) n (map quote_of xs) =
    (map fill_quote (fills_of n (eligible order xs)), n - fill_total (fills_of n (eligible order xs)),
     map quote_of (left_of n (eligible order xs) @ ineligible order xs))"
  using assms
proof (induction xs arbitrary: n)
  case Nil
  then show ?case by (simp add: eligible_def ineligible_def fill_total_def)
next
  case (Cons x xs)
  obtain p h r where x: "x = (p, h, r)" by (cases x)
  have ok: "l3_ok r" "\<forall>(p, h, r) \<in> set xs. l3_ok r" using Cons.prems by (auto simp: x)
  consider "n \<le> 0" | "0 < n" "\<not> accepts order p" | "0 < n" "accepts order p" "open_qty r \<le> n"
    | "0 < n" "accepts order p" "n < open_qty r" by linarith
  then show ?case
  proof cases
    case 1
    then have "fills_of n ys = []" "left_of n ys = ys" for ys by (cases ys; auto)+
    with 1 show ?thesis using eligible_split [of order "x # xs"] by (simp add: fill_total_def flip: map_append)
  next
    case 2
    then show ?thesis by (simp add: x eligible_def ineligible_def accepts_break fill_total_def)
  next
    case 3
    with Cons.IH [OF ok(2), of "n - open_qty r"] show ?thesis
      by (simp add: x eligible_def ineligible_def accepts_break fill_total_def fill_quote_def)
  next
    case 4
    then have "open_qty (reduce_resting n r) = open_qty r - n"
      using reduce_resting_amounts(1) [OF ok(1), of n] by simp
    with 4 show ?thesis
      by (simp add: x eligible_def ineligible_def accepts_break fill_total_def fill_quote_def)
  qed
qed

lemma spec_ids_quotes:
  assumes "book_inv b"
  shows "oid \<in> spec_ids (quotes b) \<longleftrightarrow> order_index b oid \<noteq> None"
proof
  assume "oid \<in> spec_ids (quotes b)"
  then obtain sd p h r where "(p, h, r) \<in> set (entries sd b)" "l3_id r = oid"
    by (auto simp: in_spec_ids quotes_def)
  then have "(p, h, oid) \<in> set (keys sd b)" by (force simp: keys_def ekey_def)
  then have "order_index b oid = Some \<lparr>loc_side = sd, loc_price = p, loc_it = h\<rparr>"
    by (simp add: inv_index [OF assms])
  then show "order_index b oid \<noteq> None" by simp
next
  assume "order_index b oid \<noteq> None"
  then obtain loc where "order_index b oid = Some loc" by blast
  from inv_index_deref [OF assms this] obtain r where
    r: "l3_id r = oid" "(loc_price loc, loc_it loc, r) \<in> set (entries (loc_side loc) b)" by blast
  from r(2) have "quote_of (loc_price loc, loc_it loc, r) \<in> set (quotes b (loc_side loc))"
    unfolding quotes_def set_map by (rule imageI)
  with r(1) show "oid \<in> spec_ids (quotes b)" by (force simp: in_spec_ids)
qed

text \<open>Killed orders: the available quantity is the open quantity of the eligible entries.\<close>

lemma takeWhile_quotes:
  "takeWhile (accepts order \<circ> fst) (map quote_of xs) = map quote_of (eligible order xs)"
  by (induction xs) (auto simp: eligible_def accepts_break)

lemma open_total_quotes: "sum_list (map (snd \<circ> snd) (map quote_of xs)) = open_total xs"
  by (induction xs) (auto simp: open_total_def)

lemma spec_killed_iff:
  assumes "book_inv b" and "in_i64 (open_total (entries (opposite (ord_side order)) b))"
  shows "spec_killed order (quotes b) \<longleftrightarrow> fok_fails order b"
proof (cases "ord_tif order = FOK")
  case True
  from inv_fok_fails [OF assms(1) True assms(2)] True show ?thesis
    by (simp add: spec_killed_def quotes_def takeWhile_quotes open_total_quotes del: map_map)
next
  case False
  then show ?thesis by (simp add: spec_killed_def fok_fails_def)
qed

lemma quotes_levels: "(\<And>sd. levels_of sd b' = levels_of sd b) \<Longrightarrow> quotes b' = quotes b"
  by (simp add: quotes_def entries_def)

lemma spec_insert_entries:
  assumes "lv_ok (before_of sd) L"
  shows "map quote_of (lv_flat (lv_append (before_of sd) p (h, r) L)) =
    spec_insert sd (p, l3_id r, open_qty r) (map quote_of (lv_flat L))"
  by (simp add: side_order.append_priority [OF assms] spec_insert_def filter_map comp_def case_prod_unfold)
    (simp add: quote_of_def case_prod_unfold)

section \<open>The operations\<close>

text \<open>The open quantity of each side is representable.\<close>

definition open_fits :: "L3OrderBook \<Rightarrow> bool" where
  "open_fits b \<longleftrightarrow> (\<forall>sd. in_i64 (open_total (entries sd b)))"

lemma quotes_match:
  assumes inv: "book_inv b" and q: "in_i64 (ord_quantity order)" and run: "\<not> fok_fails order b"
    and m: "match_incoming order ts b = (res, b1)"
  defines "opp \<equiv> opposite (ord_side order)"
  shows "spec_match (accepts order) (ord_quantity order) (quotes b opp) =
      (map trade_quote (res_trades res), res_remaining_qty res, quotes b1 opp)"
    and "quotes b1 (ord_side order) = quotes b (ord_side order)"
proof -
  from match_incoming_spec [OF inv q run, of ts] obtain L where
    L: "lv_flat L = matched_entries order (entries opp b)"
    and res: "res = \<lparr>res_trades = order_trades order ts b,
        res_remaining_qty = ord_quantity order - fill_total (order_fills order b),
        res_fully_filled = (ord_quantity order - fill_total (order_fills order b) = 0)\<rparr>"
    and b1: "b1 = set_levels opp L (traded_book (order_trades order ts b) (matched_gone order (entries opp b)) b)"
    unfolding opp_def m by auto
  have "\<forall>(p, h, r) \<in> set (entries opp b). l3_ok r" by (rule inv_l3_ok [OF inv])
  from spec_match_entries [OF this, of order "ord_quantity order"]
  show "spec_match (accepts order) (ord_quantity order) (quotes b opp) =
      (map trade_quote (res_trades res), res_remaining_qty res, quotes b1 opp)"
    by (simp add: quotes_def res b1 order_trades_def order_fills_def trade_quotes entries_def [of opp b1] L
        matched_entries_def opp_def [symmetric] entries_def [of opp "set_levels opp L b2" for b2])
  show "quotes b1 (ord_side order) = quotes b (ord_side order)"
    using match_incoming_own_side [OF inv q, of ts] by (simp add: m quotes_def entries_def)
qed

lemma quote_book_eq: "Q = R \<longleftrightarrow> Q sd = R sd \<and> Q (opposite sd) = R (opposite sd)" for Q R :: quote_book
proof
  assume eq: "Q sd = R sd \<and> Q (opposite sd) = R (opposite sd)"
  have "Q x = R x" for x by (cases sd; cases x) (use eq in simp_all)
  then show "Q = R" by (rule ext)
qed simp

lemma quotes_add:
  assumes inv: "book_inv b" and q: "in_i64 (ord_quantity order)" and fits: "ord_tif order = FOK \<longrightarrow> open_fits b"
  shows "spec_add order (quotes b) = (map trade_quote (trades_of order ts b), quotes (snd (add_order order ts b)))"
proof (cases "order_index b (ord_id order)")
  case (Some loc)
  then show ?thesis by (simp add: spec_add_def spec_ids_quotes [OF inv] trades_of_def add_order_duplicate Let_def)
next
  case new: None
  let ?sd = "ord_side order" and ?opp = "opposite (ord_side order)"
  obtain res b1 where res: "match_incoming order ts b = (res, b1)" by fastforce
  have killed: "spec_killed order (quotes b) \<longleftrightarrow> fok_fails order b"
  proof (cases "ord_tif order = FOK")
    case True
    with fits show ?thesis by (intro spec_killed_iff [OF inv]) (simp add: open_fits_def)
  qed (simp add: spec_killed_def fok_fails_def)
  have trs: "trades_of order ts b = res_trades res" by (simp add: trades_of_def new res)
  note frame = add_order_frame(1) [OF new res]
  show ?thesis
  proof (cases "fok_fails order b")
    case True
    then have "ord_tif order = FOK" by (simp add: fok_fails_def)
    then have "\<not> rests order n" for n by (simp add: rests_def)
    moreover have "res_trades res = []" "b1 = b" using res match_incoming_killed [OF True] by auto
    moreover from calculation have "quotes (snd (add_order order ts b)) = quotes b"
      using frame by (intro quotes_levels) simp
    ultimately show ?thesis using True by (simp add: spec_add_def killed trs Let_def)
  next
    case False
    note m = quotes_match [OF inv q False res]
    let ?n = "res_remaining_qty res"
    have inv1: "book_inv b1" using match_incoming_inv [OF inv q, of ts] by (simp add: res)
    have step: "spec_add order (quotes b) = (map trade_quote (res_trades res),
        if rests order ?n then (quotes b)(?opp := quotes b1 ?opp, ?sd := spec_insert ?sd (ord_price order, ord_id order, ?n) (quotes b ?sd))
        else (quotes b)(?opp := quotes b1 ?opp))"
      by (simp add: spec_add_def spec_ids_quotes [OF inv] new killed False m(1) spec_rests_iff Let_def)
    show ?thesis
    proof (cases "rests order ?n")
      case True
      note lv = add_resting_order_levels [where order = order and n = ?n and ts = ts and b = b1]
      have own: "quotes (snd (add_order order ts b)) ?sd =
          spec_insert ?sd (ord_price order, ord_id order, ?n) (quotes b ?sd)"
        using spec_insert_entries [OF inv_levels [OF inv1]] m(2)
        by (simp add: quotes_def entries_def frame True lv(1) resting_order_def open_qty_def)
      have "quotes (snd (add_order order ts b)) ?opp = quotes b1 ?opp"
        by (simp add: quotes_def entries_def frame True lv(2))
      with own show ?thesis unfolding step trs by (simp add: True quote_book_eq [where sd = ?sd])
    next
      case False
      with frame have "quotes (snd (add_order order ts b)) = quotes b1" by (intro quotes_levels) simp
      then show ?thesis unfolding step trs by (simp add: False m(2) quote_book_eq [where sd = ?sd])
    qed
  qed
qed

lemma quotes_cancel:
  assumes inv: "book_inv b" and c: "cancel_order oid ts b = Some (rpt, b')"
  shows "quotes b' = spec_cancel oid (quotes b)"
proof (cases "order_index b oid")
  case None
  then have "\<forall>x \<in> set (quotes b sd). fst (snd x) \<noteq> oid" for sd
    using spec_ids_quotes [OF inv, of oid] by (force simp: in_spec_ids)
  then have "filter (\<lambda>x. fst (snd x) \<noteq> oid) (quotes b sd) = quotes b sd" for sd by (simp add: filter_id_conv)
  with c None show ?thesis by (simp add: cancel_order_unknown spec_cancel_def)
next
  case (Some loc)
  let ?sd = "loc_side loc"
  from inv_index_deref [OF inv Some] obtain r where "deref b loc = Some r" .
  with c have b': "b' = publish_tob ts (cancelled_book oid loc b)" by (simp add: cancel_order_known [OF Some])
  then have Q: "quotes b' = quotes (cancelled_book oid loc b)" by (intro quotes_levels) simp
  have "filter (\<lambda>(_, k, _). k \<noteq> loc_it loc) (entries ?sd b) =
      filter (\<lambda>e. fst (snd (quote_of e)) \<noteq> oid) (entries ?sd b)"
  proof (intro filter_cong refl)
    fix e assume e: "e \<in> set (entries ?sd b)"
    obtain p h r where "e = (p, h, r)" by (cases e)
    with entry_node_id [OF inv Some] e show "(case e of (_, k, _) \<Rightarrow> k \<noteq> loc_it loc) = (fst (snd (quote_of e)) \<noteq> oid)"
      by simp
  qed
  then have own: "quotes b' ?sd = spec_cancel oid (quotes b) ?sd"
    using cancelled_book_entries(4) [OF inv Some, of quote_of, OF quote_of_pos]
    unfolding Q by (simp add: quotes_def spec_cancel_def filter_map comp_def)
  have "quotes b' sd = spec_cancel oid (quotes b) sd" if "sd \<noteq> ?sd" for sd
  proof -
    have "fst (snd x) \<noteq> oid" if x: "x \<in> set (quotes b sd)" for x
    proof
      assume "fst (snd x) = oid"
      with x obtain p h r where "(p, h, r) \<in> set (entries sd b)" "l3_id r = oid" by (auto simp: quotes_def)
      then have "(p, h, oid) \<in> set (keys sd b)" by (force simp: keys_def ekey_def)
      moreover have "(loc_price loc, loc_it loc, oid) \<in> set (keys ?sd b)"
        using Some by (simp add: inv_index [OF inv])
      ultimately show False using inv_id_unique(3) [OF inv] \<open>sd \<noteq> ?sd\<close> by blast
    qed
    then have "spec_cancel oid (quotes b) sd = quotes b sd" by (simp add: spec_cancel_def filter_id_conv)
    moreover have "quotes b' sd = quotes b sd" unfolding Q using that by (simp add: quotes_def entries_def)
    ultimately show ?thesis by simp
  qed
  with own show ?thesis by (intro ext) metis
qed

lemma spec_side_index:
  assumes inv: "book_inv b" and loc: "order_index b oid = Some loc"
  shows "spec_side oid (quotes b) = loc_side loc"
proof -
  have k: "(loc_price loc, loc_it loc, oid) \<in> set (keys (loc_side loc) b)"
    using loc by (simp add: inv_index [OF inv])
  have ids: "(fst \<circ> snd) ` set (quotes b sd) = (\<lambda>k. snd (snd k)) ` set (keys sd b)" for sd
    by (simp add: quotes_def keys_def image_image ekey_def quote_of_def case_prod_unfold)
  show ?thesis
  proof (cases "loc_side loc")
    case Buy
    with k show ?thesis unfolding spec_side_def ids by (auto intro: rev_image_eqI)
  next
    case Sell
    have "oid \<notin> (\<lambda>k. snd (snd k)) ` set (keys Buy b)"
    proof
      assume "oid \<in> (\<lambda>k. snd (snd k)) ` set (keys Buy b)"
      then obtain p h where "(p, h, oid) \<in> set (keys Buy b)" by auto
      from inv_id_unique(3) [OF inv this k] Sell show False by simp
    qed
    with Sell show ?thesis unfolding spec_side_def ids by simp
  qed
qed

lemma spec_add_fields:
  assumes "ord_id o' = ord_id order" "ord_side o' = ord_side order" "ord_type o' = ord_type order"
    "ord_tif o' = ord_tif order" "ord_price o' = ord_price order" "ord_quantity o' = ord_quantity order"
  shows "spec_add o' Q = spec_add order Q"
proof -
  have same: "accepts o' = accepts order" "spec_rests o' = spec_rests order"
    using assms by (simp_all add: fun_eq_iff accepts_def spec_rests_def split: OrderType.split Side.split)
  show ?thesis unfolding spec_add_def spec_killed_def assms same ..
qed

lemma quotes_replace:
  assumes inv: "book_inv b" and q: "in_i64 (rep_new_qty req)" and r: "replace_order req ts b = Some (rpt, b')"
  shows "quotes b' = snd (spec_replace req (quotes b))"
proof -
  let ?oid = "rep_order_id req"
  obtain crpt b1 where c: "cancel_order ?oid ts b = Some (crpt, b1)" using cancel_order_defined [OF inv] by blast
  note Q1 = quotes_cancel [OF inv c] and inv1 = cancel_order_inv [OF inv c]
  show ?thesis
  proof (cases "order_index b ?oid")
    case None
    then have "?oid \<notin> spec_ids (quotes b)" by (simp add: spec_ids_quotes [OF inv])
    moreover have "b' = b" using r None by (simp add: replace_order_def cancel_order_unknown)
    ultimately show ?thesis by (simp add: spec_replace_def)
  next
    case (Some loc)
    from inv_index_deref [OF inv Some] obtain l3 where l3: "deref b loc = Some l3" "l3_side l3 = loc_side loc"
      by (auto simp: entry_ok_def)
    with c have crpt: "rpt_status crpt = Canceled" "rpt_side crpt = loc_side loc"
      by (auto simp: cancel_order_known [OF Some l3(1)])
    let ?o = "replacement req (loc_side loc) ts"
    have "b' = snd (add_order ?o ts b1)" using r by (simp add: replace_order_def c crpt prod_eq_iff)
    moreover have "in_i64 (ord_quantity ?o)" "ord_tif ?o \<noteq> FOK" using q by (simp_all add: replacement_def)
    with quotes_add [OF inv1, of ?o ts] have "quotes (snd (add_order ?o ts b1)) = snd (spec_add ?o (quotes b1))" by simp
    moreover have "spec_add ?o Q = spec_add (default_order\<lparr>ord_id := ?oid, ord_side := loc_side loc, ord_type := Limit,
        ord_tif := Day, ord_price := rep_new_price req, ord_quantity := rep_new_qty req\<rparr>) Q" for Q
      by (rule spec_add_fields) (simp_all add: replacement_def)
    ultimately show ?thesis
      by (simp add: spec_replace_def spec_ids_quotes [OF inv] Some spec_side_index [OF inv Some] Q1 Let_def)
  qed
qed

text \<open>C2. The L3 book is a price-time priority book.  Forgetting levels, iterators, indexes, queue
  positions and counters, on every reachable book adding, cancelling and replacing an order are
  the operations of the abstract book of quotes: they leave the same quotes in the same
  priority, an added order makes exactly the trades of the abstract book, and a cancel reports
  success exactly for the ids that rest.  For fill-or-kill orders the open quantity of a side
  must be representable.\<close>

theorem l3_refines_priority_book:
  assumes reach: "book_reach b" and q: "in_i64 (ord_quantity order)" "in_i64 (rep_new_qty req)"
    and fits: "ord_tif order = FOK \<longrightarrow> open_fits b"
  shows "(map trade_quote (trades_of order ts b), quotes (snd (add_order order ts b))) = spec_add order (quotes b) \<and>
    (\<exists>rpt b'. cancel_order oid ts b = Some (rpt, b') \<and> quotes b' = spec_cancel oid (quotes b) \<and>
      (rpt_status rpt = Canceled \<longleftrightarrow> oid \<in> spec_ids (quotes b))) \<and>
    (\<exists>rpt b'. replace_order req ts b = Some (rpt, b') \<and> quotes b' = snd (spec_replace req (quotes b)))"
proof (intro conjI)
  note inv = book_reach_inv [OF reach]
  show "(map trade_quote (trades_of order ts b), quotes (snd (add_order order ts b))) = spec_add order (quotes b)"
    using quotes_add [OF inv q(1) fits] by simp
  obtain crpt b1 where c: "cancel_order oid ts b = Some (crpt, b1)" using cancel_order_defined [OF inv] by blast
  have "rpt_status crpt = Canceled \<longleftrightarrow> oid \<in> spec_ids (quotes b)"
    using cancel_order_status(1) [OF inv c] by (simp add: spec_ids_quotes [OF inv] live_order_def)
  with c quotes_cancel [OF inv c] show "\<exists>rpt b'. cancel_order oid ts b = Some (rpt, b') \<and>
      quotes b' = spec_cancel oid (quotes b) \<and> (rpt_status rpt = Canceled \<longleftrightarrow> oid \<in> spec_ids (quotes b))" by blast
  obtain rpt b2 where r: "replace_order req ts b = Some (rpt, b2)" using replace_order_defined [OF inv] by blast
  with quotes_replace [OF inv q(2) r]
  show "\<exists>rpt b'. replace_order req ts b = Some (rpt, b') \<and> quotes b' = snd (spec_replace req (quotes b))" by blast
qed

theorem l3_refines_priority_book_witness:
  "map trade_quote (trades_of (demo_order 9 Buy Day 101 18) 9 demo_book) = [(101, 1, 10), (101, 2, 5)] \<and>
   quotes (snd (add_order (demo_order 9 Buy Day 101 18) 9 demo_book)) Buy =
     spec_insert Buy (101, 9, 3) (quotes demo_book Buy)"
proof -
  let ?o = "demo_order 9 Buy Day 101 18"
  let ?r = "\<lparr>rep_order_id = 1, rep_trader_id = 7, rep_symbol = default_symbol, rep_new_price = 103,
    rep_new_qty = 5, rep_submit_time = 3, rep_cl_ord_id = [], rep_orig_cl_ord_id = []\<rparr>"
  have hyps: "in_i64 (ord_quantity ?o)" "in_i64 (rep_new_qty ?r)" "ord_tif ?o = FOK \<longrightarrow> open_fits demo_book"
    by (simp_all add: demo_order_def in_i64_def i64_min_def i64_max_def)
  have "quotes demo_book Sell = [(101, 1, 10), (101, 2, 5), (102, 3, 20)]" "9 \<notin> spec_ids (quotes demo_book)"
    by code_simp+
  then have "spec_add ?o (quotes demo_book) = ([(101, 1, 10), (101, 2, 5)], (quotes demo_book)
      (Sell := [(102, 3, 20)], Buy := spec_insert Buy (101, 9, 3) (quotes demo_book Buy)))"
    by (simp add: spec_add_def spec_killed_def demo_order_def default_order_def accepts_def spec_rests_def Let_def)
  with l3_refines_priority_book [OF demo_book_reach hyps, of 9]
  show ?thesis by (simp add: prod_eq_iff)
qed

end
