(* ===== verification/Exchange_Spec.thy ===== *)
theory Exchange_Spec
  imports Engine_Claims Book_Spec
begin

text \<open>
  The exchange that the matching engine promises to be: for every listed symbol an abstract
  price-time priority book, a directory from order ids to symbols, and the risk engine in front.
  Its commands are written without reports, callbacks, counters, feeds or concrete books.
  \<open>exchange_of\<close> forgets those of an engine, and \<open>engine_refines_exchange\<close> shows that every run
  of the engine is a run of the exchange, with the same fills in the same order.
\<close>

section \<open>The abstract exchange\<close>

record exchange =
  xc_books :: "Symbol \<Rightarrow> quote_book option"
  xc_directory :: "OrderId \<Rightarrow> Symbol option"
  xc_risk :: "RiskEngine option"

datatype command = Place Order | Withdraw CancelRequest | Amend ReplaceRequest

definition spec_gate :: "Order \<Rightarrow> RiskEngine option \<Rightarrow> bool \<times> RiskEngine option" where
  "spec_gate order r = (case r of None \<Rightarrow> (True, None)
     | Some risk \<Rightarrow> (fst (check_order order risk) = NoReject, Some (snd (check_order order risk))))"

text \<open>What matching leaves of an order.\<close>

definition spec_left :: "Order \<Rightarrow> quote_book \<Rightarrow> Quantity" where
  "spec_left order Q = (if spec_killed order Q then ord_quantity order
     else fst (snd (spec_match (accepts order) (ord_quantity order) (Q (opposite (ord_side order))))))"

text \<open>The directory learns of every order that is neither filled nor rejected, whether it rests or not.\<close>

definition spec_listed :: "Order \<Rightarrow> quote_book \<Rightarrow> bool" where
  "spec_listed order Q \<longleftrightarrow> ord_id order \<notin> spec_ids Q \<and> spec_left order Q \<noteq> 0 \<and>
     \<not> (0 < spec_left order Q \<and> ord_type order = Limit \<and> ord_tif order = FOK)"

definition filled_qty :: "quote list \<Rightarrow> Quantity" where
  "filled_qty fs = sum_list (map (snd \<circ> snd) fs)"

definition spec_booked :: "Order \<Rightarrow> quote list \<Rightarrow> RiskEngine \<Rightarrow> RiskEngine" where
  "spec_booked order fs risk =
     (if 0 < filled_qty fs then on_fill (ord_trader_id order) (ord_symbol order) (ord_side order) (filled_qty fs) 0 risk
      else risk)"

definition spec_place :: "Order \<Rightarrow> exchange \<Rightarrow> quote list \<times> exchange" where
  "spec_place order X =
     (case xc_books X (ord_symbol order) of
        None \<Rightarrow> ([], X)
      | Some Q \<Rightarrow>
          (case spec_gate order (xc_risk X) of (admitted, r) \<Rightarrow>
             if \<not> admitted then ([], X\<lparr>xc_risk := r\<rparr>)
             else case spec_add order Q of (fs, Q') \<Rightarrow>
               (fs, \<lparr>xc_books = (xc_books X)(ord_symbol order \<mapsto> Q'),
                  xc_directory = (if spec_listed order Q then (xc_directory X)(ord_id order \<mapsto> ord_symbol order)
                                  else xc_directory X),
                  xc_risk = map_option (spec_booked order fs) r\<rparr>)))"

definition withdraw_at :: "OrderId \<Rightarrow> Symbol \<Rightarrow> exchange \<Rightarrow> exchange" where
  "withdraw_at oid s X =
     (case xc_books X s of
        None \<Rightarrow> X
      | Some Q \<Rightarrow> X\<lparr>xc_books := (xc_books X)(s \<mapsto> spec_cancel oid Q),
          xc_directory := (if oid \<in> spec_ids Q then (xc_directory X)(oid := None) else xc_directory X)\<rparr>)"

definition spec_withdraw :: "CancelRequest \<Rightarrow> exchange \<Rightarrow> exchange" where
  "spec_withdraw req X =
     (let oid = cxl_order_id req in
      if cxl_symbol req = default_symbol
      then (case xc_directory X oid of None \<Rightarrow> X | Some s \<Rightarrow> withdraw_at oid s X)
      else withdraw_at oid (cxl_symbol req) X)"

definition spec_amend :: "ReplaceRequest \<Rightarrow> exchange \<Rightarrow> quote list \<times> exchange" where
  "spec_amend req X =
     (case xc_books X (rep_symbol req) of
        None \<Rightarrow> ([], X)
      | Some Q \<Rightarrow> (case spec_replace req Q of (fs, Q') \<Rightarrow>
          (fs, X\<lparr>xc_books := (xc_books X)(rep_symbol req \<mapsto> Q')\<rparr>)))"

fun spec_command :: "command \<Rightarrow> exchange \<Rightarrow> quote list \<times> exchange" where
  "spec_command (Place order) X = spec_place order X"
| "spec_command (Withdraw req) X = ([], spec_withdraw req X)"
| "spec_command (Amend req) X = spec_amend req X"

fun spec_commands :: "command list \<Rightarrow> exchange \<Rightarrow> quote list \<times> exchange" where
  "spec_commands [] X = ([], X)"
| "spec_commands (c # cs) X =
     (case spec_command c X of (fs, X') \<Rightarrow> case spec_commands cs X' of (gs, X'') \<Rightarrow> (fs @ gs, X''))"

section \<open>The engine as an exchange\<close>

definition exchange_of :: "MatchingEngine \<Rightarrow> exchange" where
  "exchange_of e = \<lparr>xc_books = (\<lambda>s. map_option quotes (get_book s e)), xc_directory = order_symbol_index e,
     xc_risk = risk_engine e\<rparr>"

fun out_fills :: "EngineOutput \<Rightarrow> quote list" where
  "out_fills (TradeOut t) = [trade_quote t]"
| "out_fills out = []"

definition fills_in :: "EngineOutput list \<Rightarrow> quote list" where
  "fills_in outs = concat (map out_fills outs)"

text \<open>The commands of an engine, each with its two readings of the clock; \<open>None\<close> is a dangling read.\<close>

fun run_command :: "command \<Rightarrow> Timestamp \<Rightarrow> Timestamp \<Rightarrow> MatchingEngine \<Rightarrow> MatchingEngine option" where
  "run_command (Place order) ts ts' e = Some (snd (process_new_order order ts ts' e))"
| "run_command (Withdraw req) ts ts' e = map_option snd (process_cancel req ts ts' e)"
| "run_command (Amend req) ts ts' e = map_option snd (process_replace req ts ts' e)"

fun run_commands :: "(command \<times> Timestamp \<times> Timestamp) list \<Rightarrow> MatchingEngine \<Rightarrow> MatchingEngine option" where
  "run_commands [] e = Some e"
| "run_commands ((c, ts, ts') # cs) e = Option.bind (run_command c ts ts' e) (run_commands cs)"

text \<open>Quantities are 64-bit; for a fill-or-kill order so is the open quantity of each side of its book.\<close>

fun command_ok :: "command \<Rightarrow> MatchingEngine \<Rightarrow> bool" where
  "command_ok (Place order) e \<longleftrightarrow> in_i64 (ord_quantity order) \<and>
     (ord_tif order = FOK \<longrightarrow> (case get_book (ord_symbol order) e of None \<Rightarrow> True | Some b \<Rightarrow> open_fits b))"
| "command_ok (Withdraw req) e \<longleftrightarrow> True"
| "command_ok (Amend req) e \<longleftrightarrow> in_i64 (rep_new_qty req)"

fun commands_ok :: "(command \<times> Timestamp \<times> Timestamp) list \<Rightarrow> MatchingEngine \<Rightarrow> bool" where
  "commands_ok [] e \<longleftrightarrow> True"
| "commands_ok ((c, ts, ts') # cs) e \<longleftrightarrow> command_ok c e \<and>
     (case run_command c ts ts' e of None \<Rightarrow> True | Some e' \<Rightarrow> commands_ok cs e')"

lemma open_fits_sides [code]:
  "open_fits b \<longleftrightarrow> in_i64 (open_total (entries Buy b)) \<and> in_i64 (open_total (entries Sell b))"
  unfolding open_fits_def by (metis (full_types) Side.exhaust)

lemma fills_in_append [simp]: "fills_in (xs @ ys) = fills_in xs @ fills_in ys"
  by (simp add: fills_in_def)

lemma fills_in_simps [simp]:
  "fills_in [] = []" "fills_in (out # outs) = out_fills out @ fills_in outs"
  by (simp_all add: fills_in_def)

lemma fills_in_trades [simp]: "fills_in (map TradeOut trs) = map trade_quote trs"
  by (induction trs) simp_all

lemma quotes_log [simp]: "quotes (b\<lparr>bk_log := l\<rparr>) = quotes b"
proof (rule quotes_levels)
  show "levels_of sd (b\<lparr>bk_log := l\<rparr>) = levels_of sd b" for sd by (cases sd) simp_all
qed

section \<open>Reports in terms of the abstract book\<close>

lemma filled_qty_trades: "filled_qty (map trade_quote trs) = sum_list (map trd_qty trs)"
  by (simp add: filled_qty_def comp_def trade_quote_def)

lemma spec_left_quotes:
  assumes inv: "book_inv b" and q: "in_i64 (ord_quantity order)" and fits: "ord_tif order = FOK \<longrightarrow> open_fits b"
    and m: "match_incoming order ts b = (res, b1)"
  shows "spec_left order (quotes b) = res_remaining_qty res"
proof -
  have killed: "spec_killed order (quotes b) \<longleftrightarrow> fok_fails order b"
  proof (cases "ord_tif order = FOK")
    case True
    with fits show ?thesis by (intro spec_killed_iff [OF inv]) (simp add: open_fits_def)
  qed (simp add: spec_killed_def fok_fails_def)
  show ?thesis
  proof (cases "fok_fails order b")
    case True
    with m have "res_remaining_qty res = ord_quantity order" by (auto simp: match_incoming_killed)
    with True show ?thesis by (simp add: spec_left_def killed)
  next
    case False
    with quotes_match(1) [OF inv q False m] show ?thesis by (simp add: spec_left_def killed)
  qed
qed

lemma add_order_listed:
  assumes inv: "book_inv b" and q: "in_i64 (ord_quantity order)" and fits: "ord_tif order = FOK \<longrightarrow> open_fits b"
  shows "rpt_status (fst (add_order order ts b)) \<noteq> Rejected \<and> rpt_status (fst (add_order order ts b)) \<noteq> Filled \<longleftrightarrow>
    spec_listed order (quotes b)"
proof (cases "order_index b (ord_id order)")
  case (Some loc)
  then show ?thesis by (simp add: spec_listed_def spec_ids_quotes [OF inv] add_order_def Let_def)
next
  case None
  obtain res b1 where m: "match_incoming order ts b = (res, b1)" by fastforce
  note left = spec_left_quotes [OF inv q fits m]
  show ?thesis
    by (cases "ord_tif order"; cases "ord_type order")
      (simp_all add: spec_listed_def spec_ids_quotes [OF inv] None left add_order_def Let_def m)
qed

lemma add_order_booked:
  assumes inv: "book_inv b" and q: "0 < ord_quantity order" "in_i64 (ord_quantity order)"
    and fits: "ord_tif order = FOK \<longrightarrow> open_fits b"
  shows "rpt_filled_qty (fst (add_order order ts b)) = filled_qty (map trade_quote (trades_of order ts b))"
proof (cases "ord_tif order = FOK")
  case False
  with add_order_filled [OF inv _ q(2) False, of ts] q show ?thesis by (simp add: filled_qty_trades)
next
  case fok: True
  let ?opp = "opposite (ord_side order)"
  have tot: "in_i64 (open_total (entries ?opp b))" using fits fok by (simp add: open_fits_def)
  note fails = inv_fok_fails [OF inv fok tot]
  show ?thesis
  proof (cases "order_index b (ord_id order) \<noteq> None \<or> fok_fails order b")
    case True
    then show ?thesis
      using fok q by (cases "ord_type order") (auto simp: filled_qty_trades trades_of_def add_order_def Let_def
        default_report_def match_incoming_killed i64_def)
  next
    case False
    have "\<forall>(p, h, r) \<in> set (eligible order (entries ?opp b)). l3_ok r"
      using inv_l3_ok [OF inv, of ?opp] eligible_subset by blast
    from fill_total_enough [OF this, of "ord_quantity order"] False fails q
    have total: "fill_total (order_fills order b) = ord_quantity order" by (simp add: order_fills_def)
    obtain res b1 where res: "match_incoming order ts b = (res, b1)" by fastforce
    have "res_remaining_qty res = 0" "res_trades res = order_trades order ts b"
      using match_trades [OF inv q(2), of ts] False total by (simp_all add: res)
    with False total q show ?thesis
      by (simp add: filled_qty_trades trades_of_def add_order_def Let_def res i64_id order_trades_def sum_trades_for)
  qed
qed

section \<open>Every command is a command of the exchange\<close>

lemma on_fill_any_price: "on_fill tid s sd n px = on_fill tid s sd n px'"
  by (simp add: fun_eq_iff on_fill_def)

lemma exchange_eq:
  "exchange_of e' = X \<longleftrightarrow> (\<forall>s. map_option quotes (get_book s e') = xc_books X s) \<and>
    order_symbol_index e' = xc_directory X \<and> risk_engine e' = xc_risk X"
  by (cases X) (auto simp: exchange_of_def fun_eq_iff)

lemma exchange_fields [simp]:
  "xc_books (exchange_of e) s = map_option quotes (get_book s e)" "xc_directory (exchange_of e) = order_symbol_index e"
  "xc_risk (exchange_of e) = risk_engine e"
  by (simp_all add: exchange_of_def)

lemma gate_spec:
  assumes "get_book (ord_symbol order) e = Some b"
  shows "gate order e = NoReject \<longleftrightarrow> fst (spec_gate order (risk_engine e))"
  using assms by (simp add: gate_def spec_gate_def check_order_verdict split: option.split)

lemma gate_positive:
  "gate order e = NoReject \<Longrightarrow> risk_engine e = Some risk \<Longrightarrow> 0 < ord_quantity order"
  by (auto simp: gate_def verdict_def split: if_splits)

lemma shut_risk:
  assumes "get_book (ord_symbol order) e = Some b" "gate order e \<noteq> NoReject"
  shows "risk_engine (snd (process_new_order order ts ts' e)) = snd (spec_gate order (risk_engine e))"
    and "fills_in (me_log (snd (process_new_order order ts ts' e))) = fills_in (me_log e)"
proof -
  obtain st where st: "me_symbols e (ord_symbol order) = Some st" using assms(1) by (auto simp: get_book_def)
  have "fst (risk_check order e) \<noteq> NoReject"
    using assms by (simp add: gate_def risk_check_verdict split: if_splits)
  then have "snd (process_new_order order ts ts' e) = snd (reject_order order (fst (risk_check order e)) ts
      (snd (risk_check order (e\<lparr>orders_processed := orders_processed e + 1\<rparr>))))"
    by (simp add: process_new_order_def st case_prod_unfold Let_def)
  then show "risk_engine (snd (process_new_order order ts ts' e)) = snd (spec_gate order (risk_engine e))"
    and "fills_in (me_log (snd (process_new_order order ts ts' e))) = fills_in (me_log e)"
    by (simp_all add: case_prod_unfold Let_def reject_order_def emit_log risk_check_def spec_gate_def split: option.split)
qed

lemma unknown_symbol_order:
  assumes "get_book (ord_symbol order) e = None"
  shows "exchange_of (snd (process_new_order order ts ts' e)) = exchange_of e"
    and "fills_in (me_log (snd (process_new_order order ts ts' e))) = fills_in (me_log e)"
  using assms
  by (simp_all add: exchange_eq process_new_order_def get_book_None reject_order_def emit_log Let_def)

lemma place_refines:
  assumes reach: "engine_reach e" and ok: "command_ok (Place order) e" and hook: "me_trade_cb e"
  shows "exchange_of (snd (process_new_order order ts ts' e)) = snd (spec_place order (exchange_of e)) \<and>
    fills_in (me_log (snd (process_new_order order ts ts' e))) =
      fills_in (me_log e) @ fst (spec_place order (exchange_of e))"
proof (cases "get_book (ord_symbol order) e")
  case None
  from unknown_symbol_order [OF None] show ?thesis by (simp add: spec_place_def None)
next
  case b: (Some b)
  let ?s = "ord_symbol order" and ?e' = "snd (process_new_order order ts ts' e)"
  note book = engine_book [OF reach b]
  have q: "in_i64 (ord_quantity order)" and fits: "ord_tif order = FOK \<longrightarrow> open_fits b" using ok by (simp_all add: b)
  obtain admitted r where g: "spec_gate order (risk_engine e) = (admitted, r)" by fastforce
  show ?thesis
  proof (cases "gate order e = NoReject")
    case False
    with gate_spec [OF b] g have no: "\<not> admitted" by simp
    have "exchange_of ?e' = (exchange_of e)\<lparr>xc_risk := r\<rparr>"
      using gate_shut(2,3) [OF False, where ts = ts and ts' = ts'] shut_risk(1) [OF b False, of ts ts'] by (simp add: exchange_eq g)
    with shut_risk(2) [OF b False, of ts ts'] show ?thesis by (simp add: spec_place_def b g no)
  next
    case True
    with gate_spec [OF b] g have yes: "admitted" by simp
    have risk: "\<forall>risk. risk_engine e = Some risk \<longrightarrow> fst (check_order order risk) = NoReject"
      using True by (auto simp: gate_def b check_order_verdict)
    let ?fs = "map trade_quote (trades_of order ts b)"
    have add: "spec_add order (quotes b) = (?fs, quotes (snd (add_order order ts b)))"
      by (rule quotes_add [OF book(1) q fits])
    define rpt where "rpt = fst (process_new_order order ts ts' e)"
    then have step: "process_new_order order ts ts' e = (rpt, ?e')" by simp
    note after = gate_open_book [OF True b, where ts = ts and ts' = ts']
    have rpt: "rpt = fst (add_order order ts b)" by (simp add: rpt_def after(1))
    have fills: "fills_in (me_log ?e') = fills_in (me_log e) @ ?fs"
      using hook by (simp add: new_order_log(1) [OF reach q b risk step])
    have "risk_engine ?e' = map_option (spec_booked order ?fs) r"
    proof (cases "risk_engine e")
      case (Some risk)
      have "0 < ord_quantity order" by (rule gate_positive [OF True Some])
      note f = add_order_booked [OF book(1) this q fits, of ts, folded rpt]
      have "r = Some (snd (check_order order risk))" using g by (auto simp: spec_gate_def Some)
      then show ?thesis
        using gate_open_log(3) [OF True b rpt_def refl]
          on_fill_any_price [of "ord_trader_id order" ?s "ord_side order" "filled_qty ?fs" "rpt_last_price rpt" 0]
        by (simp add: Some spec_booked_def f)
    qed (use g gate_open_log(3) [OF True b refl refl, of ts ts'] in \<open>auto simp: spec_gate_def\<close>)
    then have "exchange_of ?e' = \<lparr>xc_books = (xc_books (exchange_of e))(?s \<mapsto> quotes (snd (add_order order ts b))),
        xc_directory = (if spec_listed order (quotes b) then (order_symbol_index e)(ord_id order \<mapsto> ?s) else order_symbol_index e),
        xc_risk = map_option (spec_booked order ?fs) r\<rparr>"
      using after(2,3) add_order_listed [OF book(1) q fits, of ts] by (simp add: exchange_eq Let_def)
    with fills show ?thesis by (simp add: spec_place_def b g yes add)
  qed
qed

lemma publish_fills [simp]: "fills_in (me_log (publish_market_data s ts e)) = fills_in (me_log e)"
  by (simp add: publish_market_data_def emit_log Let_def split: option.split)

lemma report_fills [simp]: "fills_in (me_log (emit c (ExecutionOut rpt) e)) = fills_in (me_log e)"
  by (simp add: emit_log)

text \<open>The fills among what a book recorded during a command.\<close>

fun event_fills :: "BookEvent \<Rightarrow> quote list" where
  "event_fills (TradeEvent t) = [trade_quote t]"
| "event_fills (TobEvent t) = []"

lemma settle_fills:
  assumes "me_trade_cb e"
  shows "fills_in (me_log (settle s st book e)) = fills_in (me_log e) @ concat (map event_fills (bk_log book))"
proof -
  have "fills_in (output_of e ev) = event_fills ev" for ev using assms by (cases ev) simp_all
  then have "fills_in (concat (map (output_of e) evs)) = concat (map event_fills evs)" for evs
    by (induction evs) simp_all
  then show ?thesis by (simp add: settle_log)
qed

lemma trade_event_fills [simp]: "concat (map (event_fills \<circ> TradeEvent) trs) = map trade_quote trs"
  by (induction trs) simp_all

lemma withdraw_on:
  assumes reach: "engine_reach e" and hook: "me_trade_cb e"
  shows "\<exists>rpt e'. cancel_on req s ts ts' e = Some (rpt, e') \<and>
    exchange_of e' = withdraw_at (cxl_order_id req) s (exchange_of e) \<and> fills_in (me_log e') = fills_in (me_log e)"
proof (cases "get_book s e")
  case None
  moreover from None have "me_symbols e s = None" by (simp add: get_book_def)
  ultimately show ?thesis by (simp add: cancel_on_def withdraw_at_def)
next
  case b: (Some b)
  let ?oid = "cxl_order_id req"
  note book = engine_book [OF reach b]
  obtain rpt b' where c: "cancel_order ?oid ts b = Some (rpt, b')" using cancel_order_defined [OF book(1)] by blast
  from b obtain st where st: "me_symbols e s = Some st" "st_book st = b" by (auto simp: get_book_def)
  have status: "rpt_status rpt = Canceled \<longleftrightarrow> ?oid \<in> spec_ids (quotes b)"
    using cancel_order_status(1) [OF book(1) c] by (simp add: spec_ids_quotes [OF book(1)] live_order_def)
  have "concat (map event_fills (bk_log b')) = []" using cancel_order_log(1) [OF book(1) c] book(2) by simp
  moreover have "quotes b' = spec_cancel ?oid (quotes b)" by (rule quotes_cancel [OF book(1) c])
  ultimately show ?thesis
    using c status by (simp add: cancel_on_def st withdraw_at_def b exchange_eq settle_fills [OF hook] Let_def)
qed

lemma withdraw_refines:
  assumes "engine_reach e" and "me_trade_cb e"
  shows "\<exists>rpt e'. process_cancel req ts ts' e = Some (rpt, e') \<and>
    exchange_of e' = spec_withdraw req (exchange_of e) \<and> fills_in (me_log e') = fills_in (me_log e)"
  using withdraw_on [OF assms, of req _ ts ts']
  by (cases "cxl_symbol req = default_symbol"; cases "order_symbol_index e (cxl_order_id req)")
    (simp_all add: process_cancel_def spec_withdraw_def Let_def)

lemma replace_fills:
  assumes inv: "book_inv b" and q: "in_i64 (rep_new_qty req)" and on: "trade_cb b" "bk_log b = []"
    and r: "replace_order req ts b = Some (rpt, b')"
  shows "concat (map event_fills (bk_log b')) = fst (spec_replace req (quotes b))"
proof -
  let ?oid = "rep_order_id req"
  obtain crpt b1 where c: "cancel_order ?oid ts b = Some (crpt, b1)" using cancel_order_defined [OF inv] by blast
  note inv1 = cancel_order_inv [OF inv c] and Q1 = quotes_cancel [OF inv c] and log1 = cancel_order_log [OF inv c]
  show ?thesis
  proof (cases "order_index b ?oid")
    case None
    then have "b' = b" using r by (simp add: replace_order_def cancel_order_unknown)
    then show ?thesis by (simp add: on spec_replace_def spec_ids_quotes [OF inv] None)
  next
    case (Some loc)
    from inv_index_deref [OF inv Some] obtain l3 where l3: "deref b loc = Some l3" "l3_side l3 = loc_side loc"
      by (auto simp: entry_ok_def)
    with c have crpt: "rpt_status crpt = Canceled" "rpt_side crpt = loc_side loc"
      by (auto simp: cancel_order_known [OF Some l3(1)])
    let ?o = "replacement req (loc_side loc) ts"
    have b': "b' = snd (add_order ?o ts b1)" using r by (simp add: replace_order_def c crpt prod_eq_iff)
    have o: "in_i64 (ord_quantity ?o)" "ord_tif ?o \<noteq> FOK" using q by (simp_all add: replacement_def)
    have "concat (map event_fills (bk_log b')) = map trade_quote (trades_of ?o ts b1)"
      using add_order_log(1) [OF inv1 o(1), of ts] log1 on by (simp add: b')
    also have "\<dots> = fst (spec_add ?o (quotes b1))" using quotes_add [OF inv1 o(1), of ts] o(2) by simp
    also have "\<dots> = fst (spec_replace req (quotes b))"
      using spec_add_fields [of "default_order\<lparr>ord_id := ?oid, ord_side := loc_side loc, ord_type := Limit, ord_tif := Day,
          ord_price := rep_new_price req, ord_quantity := rep_new_qty req\<rparr>" ?o "quotes b1"]
      by (simp add: spec_replace_def spec_ids_quotes [OF inv] Some spec_side_index [OF inv Some] Q1 replacement_def Let_def)
    finally show ?thesis .
  qed
qed

lemma amend_refines:
  assumes reach: "engine_reach e" and hook: "me_trade_cb e" and q: "in_i64 (rep_new_qty req)"
  shows "\<exists>rpt e'. process_replace req ts ts' e = Some (rpt, e') \<and>
    exchange_of e' = snd (spec_amend req (exchange_of e)) \<and>
    fills_in (me_log e') = fills_in (me_log e) @ fst (spec_amend req (exchange_of e))"
proof (cases "get_book (rep_symbol req) e")
  case None
  moreover from None have "me_symbols e (rep_symbol req) = None" by (simp add: get_book_def)
  ultimately show ?thesis by (simp add: process_replace_def spec_amend_def)
next
  case (Some b)
  note book = engine_book [OF reach Some]
  obtain rpt b' where r: "replace_order req ts b = Some (rpt, b')" using replace_order_defined [OF book(1)] by blast
  from Some obtain st where st: "me_symbols e (rep_symbol req) = Some st" "st_book st = b" by (auto simp: get_book_def)
  show ?thesis
    using r quotes_replace [OF book(1) q r] replace_fills [OF book(1) q book(3,2) r]
    by (simp add: process_replace_def st spec_amend_def Some exchange_eq settle_fills [OF hook] case_prod_unfold Let_def)
qed

lemma trade_hook_frame [simp]:
  "me_trade_cb (risk_fill order rpt e) = me_trade_cb e" "me_trade_cb (snd (risk_check order e)) = me_trade_cb e"
  "me_trade_cb (publish_market_data s ts e) = me_trade_cb e"
  by (simp_all add: risk_fill_def risk_check_def publish_market_data_def Let_def split: option.split prod.split)

lemma command_refines:
  assumes reach: "engine_reach e" and ok: "command_ok c e" and hook: "me_trade_cb e"
  shows "\<exists>e'. run_command c ts ts' e = Some e' \<and> engine_reach e' \<and> me_trade_cb e' \<and>
    exchange_of e' = snd (spec_command c (exchange_of e)) \<and>
    fills_in (me_log e') = fills_in (me_log e) @ fst (spec_command c (exchange_of e))"
proof (cases c)
  case (Place order)
  with ok have "in_i64 (ord_quantity order)" by simp
  from engine_reach.step [OF reach engine_step.new_order [OF this]]
  have "engine_reach (snd (process_new_order order ts ts' e))" .
  moreover have "me_trade_cb (snd (process_new_order order ts ts' e))"
    using hook by (simp add: process_new_order_def case_prod_unfold Let_def reject_order_def split: option.split)
  ultimately show ?thesis using place_refines [OF reach ok [unfolded Place] hook, of ts ts'] by (simp add: Place)
next
  case (Withdraw req)
  from withdraw_refines [OF reach hook, of req ts ts'] obtain rpt e' where
    e': "process_cancel req ts ts' e = Some (rpt, e')" "exchange_of e' = spec_withdraw req (exchange_of e)"
      "fills_in (me_log e') = fills_in (me_log e)" by blast
  from engine_reach.step [OF reach engine_step.cancel [OF e'(1)]] have "engine_reach e'" .
  moreover have "me_trade_cb e'"
    using hook e'(1) by (auto simp: process_cancel_def cancel_on_def Let_def split: option.splits if_splits)
  ultimately show ?thesis using e' by (simp add: Withdraw)
next
  case (Amend req)
  with ok have q: "in_i64 (rep_new_qty req)" by simp
  from amend_refines [OF reach hook q, of ts ts'] obtain rpt e' where
    e': "process_replace req ts ts' e = Some (rpt, e')" "exchange_of e' = snd (spec_amend req (exchange_of e))"
      "fills_in (me_log e') = fills_in (me_log e) @ fst (spec_amend req (exchange_of e))" by blast
  from engine_reach.step [OF reach engine_step.replace [OF q e'(1)]] have "engine_reach e'" .
  moreover have "me_trade_cb e'"
    using hook e'(1) by (auto simp: process_replace_def Let_def split: option.splits)
  ultimately show ?thesis using e' by (simp add: Amend)
qed

lemma command_log: "run_command c ts ts' e = Some e' \<Longrightarrow> \<exists>outs. me_log e' = me_log e @ outs"
  by (cases c)
    (auto simp: process_new_order_def process_cancel_def process_replace_def cancel_on_def case_prod_unfold Let_def
      reject_order_def emit_log settle_log publish_market_data_def split: option.splits if_splits)

text \<open>C3. The matching engine is the exchange it promises to be.  From any reachable engine, any
  sequence of new orders, cancels and replacements, at any readings of the clock, runs to its
  end without a dangling read; forgetting everything but the quotes of the books, the routing
  directory and the risk engine, the result is that of the abstract exchange; and the trades
  handed to the trade callback are exactly its fills, in the same order.\<close>

theorem engine_refines_exchange:
  assumes "engine_reach e" and "commands_ok cs e" and "me_trade_cb e"
  shows "\<exists>e'. run_commands cs e = Some e' \<and>
    (fills_in (drop (length (me_log e)) (me_log e')), exchange_of e') = spec_commands (map fst cs) (exchange_of e)"
proof -
  have "\<exists>e'. run_commands cs e = Some e' \<and> exchange_of e' = snd (spec_commands (map fst cs) (exchange_of e)) \<and>
      (\<exists>outs. me_log e' = me_log e @ outs) \<and>
      fills_in (me_log e') = fills_in (me_log e) @ fst (spec_commands (map fst cs) (exchange_of e))"
    using assms
  proof (induction cs arbitrary: e)
    case (Cons x cs)
    obtain c ts ts' where x: "x = (c, ts, ts')" by (cases x)
    with Cons.prems have ok: "command_ok c e" by simp
    from command_refines [OF Cons.prems(1) ok Cons.prems(3), of ts ts'] obtain e1 where
      e1: "run_command c ts ts' e = Some e1" "engine_reach e1" "me_trade_cb e1"
        "exchange_of e1 = snd (spec_command c (exchange_of e))"
        "fills_in (me_log e1) = fills_in (me_log e) @ fst (spec_command c (exchange_of e))" by blast
    have "commands_ok cs e1" using Cons.prems(2) by (simp add: x e1(1))
    from Cons.IH [OF e1(2) this e1(3)] command_log [OF e1(1)] e1 show ?case
      by (auto simp: x case_prod_unfold)
  qed simp
  then show ?thesis by (auto simp: prod_eq_iff)
qed

definition demo_commands :: "(command \<times> Timestamp \<times> Timestamp) list" where
  "demo_commands = [(Place (eng_order 2 9 Buy 101 4), 5, 6), (Withdraw (cancel_by_id 1), 7, 8),
     (Place (eng_order 3 9 Buy 101 4), 9, 10)]"

theorem engine_refines_exchange_witness:
  "\<exists>e'. run_commands demo_commands demo_me = Some e' \<and>
    fills_in (drop (length (me_log demo_me)) (me_log e')) = [(101, 1, 4)] \<and>
    map_option (\<lambda>Q. (Q Buy, Q Sell)) (xc_books (exchange_of e') demo_symbol) = Some ([(101, 3, 4)], [])"
proof -
  have ok: "commands_ok demo_commands demo_me" "me_trade_cb demo_me" by code_simp+
  have "fst (spec_commands (map fst demo_commands) (exchange_of demo_me)) = [(101, 1, 4)]"
    "map_option (\<lambda>Q. (Q Buy, Q Sell)) (xc_books (snd (spec_commands (map fst demo_commands) (exchange_of demo_me))) demo_symbol)
      = Some ([(101, 3, 4)], [])" by code_simp+
  moreover from engine_refines_exchange [OF demo_me_reach ok] obtain e' where
    "run_commands demo_commands demo_me = Some e'"
    "fills_in (drop (length (me_log demo_me)) (me_log e')) = fst (spec_commands (map fst demo_commands) (exchange_of demo_me))"
    "exchange_of e' = snd (spec_commands (map fst demo_commands) (exchange_of demo_me))"
    unfolding prod_eq_iff by auto
  ultimately show ?thesis by (intro exI [of _ e']) (simp only: simp_thms)
qed

end
