(* ===== verification/Exchange_Views.thy ===== *)
theory Exchange_Views
  imports Exchange_Spec
begin

text \<open>
  What the engine shows of its books: the depth snapshot of the \<^verbatim>\<open>L2Aggregator\<close> and the top of book
  of the \<^verbatim>\<open>L1Feed\<close>, which each command updates.  Both are functions of the quotes of the abstract
  exchange: the aggregates of the best prices, and the best of them on each side.
\<close>

section \<open>Aggregates of quotes\<close>

definition spec_level :: "quote list \<Rightarrow> Price \<Rightarrow> BookLevel" where
  "spec_level qs p = (let here = filter (\<lambda>x. fst x = p) qs in
     \<lparr>lvl_price = p, lvl_qty = i64 (filled_qty here), lvl_order_count = word_of_nat (length here)\<rparr>)"

definition spec_depth :: "quote list \<Rightarrow> BookLevel list" where
  "spec_depth qs = map (spec_level qs) (remdups_adj (map fst qs))"

lemma remdups_adj_flat:
  "distinct (map fst L) \<Longrightarrow> \<forall>(p, q) \<in> set L. q \<noteq> [] \<Longrightarrow> remdups_adj (map fst (lv_flat L)) = map fst L"
proof (induction L)
  case (Cons l L)
  obtain p x q where l: "l = (p, x # q)" using Cons.prems(2) by (cases l; cases "snd l") auto
  have p: "p \<notin> fst ` set (lv_flat L)" using Cons.prems(1) by (force simp: l lv_flat_def)
  have "remdups_adj (p # replicate n p @ map fst (lv_flat L)) = p # remdups_adj (map fst (lv_flat L))" for n
  proof (induction n)
    case 0
    show ?case using p by (cases "lv_flat L") auto
  qed simp
  moreover have "map fst (lv_flat (l # L)) = p # replicate (length q) p @ map fst (lv_flat L)"
    by (simp add: l comp_def map_replicate_const)
  ultimately show ?case using Cons by (simp add: l)
qed simp

lemma spec_depth_quotes:
  assumes inv: "book_inv b"
  shows "spec_depth (quotes b sd) = map book_level (levels_of sd b)"
proof -
  note lv = inv_levels [OF inv, of sd]
  have "map fst (quotes b sd) = map fst (lv_flat (levels_of sd b))"
    by (simp add: quotes_def entries_def comp_def quote_of_def case_prod_unfold)
  then have prices: "remdups_adj (map fst (quotes b sd)) = map fst (levels_of sd b)"
    using remdups_adj_flat [OF side_order.keys_distinct [OF lv]] lv by (simp add: lv_ok_def)
  have "spec_level (quotes b sd) p = aggregate sd b p" for p
  proof -
    have "filter (\<lambda>x. fst x = p) (quotes b sd) = map quote_of (at_price sd p b)"
      by (simp add: quotes_def at_price_def filter_map comp_def quote_of_def case_prod_unfold)
    moreover have "map (snd \<circ> (snd \<circ> quote_of)) (at_price sd p b) = map (\<lambda>(p, h, r). l3_visible_qty r) (at_price sd p b)"
      using inv_entry [OF inv, of _ sd]
      by (intro map_cong [OF refl]) (auto simp: at_price_def quote_of_def entry_ok_def open_qty_def)
    ultimately show ?thesis by (simp add: spec_level_def aggregate_def filled_qty_def comp_assoc del: map_eq_conv)
  qed
  then show ?thesis
    using book_level_aggregate [OF inv, of _ _ sd] by (auto simp: spec_depth_def prices)
qed

lemma quotes_empty: "book_inv b \<Longrightarrow> quotes b sd = [] \<longleftrightarrow> levels_of sd b = []"
  using inv_levels [of b sd] by (cases "levels_of sd b") (auto simp: quotes_def entries_def lv_ok_def)

section \<open>What is shown of a symbol\<close>

definition views :: "MatchingEngine \<Rightarrow> Symbol \<Rightarrow> (L3OrderBook \<times> nat \<times> TopOfBook) option" where
  "views e s = map_option (\<lambda>st. (st_book st, st_l2 st, last_tob (st_l1 st))) (me_symbols e s)"

lemma views_frame [simp]:
  "views (emit c out e) = views e" "views (risk_fill order rpt e) = views e"
  "views (snd (risk_check order e)) = views e" "views (snd (reject_order order r ts e)) = views e"
  "views (e\<lparr>order_symbol_index := i\<rparr>) = views e" "views (e\<lparr>orders_processed := n\<rparr>) = views e"
  "views (e\<lparr>cancels_processed := n\<rparr>) = views e"
  by (simp_all add: views_def fun_eq_iff emit_def risk_fill_def risk_check_def reject_order_def Let_def
      split: option.split prod.split)

lemma views_callback [simp]: "views (book_callback ev e) = views e"
  by (cases ev) (auto simp: views_def fun_eq_iff emit_def record_trade_def Let_def split: option.split)

lemma views_fold [simp]: "views (fold book_callback evs e) = views e"
  by (induction evs arbitrary: e) simp_all

lemma views_settle [simp]:
  "views (settle s st book e) = (views e)(s \<mapsto> (book\<lparr>bk_log := []\<rparr>, st_l2 st, last_tob (st_l1 st)))"
  by (simp add: settle_def) (simp add: views_def fun_eq_iff)

lemma views_publish:
  "views (publish_market_data s ts e) =
     (views e)(s := map_option (\<lambda>(b, d, t). (b, d, top_of_book ts b)) (views e s))"
  by (auto simp: publish_market_data_def views_def fun_eq_iff emit_def l1_update_def Let_def split: option.split)

text \<open>The feed shows the top of the book at the last publication, or nothing of a book that was
  never published and is empty; the depth is the default one.\<close>

definition shown :: "L3OrderBook \<Rightarrow> TopOfBook \<Rightarrow> bool" where
  "shown b t \<longleftrightarrow> (\<exists>ts. t = top_of_book ts b) \<or> (\<forall>sd. levels_of sd b = []) \<and> \<not> tob_valid t"

definition views_ok :: "MatchingEngine \<Rightarrow> bool" where
  "views_ok e \<longleftrightarrow> (\<forall>s b d t. views e s = Some (b, d, t) \<longrightarrow> d = new_l2 DEFAULT_L2_DEPTH \<and> shown b t)"

lemma views_okD: "views_ok e \<Longrightarrow> views e s = Some (b, d, t) \<Longrightarrow> d = new_l2 DEFAULT_L2_DEPTH \<and> shown b t"
  unfolding views_ok_def by blast

lemma views_ok_cong: "views e' = views e \<Longrightarrow> views_ok e' = views_ok e"
  by (simp add: views_ok_def)

lemma views_ok_publish:
  assumes ok: "views_ok e" and st: "me_symbols e s = Some st"
    and e': "views e' = (views e)(s \<mapsto> (b, st_l2 st, t))"
  shows "views_ok (publish_market_data s ts e')"
proof -
  from st have "views e s = Some (st_book st, st_l2 st, last_tob (st_l1 st))" by (simp add: views_def)
  from views_okD [OF ok this] have d: "st_l2 st = new_l2 DEFAULT_L2_DEPTH" ..
  show ?thesis
    unfolding views_ok_def views_publish e' using views_okD [OF ok] by (auto simp: d shown_def split: if_splits)
qed

lemma views_ok_new_order:
  assumes ok: "views_ok e"
  shows "views_ok (snd (process_new_order order ts ts' e))"
proof (cases "me_symbols e (ord_symbol order)")
  case st: (Some st)
  show ?thesis
  proof (cases "fst (risk_check order (e\<lparr>orders_processed := orders_processed e + 1\<rparr>)) = NoReject")
    case True
    then show ?thesis
      by (simp add: process_new_order_def Let_def case_prod_unfold st)
        (intro conjI impI; rule views_ok_publish [OF ok st], simp)
  qed (simp add: process_new_order_def Let_def case_prod_unfold st ok views_ok_cong [of _ e])
qed (simp add: process_new_order_def ok views_ok_cong [of _ e])

lemma views_ok_cancel_on:
  "views_ok e \<Longrightarrow> cancel_on req s ts ts' e = Some (rpt, e') \<Longrightarrow> views_ok e'"
  by (auto simp: cancel_on_def Let_def split: option.splits if_splits intro!: views_ok_publish)

lemma views_ok_replace:
  "views_ok e \<Longrightarrow> process_replace req ts ts' e = Some (rpt, e') \<Longrightarrow> views_ok e'"
  by (auto simp: process_replace_def Let_def split: option.splits intro!: views_ok_publish)

lemma views_ok_symbol:
  assumes ok: "views_ok e"
  shows "views_ok (add_symbol any_bid any_ask s e)"
proof -
  have "shown (on_top_of_book (on_trade (new_book s))) (default_tob\<lparr>tob_best_bid := any_bid, tob_best_ask := any_ask\<rparr>)"
    unfolding shown_def by (intro disjI2 conjI allI, rename_tac sd, case_tac sd)
      (simp_all add: on_top_of_book_def on_trade_def new_book_def default_tob_def)
  with views_okD [OF ok] show ?thesis
    by (auto simp: views_ok_def views_def add_symbol_def new_l1_def split: if_splits)
qed

lemma views_ok_step: "engine_step e e' \<Longrightarrow> views_ok e \<Longrightarrow> views_ok e'"
proof (induction rule: engine_step.induct)
  case (cancel req ts ts' e rpt e')
  then show ?case
    by (auto simp: process_cancel_def split: if_splits option.splits intro: views_ok_cancel_on)
next
  case (tune f e)
  then have "views (f e) = views e"
    by (auto simp: tune_def views_def fun_eq_iff me_on_execution_def me_on_trade_def me_on_l1_update_def
        me_on_l2_update_def set_risk_engine_def)
  from views_ok_cong [OF this] tune show ?case by simp
qed (simp_all add: views_ok_new_order views_ok_replace views_ok_symbol)

lemma reach_views_ok: "engine_reach e \<Longrightarrow> views_ok e"
proof (induction rule: engine_reach.induct)
  case empty
  show ?case by (simp add: views_ok_def views_def new_engine_def)
qed (blast intro: views_ok_step)

section \<open>The views of the exchange\<close>

text \<open>What fills the arrays of a snapshot: the first levels, then zeros.\<close>

definition padded :: "BookLevel list \<Rightarrow> BookLevel list" where
  "padded L = L @ replicate (MAX_DEPTH_LEVELS - length L) zero_level"

lemma snapshot_quotes:
  assumes inv: "book_inv b" and n: "n \<le> MAX_DEPTH_LEVELS"
  shows "dep_bids (snapshot n ts b) = padded (take n (spec_depth (quotes b Buy)))"
    and "dep_asks (snapshot n ts b) = padded (take n (spec_depth (quotes b Sell)))"
    and "unat (dep_bid_levels (snapshot n ts b)) = length (take n (spec_depth (quotes b Buy)))"
    and "unat (dep_ask_levels (snapshot n ts b)) = length (take n (spec_depth (quotes b Sell)))"
proof -
  have eq: "depth_of sd n b = take n (spec_depth (quotes b sd))" for sd
    by (simp add: depth_of_eq spec_depth_quotes [OF inv] take_map)
  have len: "length (take n (spec_depth (quotes b sd))) \<le> MAX_DEPTH_LEVELS" for sd using n by simp
  have copied: "copy_levels 0 (depth_of sd n b) (replicate MAX_DEPTH_LEVELS zero_level) =
      padded (take n (spec_depth (quotes b sd)))" for sd
    unfolding eq by (subst copy_levels_eq) (use len in \<open>simp_all add: padded_def\<close>)
  show "dep_bids (snapshot n ts b) = padded (take n (spec_depth (quotes b Buy)))"
    "dep_asks (snapshot n ts b) = padded (take n (spec_depth (quotes b Sell)))"
    using copied [of Buy] copied [of Sell]
    by (simp_all add: snapshot_def Let_def default_depth_def depth_of_def)
  have "unat (word_of_nat (length (depth_of sd n b)) :: u32) = length (take n (spec_depth (quotes b sd)))" for sd
    unfolding eq using len [of sd] by (simp add: unat_of_nat MAX_DEPTH_LEVELS_def)
  from this [of Buy] this [of Sell]
  show "unat (dep_bid_levels (snapshot n ts b)) = length (take n (spec_depth (quotes b Buy)))"
    "unat (dep_ask_levels (snapshot n ts b)) = length (take n (spec_depth (quotes b Sell)))"
    by (simp_all add: snapshot_def Let_def default_depth_def depth_of_def)
qed

lemma best_quotes:
  assumes inv: "book_inv b"
  shows "best_level (levels_of sd b) = (if quotes b sd = [] then None else Some (hd (spec_depth (quotes b sd))))"
  by (simp add: quotes_empty [OF inv] spec_depth_quotes [OF inv] best_level_def hd_map split: list.split)

text \<open>A top of book that shows the best of the quotes.\<close>

definition tops :: "TopOfBook \<Rightarrow> quote_book \<Rightarrow> bool" where
  "tops t Q \<longleftrightarrow> (tob_valid t \<longleftrightarrow> Q Buy \<noteq> [] \<or> Q Sell \<noteq> []) \<and>
     (Q Buy \<noteq> [] \<longrightarrow> tob_best_bid t = hd (spec_depth (Q Buy))) \<and>
     (Q Sell \<noteq> [] \<longrightarrow> tob_best_ask t = hd (spec_depth (Q Sell))) \<and>
     (Q Buy \<noteq> [] \<and> Q Sell \<noteq> [] \<longrightarrow>
       tob_spread t = i64 (lvl_price (hd (spec_depth (Q Sell))) - lvl_price (hd (spec_depth (Q Buy)))))"

lemma top_of_book_tops:
  assumes inv: "book_inv b"
  shows "tops (top_of_book ts b) (quotes b)"
proof -
  have "best_bid b = (if quotes b Buy = [] then None else Some (hd (spec_depth (quotes b Buy))))"
    "best_ask b = (if quotes b Sell = [] then None else Some (hd (spec_depth (quotes b Sell))))"
    using best_quotes [OF inv, of Buy] best_quotes [OF inv, of Sell] by (simp_all add: best_bid_def best_ask_def)
  then show ?thesis by (simp add: tops_def top_of_book_def Let_def default_tob_def)
qed

lemma shown_tops:
  assumes inv: "book_inv b" and "shown b t"
  shows "tops t (quotes b)"
  using assms(2) unfolding shown_def
proof (elim disjE exE conjE)
  assume "\<forall>sd. levels_of sd b = []"
  then have "quotes b sd = []" for sd by (simp only: quotes_empty [OF inv])
  moreover assume "\<not> tob_valid t"
  ultimately show "tops t (quotes b)" by (simp add: tops_def)
qed (simp add: top_of_book_tops [OF inv])

text \<open>C4. Market data is a function of the exchange.  In every reachable engine, for every listed
  symbol, the depth snapshot is, on each side, the aggregates of the ten best prices of the
  quotes of the abstract book (price, total quantity, number of orders), best first, padded with
  zero levels; and the top of book that the feed holds, whenever it was last published, is valid
  exactly if the book has a quote now, shows the best level of each side that has one, and the
  spread between them if both have.  The feed is never stale.\<close>

theorem market_data_of_exchange:
  assumes reach: "engine_reach e" and Q: "xc_books (exchange_of e) s = Some Q"
  shows "dep_bids (get_depth s ts e) = padded (take 10 (spec_depth (Q Buy))) \<and>
    dep_asks (get_depth s ts e) = padded (take 10 (spec_depth (Q Sell))) \<and>
    unat (dep_bid_levels (get_depth s ts e)) = min 10 (length (spec_depth (Q Buy))) \<and>
    unat (dep_ask_levels (get_depth s ts e)) = min 10 (length (spec_depth (Q Sell))) \<and>
    tops (get_top_of_book s e) Q"
proof -
  from Q obtain st where st: "me_symbols e s = Some st" "Q = quotes (st_book st)"
    by (auto simp: get_book_def)
  have book: "book_inv (st_book st)" by (rule engine_book(1) [OF reach, of s]) (simp add: get_book_def st)
  have "views e s = Some (st_book st, st_l2 st, last_tob (st_l1 st))" using st by (simp add: views_def)
  from views_okD [OF reach_views_ok [OF reach] this]
  have view: "st_l2 st = 10" "shown (st_book st) (last_tob (st_l1 st))"
    by (simp_all add: new_l2_def DEFAULT_L2_DEPTH_def MAX_L2_DEPTH_def)
  have ten: "(10 :: nat) \<le> MAX_DEPTH_LEVELS" by (simp add: MAX_DEPTH_LEVELS_def)
  show ?thesis
    using snapshot_quotes [OF book ten, of ts] shown_tops [OF book view(2)]
    by (simp add: get_depth_def get_top_of_book_def st view(1) min.commute)
qed

theorem market_data_of_exchange_witness:
  "tob_best_ask (get_top_of_book demo_symbol demo_me) = \<lparr>lvl_price = 101, lvl_qty = 10, lvl_order_count = 1\<rparr>"
proof -
  define Q where "Q = quotes (the (get_book demo_symbol demo_me))"
  have "get_book demo_symbol demo_me \<noteq> None" by code_simp
  then have "xc_books (exchange_of demo_me) demo_symbol = Some Q" by (auto simp: Q_def)
  from market_data_of_exchange [OF demo_me_reach this]
  have "tops (get_top_of_book demo_symbol demo_me) Q" by blast
  moreover have "Q Sell = [(101, 1, 10)]" unfolding Q_def by code_simp
  moreover have "hd (spec_depth [(101, 1, 10)]) = \<lparr>lvl_price = 101, lvl_qty = 10, lvl_order_count = 1\<rparr>" by code_simp
  ultimately show ?thesis by (simp add: tops_def)
qed

end
