(* ===== verification/Risk_Spec.thy ===== *)
theory Risk_Spec
  imports Risk_Properties
begin

text \<open>
  The risk engine as it would be specified: no state, only limits and a history.  Whether an order
  passes is read off the list of what happened before it, each event with the verdict it got: the
  last kill or release, the sums of the fills, and the accepted orders of age at most the window.
  \<open>risk_refines_history\<close> shows that the queues, sums and flags of \<^verbatim>\<open>risk_engine.cpp\<close> give the same
  verdicts.
\<close>

section \<open>Verdicts of a history\<close>

type_synonym history = "(RiskEvent \<times> RejectReason) list"

text \<open>What an event does to the global switch and to the switch of a trader.\<close>

fun global_switch :: "RiskEvent \<Rightarrow> bool option" where
  "global_switch KillAll = Some True"
| "global_switch UnkillAll = Some False"
| "global_switch _ = None"

fun trader_switch :: "TraderId \<Rightarrow> RiskEvent \<Rightarrow> bool option" where
  "trader_switch tid (KillTrader t) = (if t = tid then Some True else None)"
| "trader_switch tid (UnkillTrader t) = (if t = tid then Some False else None)"
| "trader_switch tid UnkillAll = Some False"
| "trader_switch tid _ = None"

text \<open>A switch is where the last event that touched it left it.\<close>

definition switched :: "(RiskEvent \<Rightarrow> bool option) \<Rightarrow> RiskEvent list \<Rightarrow> bool" where
  "switched f evs = last (False # List.map_filter f evs)"

definition spec_killed :: "TraderId \<Rightarrow> RiskEvent list \<Rightarrow> bool" where
  "spec_killed tid evs \<longleftrightarrow> switched global_switch evs \<or> switched (trader_switch tid) evs"

definition spec_in_limit :: "Quantity \<Rightarrow> Order \<Rightarrow> int \<Rightarrow> bool" where
  "spec_in_limit limit order held \<longleftrightarrow> abs64 (i64 (held + signed_qty (ord_side order) (ord_quantity order))) \<le> limit"

definition spec_recent :: "u64 \<Rightarrow> Timestamp \<Rightarrow> TraderId \<Rightarrow> history \<Rightarrow> nat" where
  "spec_recent window now tid log = length (filter (\<lambda>t. now - t \<le> window) (accepted tid log))"

definition spec_verdict :: "TraderRiskLimits \<Rightarrow> history \<Rightarrow> Order \<Rightarrow> RejectReason" where
  "spec_verdict limits log order =
     (let tid = ord_trader_id order; evs = map fst log in
      if spec_killed tid evs then KillSwitchActive
      else if ord_type order = Limit \<and> ord_price order \<le> 0 then InvalidPrice
      else if ord_quantity order \<le> 0 then InvalidQuantity
      else if \<not> (spec_in_limit (max_position_per_symbol limits) order (filled_sum tid (Some (ord_symbol order)) evs) \<and>
                 spec_in_limit (max_net_position limits) order (filled_sum tid None evs)) then PositionLimit
      else if unat (max_order_rate limits) \<le> spec_recent (window_ns limits) (ord_submit_time order) tid log then RateLimit
      else NoReject)"

fun spec_answer :: "(TraderId \<Rightarrow> TraderRiskLimits) \<Rightarrow> history \<Rightarrow> RiskEvent \<Rightarrow> RejectReason" where
  "spec_answer limits log (CheckOrder order) = spec_verdict (limits (ord_trader_id order)) log order"
| "spec_answer limits log _ = NoReject"

definition spec_history :: "(TraderId \<Rightarrow> TraderRiskLimits) \<Rightarrow> RiskEvent list \<Rightarrow> history" where
  "spec_history limits evs = foldl (\<lambda>log ev. log @ [(ev, spec_answer limits log ev)]) [] evs"

section \<open>The engine and its history\<close>

lemma risk_run_snoc:
  "fst (risk_run (evs @ [ev]) e) = fst (risk_run evs e) @ [(ev, fst (risk_step ev (snd (risk_run evs e))))]"
  "snd (risk_run (evs @ [ev]) e) = snd (risk_step ev (snd (risk_run evs e)))"
proof (induction evs arbitrary: e)
  case (Cons x evs)
  case 1
  show ?case using Cons(1) [of "snd (risk_step x e)"] by (simp add: risk_run_Cons del: risk_run.simps)
  case 2
  show ?case using Cons(2) [of "snd (risk_step x e)"] by (simp add: risk_run_Cons del: risk_run.simps)
qed (simp_all add: case_prod_unfold Let_def)

lemma risk_run_events [simp]: "map fst (fst (risk_run evs e)) = evs"
  by (induction evs arbitrary: e) (simp_all add: risk_run_Cons del: risk_run.simps(2))

lemma switched_snoc:
  "switched f (evs @ [ev]) = (case f ev of None \<Rightarrow> switched f evs | Some b \<Rightarrow> b)"
  by (simp add: switched_def map_filter_def split: option.split)

lemma switches_run:
  assumes "\<not> global_kill e" and "\<not> killed (state_of tid e)"
  shows "global_kill (snd (risk_run evs e)) = switched global_switch evs"
    and "killed (state_of tid (snd (risk_run evs e))) = switched (trader_switch tid) evs"
proof (induction evs rule: rev_induct)
  case Nil
  case 1
  show ?case using assms by (simp add: switched_def map_filter_def)
  case 2
  show ?case using assms by (simp add: switched_def map_filter_def)
next
  case (snoc ev evs)
  case 1
  show ?case using snoc(1) by (cases ev) (simp_all add: risk_run_snoc switched_snoc)
  case 2
  show ?case using snoc(2) by (cases ev) (auto simp: risk_run_snoc switched_snoc check_order_state)
qed

lemma position_ok_history:
  assumes "get_position tid (ord_symbol order) e = i64 a" and "net_position (state_of tid e) = i64 b"
  shows "position_ok tid order e \<longleftrightarrow> spec_in_limit (max_position_per_symbol (get_limits tid e)) order a \<and>
    spec_in_limit (max_net_position (get_limits tid e)) order b"
  by (simp add: position_ok_def spec_in_limit_def projected_signed assms i64_add_left)

text \<open>An engine that has seen no trader and no kill.\<close>

definition configured :: "TraderRiskLimits \<Rightarrow> (TraderId \<Rightarrow> TraderRiskLimits option) \<Rightarrow> RiskEngine" where
  "configured dl lims = new_risk_engine\<lparr>default_limits := dl, trader_limits := lims\<rparr>"

lemma verdict_of_history:
  fixes order evs dl lims
  defines "tid \<equiv> ord_trader_id order" and "e \<equiv> configured dl lims"
  assumes sorted: "sorted (times_of tid evs @ [ord_submit_time order])"
  shows "fst (check_order order (snd (risk_run evs e))) = spec_verdict (get_limits tid e) (fst (risk_run evs e)) order"
proof -
  let ?e = "snd (risk_run evs e)" and ?l = "get_limits tid e"
  have fresh: "trader_states e t = None" "\<not> global_kill e" "\<not> killed (state_of t e)" for t
    by (simp_all add: e_def configured_def new_risk_engine_def state_of_def get_state_def new_risk_state_def)
  have "is_killed tid ?e \<longleftrightarrow> spec_killed tid evs"
    by (simp add: is_killed_state spec_killed_def switches_run [OF fresh(2,3)])
  moreover have "position_ok tid order ?e \<longleftrightarrow>
      spec_in_limit (max_position_per_symbol ?l) order (filled_sum tid (Some (ord_symbol order)) evs) \<and>
      spec_in_limit (max_net_position ?l) order (filled_sum tid None evs)"
    using position_ok_history [of tid order ?e] positions_track_fills [where tid = tid and s = "ord_symbol order" and evs = evs and dl = dl and lims = lims]
    by (simp add: e_def configured_def)
  moreover have "rate_ok tid (ord_submit_time order) ?e \<longleftrightarrow>
      spec_recent (window_ns ?l) (ord_submit_time order) tid (fst (risk_run evs e)) < unat (max_order_rate ?l)"
    using rate_limit_exact [OF fresh(1) sorted] by (simp add: check_rate_limit_eq spec_recent_def not_le Let_def split: if_splits)
  ultimately show ?thesis
    by (simp add: check_order_verdict verdict_def spec_verdict_def tid_def [symmetric] Let_def not_less)
qed

lemma times_of_prefix: "sorted (times_of tid (evs @ evs')) \<Longrightarrow> sorted (times_of tid evs)"
  by (simp add: times_of_append sorted_append)

text \<open>C11. The risk engine answers from its history.  From a new engine with any limits, along any
  sequence of checks, fills, kills and releases in which the submit times of each trader do not
  decrease, every verdict is the one its history asks for: refused by the kill switch exactly if
  the last event that touched one of its two switches set it; refused for its position exactly if
  the signed sums of the fills and the order exceed a limit; refused for its rate exactly if the
  accepted orders within the window already number the maximum.\<close>

theorem risk_refines_history:
  assumes "\<forall>tid. sorted (times_of tid evs)"
  shows "fst (risk_run evs (configured dl lims)) = spec_history (\<lambda>tid. get_limits tid (configured dl lims)) evs"
  using assms
proof (induction evs rule: rev_induct)
  case (snoc ev evs)
  then have IH: "fst (risk_run evs (configured dl lims)) = spec_history (\<lambda>tid. get_limits tid (configured dl lims)) evs"
    using times_of_prefix by blast
  have "fst (risk_step ev (snd (risk_run evs (configured dl lims)))) =
      spec_answer (\<lambda>tid. get_limits tid (configured dl lims)) (fst (risk_run evs (configured dl lims))) ev"
  proof (cases ev)
    case (CheckOrder order)
    with snoc.prems have "sorted (times_of (ord_trader_id order) evs @ [ord_submit_time order])"
      by (auto simp: times_of_append dest: spec [of _ "ord_trader_id order"])
    from verdict_of_history [OF this] show ?thesis by (simp add: CheckOrder)
  qed simp_all
  with IH show ?case by (simp add: risk_run_snoc spec_history_def)
qed (simp add: spec_history_def)

definition demo_history :: "RiskEvent list" where
  "demo_history = [CheckOrder (demo_check 10 900), Fill 7 default_symbol Buy 900 100, CheckOrder (demo_check 20 200),
     CheckOrder (demo_check 30 100), CheckOrder (demo_check 40 50), KillTrader 7, CheckOrder (demo_check 50 1), UnkillAll,
     CheckOrder (demo_check 2000000 1)]"

theorem risk_refines_history_witness:
  "map snd (spec_history (\<lambda>tid. get_limits tid (configured demo_limits (\<lambda>_. None))) demo_history) =
     [NoReject, NoReject, PositionLimit, NoReject, RateLimit, NoReject, KillSwitchActive, NoReject, NoReject]"
proof -
  have "sorted (times_of tid demo_history)" for tid
    by (simp add: demo_history_def demo_check_def)
  then have "fst (risk_run demo_history (configured demo_limits (\<lambda>_. None))) =
      spec_history (\<lambda>tid. get_limits tid (configured demo_limits (\<lambda>_. None))) demo_history"
    by (intro risk_refines_history) blast
  moreover have "map snd (fst (risk_run demo_history (configured demo_limits (\<lambda>_. None)))) =
     [NoReject, NoReject, PositionLimit, NoReject, RateLimit, NoReject, KillSwitchActive, NoReject, NoReject]"
    by code_simp
  ultimately show ?thesis by simp
qed

end
