(* ===== verification/Simple_Book.thy ===== *)
theory Simple_Book
  imports L3_Invariant
begin

text \<open>
  The lightweight book of \<^verbatim>\<open>src/src/market/order_book.h\<close> and \<^verbatim>\<open>order_book.cpp\<close>: resting orders in
  sorted levels with an index of iterators, as in the L3 book, but with no check of duplicate
  ids, no matching on insertion and no counters.  The two branches on the side of an order are
  one definition, as in \<^verbatim>\<open>L3_Book\<close>.

  \<open>cancelOrder\<close> erases through an iterator and returns \<open>None\<close> when it dangles.  The trades of
  \<open>matchIncoming\<close> leave trade and trader ids at their defaults, as in the source.
\<close>

section \<open>State and operations\<close>

record NewOrder =
  no_id :: OrderId
  no_trader :: TraderId
  no_symbol :: string
  no_side :: Side
  no_type :: OrderType
  no_tif :: TimeInForce
  no_price :: Price
  no_qty :: Quantity

record BookOrder =
  bo_id :: OrderId
  bo_trader :: TraderId
  bo_qty :: Quantity
  bo_price :: Price
  bo_side :: Side
  bo_type :: OrderType
  bo_ts_ns :: u64

definition book_order :: "NewOrder \<Rightarrow> u64 \<Rightarrow> BookOrder" where
  "book_order n ts = \<lparr>bo_id = no_id n, bo_trader = no_trader n, bo_qty = no_qty n,
     bo_price = no_price n, bo_side = no_side n, bo_type = no_type n, bo_ts_ns = ts\<rparr>"

record OrderBook =
  sb_symbol :: Symbol
  sb_bids :: "BookOrder levels"
  sb_asks :: "BookOrder levels"
  sb_index :: "OrderId \<Rightarrow> OrderLocation option"
  sb_next :: node

definition new_order_book :: "Symbol \<Rightarrow> OrderBook" where
  "new_order_book symbol = \<lparr>sb_symbol = symbol, sb_bids = [], sb_asks = [], sb_index = (\<lambda>_. None), sb_next = 0\<rparr>"

fun sb_levels :: "Side \<Rightarrow> OrderBook \<Rightarrow> BookOrder levels" where
  "sb_levels Buy b = sb_bids b"
| "sb_levels Sell b = sb_asks b"

fun sb_set_levels :: "Side \<Rightarrow> BookOrder levels \<Rightarrow> OrderBook \<Rightarrow> OrderBook" where
  "sb_set_levels Buy L b = b\<lparr>sb_bids := L\<rparr>"
| "sb_set_levels Sell L b = b\<lparr>sb_asks := L\<rparr>"

definition addOrder :: "BookOrder \<Rightarrow> OrderBook \<Rightarrow> OrderBook" where
  "addOrder ord b =
     (let sd = bo_side ord; p = bo_price ord; h = sb_next b;
          b1 = sb_set_levels sd (lv_append (before_of sd) p (h, ord) (sb_levels sd b)) (b\<lparr>sb_next := h + 1\<rparr>)
      in b1\<lparr>sb_index := (sb_index b1)(bo_id ord \<mapsto> \<lparr>loc_side = sd, loc_price = p, loc_it = h\<rparr>)\<rparr>)"

definition sb_erase :: "Price \<Rightarrow> node \<Rightarrow> BookOrder levels \<Rightarrow> BookOrder levels" where
  "sb_erase p h L =
     (case map_of L p of
        None \<Rightarrow> L
      | Some q \<Rightarrow> let q' = q_erase h q in if q' = [] then lv_erase p L else lv_set p q' L)"

definition cancelOrder :: "OrderId \<Rightarrow> OrderBook \<Rightarrow> (bool \<times> OrderBook) option" where
  "cancelOrder oid b =
     (case sb_index b oid of
        None \<Rightarrow> Some (False, b)
      | Some loc \<Rightarrow>
          (let sd = loc_side loc; L = sb_levels sd b in
           case lv_deref L (loc_price loc) (loc_it loc) of
             None \<Rightarrow> None
           | Some _ \<Rightarrow>
               (let b1 = sb_set_levels sd (sb_erase (loc_price loc) (loc_it loc) L) b
                in Some (True, b1\<lparr>sb_index := (sb_index b1)(oid := None)\<rparr>))))"

record sb_match =
  sm_remaining :: Quantity
  sm_trades :: "Trade list"
  sm_index :: "OrderId \<Rightarrow> OrderLocation option"

definition sb_trade :: "Symbol \<Rightarrow> BookOrder \<Rightarrow> u64 \<Rightarrow> Price \<Rightarrow> BookOrder \<Rightarrow> Quantity \<Rightarrow> Trade" where
  "sb_trade symbol incoming ts price resting matched =
     \<lparr>trd_trade_id = 0, trd_resting_id = bo_id resting, trd_incoming_id = bo_id incoming,
      trd_resting_trader = 0, trd_incoming_trader = 0, trd_symbol = symbol,
      trd_aggressor_side = bo_side incoming, trd_price = price, trd_qty = matched,
      trd_match_timestamp_ns = ts\<rparr>"

text \<open>The inner loop: it stays at the front of the queue until that order is filled.\<close>

function sb_match_queue ::
  "Symbol \<Rightarrow> BookOrder \<Rightarrow> u64 \<Rightarrow> Price \<Rightarrow> BookOrder queue \<Rightarrow> sb_match \<Rightarrow> BookOrder queue \<times> sb_match" where
  "sb_match_queue symbol incoming ts price [] s = ([], s)"
| "sb_match_queue symbol incoming ts price ((h, resting) # q) s =
     (if \<not> sm_remaining s > 0 then ((h, resting) # q, s)
      else
        let matched = min (sm_remaining s) (bo_qty resting);
            resting' = resting\<lparr>bo_qty := i64 (bo_qty resting - matched)\<rparr>;
            s1 = s\<lparr>sm_trades := sm_trades s @ [sb_trade symbol incoming ts price resting matched],
                   sm_remaining := i64 (sm_remaining s - matched)\<rparr>
        in if bo_qty resting' = 0
           then sb_match_queue symbol incoming ts price q (s1\<lparr>sm_index := (sm_index s1)(bo_id resting := None)\<rparr>)
           else sb_match_queue symbol incoming ts price ((h, resting') # q) s1)"
  by pat_completeness auto
termination
proof (relation "measure (\<lambda>(symbol, incoming, ts, price, q, s). length q + (if sm_remaining s > 0 then 1 else 0))",
    goal_cases)
  case (3 symbol incoming ts price h resting q s)
  then have "min (sm_remaining s) (bo_qty resting) = sm_remaining s"
    by (auto simp: min_def i64_def split: if_splits)
  with 3 show ?case by (simp add: i64_def)
qed auto

definition sb_break :: "BookOrder \<Rightarrow> Price \<Rightarrow> bool" where
  "sb_break incoming price \<longleftrightarrow> bo_type incoming = Limit \<and>
     (case bo_side incoming of Buy \<Rightarrow> price > bo_price incoming | Sell \<Rightarrow> price < bo_price incoming)"

text \<open>The outer loop.  When the inner loop leaves orders in the queue, nothing remains to match and
  the loop ends.\<close>

fun sb_match_levels ::
  "Symbol \<Rightarrow> BookOrder \<Rightarrow> u64 \<Rightarrow> BookOrder levels \<Rightarrow> sb_match \<Rightarrow> BookOrder levels \<times> sb_match" where
  "sb_match_levels symbol incoming ts [] s = ([], s)"
| "sb_match_levels symbol incoming ts ((p, q) # L) s =
     (if \<not> sm_remaining s > 0 then ((p, q) # L, s)
      else if sb_break incoming p then ((p, q) # L, s)
      else let (q', s1) = sb_match_queue symbol incoming ts p q s
           in if q' = [] then sb_match_levels symbol incoming ts L s1 else ((p, q') # L, s1))"

definition matchIncoming :: "BookOrder \<Rightarrow> u64 \<Rightarrow> OrderBook \<Rightarrow> Trade list \<times> Quantity \<times> OrderBook" where
  "matchIncoming incoming ts b =
     (let opp = opposite (bo_side incoming);
          (L, s) = sb_match_levels (sb_symbol b) incoming ts (sb_levels opp b)
            \<lparr>sm_remaining = bo_qty incoming, sm_trades = [], sm_index = sb_index b\<rparr>
      in (sm_trades s, sm_remaining s, (sb_set_levels opp L b)\<lparr>sb_index := sm_index s\<rparr>))"

definition sb_level :: "Price \<times> BookOrder queue \<Rightarrow> BookLevel" where
  "sb_level pq = (case pq of (p, q) \<Rightarrow>
     \<lparr>lvl_price = p, lvl_qty = foldl (\<lambda>total (h, r). i64 (total + bo_qty r)) 0 q, lvl_order_count = 0\<rparr>)"

definition sb_best :: "BookOrder levels \<Rightarrow> BookLevel option" where
  "sb_best L = (case L of [] \<Rightarrow> None | pq # _ \<Rightarrow> Some (sb_level pq))"

definition bestBid :: "OrderBook \<Rightarrow> BookLevel option" where
  "bestBid b = sb_best (sb_bids b)"

definition bestAsk :: "OrderBook \<Rightarrow> BookLevel option" where
  "bestAsk b = sb_best (sb_asks b)"

fun sb_depth :: "nat \<Rightarrow> nat \<Rightarrow> BookOrder levels \<Rightarrow> BookLevel list" where
  "sb_depth n depth [] = []"
| "sb_depth n depth (pq # L) =
     (if n \<ge> depth then [] else sb_level pq # sb_depth (Suc n) depth L)"

definition sb_bids_depth :: "nat \<Rightarrow> OrderBook \<Rightarrow> BookLevel list" where
  "sb_bids_depth depth b = sb_depth 0 depth (sb_bids b)"

definition sb_asks_depth :: "nat \<Rightarrow> OrderBook \<Rightarrow> BookLevel list" where
  "sb_asks_depth depth b = sb_depth 0 depth (sb_asks b)"

end
