(* ===== verification/Simple_Book_Claims.thy ===== *)
theory Simple_Book_Claims
  imports Simple_Book
begin

text \<open>
  The lightweight book's invariant, its price-time priority, and what the missing check of
  duplicate ids costs.  \<open>skey\<close> is what the index knows of an entry.
\<close>

section \<open>The invariant\<close>

definition sb_entries :: "Side \<Rightarrow> OrderBook \<Rightarrow> (Price \<times> node \<times> BookOrder) list" where
  "sb_entries sd b = lv_flat (sb_levels sd b)"

definition skey :: "Price \<times> node \<times> BookOrder \<Rightarrow> Price \<times> node \<times> OrderId" where
  "skey e = (case e of (p, h, r) \<Rightarrow> (p, h, bo_id r))"

definition sb_keys :: "Side \<Rightarrow> OrderBook \<Rightarrow> (Price \<times> node \<times> OrderId) list" where
  "sb_keys sd b = map skey (sb_entries sd b)"

definition sb_inv :: "OrderBook \<Rightarrow> bool" where
  "sb_inv b \<longleftrightarrow> (\<forall>sd. lv_ok (before_of sd) (sb_levels sd b)) \<and>
     (\<forall>sd. distinct (map key_node (sb_keys sd b)) \<and> (\<forall>k \<in> set (sb_keys sd b). key_node k < sb_next b)) \<and>
     (\<forall>oid loc. sb_index b oid = Some loc \<longrightarrow>
       (loc_price loc, loc_it loc, oid) \<in> set (sb_keys (loc_side loc) b))"

lemma sb_set_levels_frame [simp]:
  "sb_levels sd (sb_set_levels sd' L b) = (if sd = sd' then L else sb_levels sd b)"
  "sb_index (sb_set_levels sd L b) = sb_index b" "sb_next (sb_set_levels sd L b) = sb_next b"
  "sb_symbol (sb_set_levels sd L b) = sb_symbol b"
  by (cases sd; cases sd'; simp)+

lemma sb_levels_frame [simp]:
  "sb_levels sd (b\<lparr>sb_index := i\<rparr>) = sb_levels sd b" "sb_levels sd (b\<lparr>sb_next := n\<rparr>) = sb_levels sd b"
  by (cases sd; simp)+

lemma sb_inv_new: "sb_inv (new_order_book s)"
proof -
  have "sb_levels sd (new_order_book s) = []" for sd by (cases sd) (simp_all add: new_order_book_def)
  then show ?thesis by (simp add: sb_inv_def sb_keys_def sb_entries_def) (simp add: new_order_book_def)
qed

lemma skey_nodes: "map key_node (map skey es) = map (\<lambda>(p, h, r). h) es"
  by (simp add: key_node_def skey_def comp_def case_prod_unfold)

lemma sb_add_inv:
  assumes inv: "sb_inv b"
  shows "sb_inv (addOrder ord b)"
proof -
  let ?sd = "bo_side ord" and ?b' = "addOrder ord b"
  let ?x = "(bo_price ord, sb_next b, ord)"
  have L: "sb_levels sd ?b' = (if sd = ?sd
      then lv_append (before_of sd) (bo_price ord) (sb_next b, ord) (sb_levels sd b) else sb_levels sd b)" for sd
    by (simp add: addOrder_def Let_def)
  have ok: "lv_ok (before_of sd) (sb_levels sd b)" for sd using inv by (simp add: sb_inv_def)
  have ms: "mset (sb_keys ?sd ?b') = mset (skey ?x # sb_keys ?sd b)"
    by (simp add: sb_keys_def sb_entries_def L mset_lv_append)
  then have keys: "set (sb_keys ?sd ?b') = insert (skey ?x) (set (sb_keys ?sd b))"
    by (metis list.set(2) set_mset_mset)
  have other: "sb_keys sd ?b' = sb_keys sd b" if "sd \<noteq> ?sd" for sd
    using that by (simp add: sb_keys_def sb_entries_def L)
  have fresh: "\<forall>k \<in> set (sb_keys sd b). key_node k < sb_next b" for sd using inv by (simp add: sb_inv_def)
  have next': "sb_next ?b' = sb_next b + 1" by (simp add: addOrder_def Let_def)
  have node: "key_node (skey ?x) = sb_next b" by (simp add: key_node_def skey_def)
  have "distinct (map key_node (sb_keys sd ?b')) \<and> (\<forall>k \<in> set (sb_keys sd ?b'). key_node k < sb_next ?b')" for sd
  proof (cases "sd = ?sd")
    case True
    have "mset (map key_node (sb_keys ?sd ?b')) = mset (map key_node (skey ?x # sb_keys ?sd b))"
      using ms by (metis mset_map)
    from distinct_mset_eq [OF this] inv fresh [of ?sd] keys True next' node show ?thesis
      by (force simp: sb_inv_def image_iff)
  next
    case False
    with inv fresh [of sd] next' show ?thesis by (auto simp: other sb_inv_def less_Suc_eq)
  qed
  moreover have "lv_ok (before_of sd) (sb_levels sd ?b')" for sd
    using ok side_order.append_ok [OF ok] by (simp add: L)
  moreover have "(loc_price loc, loc_it loc, oid) \<in> set (sb_keys (loc_side loc) ?b')"
    if "sb_index ?b' oid = Some loc" for oid loc
  proof (cases "oid = bo_id ord")
    case True
    with that have "loc = \<lparr>loc_side = ?sd, loc_price = bo_price ord, loc_it = sb_next b\<rparr>"
      by (simp add: addOrder_def Let_def)
    with True keys show ?thesis by (simp add: skey_def)
  next
    case False
    with that have "sb_index b oid = Some loc" by (simp add: addOrder_def Let_def)
    with inv have "(loc_price loc, loc_it loc, oid) \<in> set (sb_keys (loc_side loc) b)"
      by (simp add: sb_inv_def)
    with keys other [of "loc_side loc"] show ?thesis by (cases "loc_side loc = ?sd") auto
  qed
  ultimately show ?thesis by (simp add: sb_inv_def)
qed

section \<open>Cancelling\<close>

lemma sb_erase_spec:
  assumes ok: "lv_ok (before_of sd) L" and mem: "(p, h, r) \<in> set (lv_flat L)"
    and dist: "distinct (nodes_of L)"
  shows "lv_ok (before_of sd) (sb_erase p h L)"
    and "lv_flat (sb_erase p h L) = filter (\<lambda>(_, k, _). k \<noteq> h) (lv_flat L)"
proof -
  from mem obtain q where "(p, q) \<in> set L" and hq: "(h, r) \<in> set q" by (auto simp: in_set_lv_flat)
  then have q: "map_of L p = Some q" by (simp add: side_order.map_of_level [OF ok])
  obtain L1 L2 where L: "L = L1 @ (p, q) # L2" "lv_erase p L = L1 @ L2"
      "\<And>zs. lv_set p zs L = L1 @ (p, zs) # L2"
    by (rule side_order.level_split [OF ok q]) (rule that)
  show "lv_ok (before_of sd) (sb_erase p h L)"
    using side_order.erase_ok [OF ok] side_order.set_ok [OF ok] by (simp add: sb_erase_def q Let_def)
  have out: "filter (\<lambda>(_, k, _). k \<noteq> h) (lv_flat K) = lv_flat K"
    if "h \<notin> set (nodes_of K)" for K :: "BookOrder levels"
    using that by (force simp: filter_id_conv nodes_of_def)
  have "h \<notin> set (nodes_of L1)" "h \<notin> set (nodes_of L2)"
    using dist hq by (force simp: L(1))+
  moreover have "filter (\<lambda>(_, k, _). k \<noteq> h) (map (Pair p) q) = map (Pair p) (q_erase h q)"
    by (simp add: filter_map q_erase_def comp_def case_prod_unfold)
  ultimately show "lv_flat (sb_erase p h L) = filter (\<lambda>(_, k, _). k \<noteq> h) (lv_flat L)"
    using out by (simp add: L(1)) (simp add: sb_erase_def q Let_def L(2,3) flip: L(1))
qed

lemma sb_nodes: "nodes_of (sb_levels sd b) = map key_node (sb_keys sd b)"
  by (simp add: nodes_of_def sb_keys_def sb_entries_def key_node_def skey_def comp_def case_prod_unfold)

lemma sb_inv_index:
  "sb_inv b \<Longrightarrow> sb_index b oid = Some loc \<Longrightarrow> (loc_price loc, loc_it loc, oid) \<in> set (sb_keys (loc_side loc) b)"
  by (simp add: sb_inv_def)

lemma sb_index_entry:
  assumes inv: "sb_inv b" and loc: "sb_index b oid = Some loc"
  obtains r where "(loc_price loc, loc_it loc, r) \<in> set (lv_flat (sb_levels (loc_side loc) b))"
    "bo_id r = oid" "lv_deref (sb_levels (loc_side loc) b) (loc_price loc) (loc_it loc) = Some r"
proof -
  from sb_inv_index [OF assms] obtain r where
    r: "(loc_price loc, loc_it loc, r) \<in> set (lv_flat (sb_levels (loc_side loc) b))" "bo_id r = oid"
    by (auto simp: sb_keys_def sb_entries_def skey_def)
  moreover have "lv_deref (sb_levels (loc_side loc) b) (loc_price loc) (loc_it loc) = Some r"
    using r inv by (subst side_order.deref_iff) (auto simp: sb_inv_def sb_nodes)
  ultimately show thesis by (rule that)
qed

definition sb_cancelled :: "OrderId \<Rightarrow> OrderLocation \<Rightarrow> OrderBook \<Rightarrow> OrderBook" where
  "sb_cancelled oid loc b =
     (sb_set_levels (loc_side loc) (sb_erase (loc_price loc) (loc_it loc) (sb_levels (loc_side loc) b)) b)
       \<lparr>sb_index := (sb_index b)(oid := None)\<rparr>"

lemma cancelOrder_known:
  assumes "sb_inv b" and "sb_index b oid = Some loc"
  shows "cancelOrder oid b = Some (True, sb_cancelled oid loc b)"
proof -
  from sb_index_entry [OF assms] obtain r where
    "lv_deref (sb_levels (loc_side loc) b) (loc_price loc) (loc_it loc) = Some r" .
  with assms(2) show ?thesis by (simp add: cancelOrder_def sb_cancelled_def Let_def)
qed

lemma sb_cancelled_keys:
  assumes inv: "sb_inv b" and loc: "sb_index b oid = Some loc"
  shows "sb_keys sd (sb_cancelled oid loc b) = (if sd = loc_side loc
      then filter (\<lambda>k. key_node k \<noteq> loc_it loc) (sb_keys sd b) else sb_keys sd b)"
    and "lv_ok (before_of sd) (sb_levels sd (sb_cancelled oid loc b))"
proof -
  from sb_index_entry [OF assms] obtain r where
    r: "(loc_price loc, loc_it loc, r) \<in> set (lv_flat (sb_levels (loc_side loc) b))" .
  have ok: "lv_ok (before_of (loc_side loc)) (sb_levels (loc_side loc) b)"
    and dist: "distinct (nodes_of (sb_levels (loc_side loc) b))"
    using inv by (simp_all add: sb_inv_def sb_nodes)
  note spec = sb_erase_spec [OF ok r dist]
  show "lv_ok (before_of sd) (sb_levels sd (sb_cancelled oid loc b))"
    using spec(1) inv by (simp add: sb_cancelled_def sb_inv_def)
  show "sb_keys sd (sb_cancelled oid loc b) = (if sd = loc_side loc
      then filter (\<lambda>k. key_node k \<noteq> loc_it loc) (sb_keys sd b) else sb_keys sd b)"
    using spec(2) by (simp add: sb_keys_def sb_entries_def sb_cancelled_def filter_map comp_def
        key_node_def skey_def case_prod_unfold)
qed

lemma sb_cancel_inv:
  assumes inv: "sb_inv b" and c: "cancelOrder oid b = Some (ok, b')"
  shows "sb_inv b'"
proof (cases "sb_index b oid")
  case None
  with inv c show ?thesis by (simp add: cancelOrder_def)
next
  case (Some loc)
  with c inv have b': "b' = sb_cancelled oid loc b" by (simp add: cancelOrder_known)
  note keys = sb_cancelled_keys [OF inv Some]
  have "(loc_price l, loc_it l, i) \<in> set (sb_keys (loc_side l) (sb_cancelled oid loc b))"
    if "sb_index (sb_cancelled oid loc b) i = Some l" for i l
  proof -
    from that have i: "i \<noteq> oid" "sb_index b i = Some l"
      by (auto simp: sb_cancelled_def split: if_splits)
    have "loc_it l \<noteq> loc_it loc" if sd: "loc_side l = loc_side loc"
    proof
      assume it: "loc_it l = loc_it loc"
      have k: "(loc_price l, loc_it l, i) \<in> set (sb_keys (loc_side loc) b)"
        "(loc_price loc, loc_it loc, oid) \<in> set (sb_keys (loc_side loc) b)"
        using sb_inv_index [OF inv i(2)] sb_inv_index [OF inv Some] sd by simp_all
      have d: "distinct (map key_node (sb_keys (loc_side loc) b))" using inv by (simp add: sb_inv_def)
      have "(loc_price l, loc_it l, i) = (loc_price loc, loc_it loc, oid)"
        by (rule distinct_map_eqD [OF d k]) (simp add: it key_node_def)
      with i(1) show False by simp
    qed
    with sb_inv_index [OF inv i(2)] show ?thesis by (auto simp: keys key_node_def)
  qed
  moreover have "distinct (map key_node (sb_keys sd (sb_cancelled oid loc b))) \<and>
      (\<forall>k \<in> set (sb_keys sd (sb_cancelled oid loc b)). key_node k < sb_next (sb_cancelled oid loc b))" for sd
    using inv by (auto simp: keys sb_inv_def distinct_map_filter) (auto simp: sb_cancelled_def)
  ultimately show ?thesis using keys(2) by (simp add: b' sb_inv_def)
qed

section \<open>Matching\<close>

text \<open>The ids that leave the index.\<close>

definition drop_ids_of :: "OrderId set \<Rightarrow> (OrderId \<Rightarrow> OrderLocation option) \<Rightarrow> OrderId \<Rightarrow> OrderLocation option" where
  "drop_ids_of S m = (\<lambda>i. if i \<in> S then None else m i)"

lemma drop_ids_of_simps [simp]:
  "drop_ids_of {} m = m" "drop_ids_of S (drop_ids_of T m) = drop_ids_of (S \<union> T) m"
  "m(i := None) = drop_ids_of {i} m"
  by (auto simp: drop_ids_of_def fun_eq_iff)

lemma sb_match_queue_keys:
  "sb_match_queue symbol incoming ts price q s = (q', s') \<Longrightarrow>
    \<exists>k. map (\<lambda>(h, r). (h, bo_id r)) q' = drop k (map (\<lambda>(h, r). (h, bo_id r)) q) \<and>
      sm_index s' = drop_ids_of (snd ` set (take k (map (\<lambda>(h, r). (h, bo_id r)) q))) (sm_index s) \<and>
      (q' = [] \<or> \<not> sm_remaining s' > 0)"
proof (induction symbol incoming ts price q s rule: sb_match_queue.induct)
  case (1 symbol incoming ts price s)
  then show ?case by (intro exI [of _ 0]) auto
next
  case (2 symbol incoming ts price h resting q s)
  let ?m = "min (sm_remaining s) (bo_qty resting)"
  let ?r = "resting\<lparr>bo_qty := i64 (bo_qty resting - ?m)\<rparr>"
  let ?s1 = "s\<lparr>sm_trades := sm_trades s @ [sb_trade symbol incoming ts price resting ?m],
    sm_remaining := i64 (sm_remaining s - ?m)\<rparr>"
  consider "\<not> sm_remaining s > 0" | "sm_remaining s > 0" "bo_qty ?r = 0" | "sm_remaining s > 0" "bo_qty ?r \<noteq> 0"
    by blast
  then show ?case
  proof cases
    case 1
    with "2.prems" show ?thesis by (intro exI [of _ 0]) auto
  next
    case c: 2
    with "2.prems" have "sb_match_queue symbol incoming ts price q
        (?s1\<lparr>sm_index := (sm_index ?s1)(bo_id resting := None)\<rparr>) = (q', s')" by (simp add: Let_def)
    from "2.IH"(1) [OF _ refl refl refl c(2) this] c(1) obtain k where
      "map (\<lambda>(h, r). (h, bo_id r)) q' = drop k (map (\<lambda>(h, r). (h, bo_id r)) q)"
      "sm_index s' = drop_ids_of (snd ` set (take k (map (\<lambda>(h, r). (h, bo_id r)) q)))
        (drop_ids_of {bo_id resting} (sm_index s))" "q' = [] \<or> \<not> sm_remaining s' > 0" by auto
    then show ?thesis by (intro exI [of _ "Suc k"]) simp
  next
    case c: 3
    with "2.prems" have "sb_match_queue symbol incoming ts price ((h, ?r) # q) ?s1 = (q', s')"
      by (simp add: Let_def)
    from "2.IH"(2) [OF _ refl refl refl c(2) this] c(1) show ?thesis by simp
  qed
qed

lemma sb_match_levels_keys:
  assumes "sb_match_levels symbol incoming ts L s = (L', s')" and "lv_ok before L"
  shows "\<exists>k. map skey (lv_flat L') = drop k (map skey (lv_flat L)) \<and>
      sm_index s' = drop_ids_of ((\<lambda>e. snd (snd e)) ` set (take k (map skey (lv_flat L)))) (sm_index s) \<and>
      lv_ok before L' \<and> fst ` set L' \<subseteq> fst ` set L"
  using assms
proof (induction symbol incoming ts L s rule: sb_match_levels.induct)
  case (1 symbol incoming ts s)
  then show ?case by (intro exI [of _ 0]) auto
next
  case (2 symbol incoming ts p q L s)
  show ?case
  proof (cases "\<not> sm_remaining s > 0 \<or> sb_break incoming p")
    case True
    with "2.prems" show ?thesis by (intro exI [of _ 0]) (auto split: if_splits)
  next
    case False
    obtain q1 s1 where q1: "sb_match_queue symbol incoming ts p q s = (q1, s1)" by fastforce
    let ?key = "\<lambda>(h, r). (h, bo_id r)"
    have skey: "map skey (map (Pair p) ys) = map (Pair p) (map ?key ys)" for ys
      by (simp add: skey_def comp_def case_prod_unfold)
    from sb_match_queue_keys [OF q1] obtain k where
      k: "map ?key q1 = drop k (map ?key q)"
        "sm_index s1 = drop_ids_of (snd ` set (take k (map ?key q))) (sm_index s)" by blast
    have ok: "q \<noteq> []" "lv_ok before L" "\<forall>x \<in> fst ` set L. before p x"
      using "2.prems"(2) by (simp_all add: lv_ok_Cons)
    show ?thesis
    proof (cases "q1 = []")
      case True
      with False q1 "2.prems"(1) have L: "sb_match_levels symbol incoming ts L s1 = (L', s')" by simp
      have "length (map ?key q) \<le> k" using k(1) True by simp
      then have k': "take k (map ?key q) = map ?key q" by simp
      from "2.IH" [OF _ _ q1 [symmetric] refl True L ok(2)] False obtain m where
        m: "map skey (lv_flat L') = drop m (map skey (lv_flat L))"
        "sm_index s' = drop_ids_of ((\<lambda>e. snd (snd e)) ` set (take m (map skey (lv_flat L)))) (sm_index s1)"
        "lv_ok before L'" "fst ` set L' \<subseteq> fst ` set L" by auto
      have "(\<lambda>e. snd (snd e)) ` set (take (length q + m) (map skey (lv_flat ((p, q) # L)))) =
          (\<lambda>e. snd (snd e)) ` set (take m (map skey (lv_flat L))) \<union> snd ` set (map ?key q)"
        by (simp add: skey image_Un Un_commute image_image del: map_map)
      with m k(2) k' show ?thesis
        by (intro exI [of _ "length q + m"]) (auto simp del: map_map)
    next
      case nonempty: False
      with False q1 "2.prems"(1) have L': "L' = (p, q1) # L" "s' = s1" by auto
      have len: "k \<le> length q" using k(1) nonempty
        by (metis (no_types, lifting) drop_all length_map linorder_le_cases map_is_Nil_conv)
      have "map skey (lv_flat L') = drop k (map skey (lv_flat ((p, q) # L)))"
        using k(1) len by (simp add: L' skey drop_map del: map_map)
      moreover have "(\<lambda>e. snd (snd e)) ` set (take k (map skey (lv_flat ((p, q) # L)))) =
          snd ` set (take k (map ?key q))"
        using len by (simp add: skey take_map image_image del: map_map)
      ultimately show ?thesis
        using k(2) ok nonempty by (intro exI [of _ k]) (simp add: L' lv_ok_Cons)
    qed
  qed
qed

lemma sb_match_inv:
  assumes inv: "sb_inv b" and m: "matchIncoming incoming ts b = (trs, n, b')"
  shows "sb_inv b'"
proof -
  let ?opp = "opposite (bo_side incoming)"
  let ?s = "\<lparr>sm_remaining = bo_qty incoming, sm_trades = [], sm_index = sb_index b\<rparr>"
  obtain L s where L: "sb_match_levels (sb_symbol b) incoming ts (sb_levels ?opp b) ?s = (L, s)" by fastforce
  have b': "b' = (sb_set_levels ?opp L b)\<lparr>sb_index := sm_index s\<rparr>"
    using m by (simp add: matchIncoming_def L)
  have "lv_ok (before_of ?opp) (sb_levels ?opp b)" using inv by (simp add: sb_inv_def)
  from sb_match_levels_keys [OF L this] obtain k where
    k: "map skey (lv_flat L) = drop k (sb_keys ?opp b)"
      "sm_index s = drop_ids_of ((\<lambda>e. snd (snd e)) ` set (take k (sb_keys ?opp b))) (sb_index b)"
      "lv_ok (before_of ?opp) L" by (auto simp: sb_keys_def sb_entries_def)
  have keys: "sb_keys sd b' = (if sd = ?opp then drop k (sb_keys sd b) else sb_keys sd b)" for sd
    using k(1) by (simp add: b' sb_keys_def sb_entries_def)
  have next': "sb_next b' = sb_next b" by (simp add: b')
  have dist: "distinct (map key_node (sb_keys sd b))" "\<forall>k \<in> set (sb_keys sd b). key_node k < sb_next b" for sd
    using inv by (simp_all add: sb_inv_def)
  have "distinct (map key_node (sb_keys sd b')) \<and> (\<forall>k \<in> set (sb_keys sd b'). key_node k < sb_next b')" for sd
    using dist [of sd] by (auto simp: keys next' drop_map [symmetric] dest: in_set_dropD)
  moreover have "lv_ok (before_of sd) (sb_levels sd b')" for sd
    using inv k(3) by (simp add: b' sb_inv_def)
  moreover have "(loc_price loc, loc_it loc, oid) \<in> set (sb_keys (loc_side loc) b')"
    if i: "sb_index b' oid = Some loc" for oid loc
  proof -
    from i have idx: "sb_index b oid = Some loc"
      "oid \<notin> (\<lambda>e. snd (snd e)) ` set (take k (sb_keys ?opp b))"
      by (auto simp: b' k(2) drop_ids_of_def split: if_splits)
    have "(loc_price loc, loc_it loc, oid) \<in> set (sb_keys (loc_side loc) b)"
      by (rule sb_inv_index [OF inv idx(1)])
    then have "(loc_price loc, loc_it loc, oid) \<in> set (take k (sb_keys (loc_side loc) b)) \<union>
        set (drop k (sb_keys (loc_side loc) b))" by (metis append_take_drop_id set_append)
    with idx(2) show ?thesis
      using sb_inv_index [OF inv idx(1)] by (cases "loc_side loc = ?opp") (force simp: keys)+
  qed
  ultimately show ?thesis by (simp add: sb_inv_def)
qed

section \<open>Reachable books\<close>

inductive sb_reach :: "OrderBook \<Rightarrow> bool" where
  new: "sb_reach (new_order_book s)"
| add: "sb_reach b \<Longrightarrow> sb_reach (addOrder ord b)"
| cancel: "sb_reach b \<Longrightarrow> cancelOrder oid b = Some (ok, b') \<Longrightarrow> sb_reach b'"
| match: "sb_reach b \<Longrightarrow> matchIncoming incoming ts b = (trs, n, b') \<Longrightarrow> sb_reach b'"

lemma sb_reach_inv: "sb_reach b \<Longrightarrow> sb_inv b"
  by (induction rule: sb_reach.induct) (auto intro: sb_inv_new sb_add_inv sb_cancel_inv sb_match_inv)

text \<open>The lightweight book is memory safe, whatever ids its clients choose: on a reachable book a
  cancel never erases through a dangling iterator, and it reports success exactly when the id
  is indexed.\<close>

theorem simple_cancel_safe:
  assumes "sb_reach b"
  shows "\<exists>b'. cancelOrder oid b = Some (sb_index b oid \<noteq> None, b') \<and> sb_reach b'"
proof (cases "sb_index b oid")
  case None
  with assms show ?thesis by (simp add: cancelOrder_def)
next
  case (Some loc)
  from cancelOrder_known [OF sb_reach_inv [OF assms] Some] Some sb_reach.cancel [OF assms] show ?thesis
    by auto
qed

definition sb_demo_order :: "OrderId \<Rightarrow> Side \<Rightarrow> Price \<Rightarrow> Quantity \<Rightarrow> BookOrder" where
  "sb_demo_order oid sd px q = \<lparr>bo_id = oid, bo_trader = 0, bo_qty = q, bo_price = px, bo_side = sd,
     bo_type = Limit, bo_ts_ns = 0\<rparr>"

theorem simple_cancel_safe_witness:
  "\<exists>b'. cancelOrder 1 (addOrder (sb_demo_order 1 Buy 99 5) (new_order_book default_symbol)) = Some (True, b')"
proof -
  have "sb_index (addOrder (sb_demo_order 1 Buy 99 5) (new_order_book default_symbol)) 1 \<noteq> None"
    by (simp add: addOrder_def sb_demo_order_def Let_def)
  with simple_cancel_safe [OF sb_reach.add [OF sb_reach.new], of 1 "sb_demo_order 1 Buy 99 5" default_symbol]
  show ?thesis by auto
qed

text \<open>Without a check of duplicate ids an order can be lost to its owner: after two orders with
  the same id, a cancel removes only the later one, the earlier one keeps resting and no
  further cancel finds it.\<close>

theorem duplicate_id_orphans_order:
  "\<exists>b b1. sb_reach b \<and> cancelOrder 1 b = Some (True, b1) \<and> cancelOrder 1 b1 = Some (False, b1) \<and>
     bestBid b1 = Some \<lparr>lvl_price = 99, lvl_qty = 5, lvl_order_count = 0\<rparr>"
proof -
  let ?b = "addOrder (sb_demo_order 1 Buy 98 7) (addOrder (sb_demo_order 1 Buy 99 5) (new_order_book default_symbol))"
  have reach: "sb_reach ?b" by (intro sb_reach.intros)
  have "map_option (\<lambda>(ok, b1). (ok, map_option fst (cancelOrder 1 b1), sb_index b1 1, bestBid b1)) (cancelOrder 1 ?b) =
      Some (True, Some False, None, Some \<lparr>lvl_price = 99, lvl_qty = 5, lvl_order_count = 0\<rparr>)"
    by code_simp
  then obtain b1 where b1: "cancelOrder 1 ?b = Some (True, b1)" "sb_index b1 1 = None"
    "bestBid b1 = Some \<lparr>lvl_price = 99, lvl_qty = 5, lvl_order_count = 0\<rparr>" by auto
  from b1(2) have "cancelOrder 1 b1 = Some (False, b1)" by (simp add: cancelOrder_def)
  with reach b1 show ?thesis by blast
qed

section \<open>Price-time priority\<close>

text \<open>What an order of \<open>n\<close> units takes from entries in priority order: price, order, quantity.\<close>

fun sb_fills :: "Quantity \<Rightarrow> (Price \<times> node \<times> BookOrder) list \<Rightarrow> (Price \<times> BookOrder \<times> Quantity) list" where
  "sb_fills n [] = []"
| "sb_fills n ((p, h, r) # xs) =
     (if n \<le> 0 then [] else (p, r, min n (bo_qty r)) # sb_fills (n - min n (bo_qty r)) xs)"

definition sb_filled :: "(Price \<times> BookOrder \<times> Quantity) list \<Rightarrow> Quantity" where
  "sb_filled fs = sum_list (map (\<lambda>(p, r, m). m) fs)"

lemma sb_fills_zero [simp]: "n \<le> 0 \<Longrightarrow> sb_fills n xs = []"
  by (cases xs) auto

lemma sb_filled_simps [simp]:
  "sb_filled [] = 0" "sb_filled ((p, r, m) # fs) = m + sb_filled fs"
  by (simp_all add: sb_filled_def)

lemma sb_fills_append:
  "\<forall>(p, h, r) \<in> set xs. 0 < bo_qty r \<Longrightarrow>
    sb_fills n (xs @ ys) = sb_fills n xs @ sb_fills (n - sb_filled (sb_fills n xs)) ys"
  by (induction n xs rule: sb_fills.induct) (auto simp: diff_diff_eq)

lemma sb_filled_le: "\<forall>(p, h, r) \<in> set xs. 0 < bo_qty r \<Longrightarrow> 0 \<le> n \<Longrightarrow>
    0 \<le> sb_filled (sb_fills n xs) \<and> sb_filled (sb_fills n xs) \<le> n"
  by (induction n xs rule: sb_fills.induct) (auto simp: min_def)

definition sb_trades :: "Symbol \<Rightarrow> BookOrder \<Rightarrow> u64 \<Rightarrow> (Price \<times> BookOrder \<times> Quantity) list \<Rightarrow> Trade list" where
  "sb_trades symbol incoming ts fs = map (\<lambda>(p, r, m). sb_trade symbol incoming ts p r m) fs"

lemma sb_trades_simps [simp]:
  "sb_trades symbol incoming ts [] = []"
  "sb_trades symbol incoming ts ((p, r, m) # fs) = sb_trade symbol incoming ts p r m # sb_trades symbol incoming ts fs"
  "sb_trades symbol incoming ts (fs @ gs) = sb_trades symbol incoming ts fs @ sb_trades symbol incoming ts gs"
  by (simp_all add: sb_trades_def)

lemma sb_match_queue_fills:
  assumes "sb_match_queue symbol incoming ts price q s = (q', s')"
    and "\<forall>(h, r) \<in> set q. 0 < bo_qty r \<and> in_i64 (bo_qty r)"
    and "0 \<le> sm_remaining s" "in_i64 (sm_remaining s)"
  shows "sm_trades s' = sm_trades s @ sb_trades symbol incoming ts (sb_fills (sm_remaining s) (map (Pair price) q)) \<and>
    sm_remaining s' = sm_remaining s - sb_filled (sb_fills (sm_remaining s) (map (Pair price) q))"
  using assms
proof (induction symbol incoming ts price q s rule: sb_match_queue.induct)
  case (2 symbol incoming ts price h resting q s)
  let ?n = "sm_remaining s" and ?q = "bo_qty resting"
  let ?r = "resting\<lparr>bo_qty := i64 (?q - min ?n ?q)\<rparr>"
  let ?s1 = "s\<lparr>sm_trades := sm_trades s @ [sb_trade symbol incoming ts price resting (min ?n ?q)],
    sm_remaining := i64 (?n - min ?n ?q)\<rparr>"
  have ok: "0 < ?q" "in_i64 ?q" "\<forall>(h, r) \<in> set q. 0 < bo_qty r \<and> in_i64 (bo_qty r)"
    using "2.prems"(2) by auto
  have i: "i64 (?q - min ?n ?q) = ?q - min ?n ?q" "i64 (?n - min ?n ?q) = ?n - min ?n ?q"
    using "2.prems"(3,4) ok by (auto intro!: i64_id simp: in_i64_def i64_min_def i64_max_def)
  have rng: "0 \<le> ?n - min ?n ?q" "in_i64 (?n - min ?n ?q)"
    using "2.prems"(3,4) ok by (auto simp: in_i64_def i64_min_def i64_max_def)
  consider "?n = 0" | "0 < ?n" "?q \<le> ?n" | "0 < ?n" "?n < ?q" using "2.prems"(3) by linarith
  then show ?case
  proof cases
    case 1
    with "2.prems"(1) show ?thesis by simp
  next
    case c: 2
    then have zero: "bo_qty ?r = 0" by (simp add: min_def i64_def)
    with c "2.prems"(1) have run: "sb_match_queue symbol incoming ts price q
        (?s1\<lparr>sm_index := (sm_index ?s1)(bo_id resting := None)\<rparr>) = (q', s')" by (simp add: Let_def)
    from "2.IH"(1) [OF _ refl refl refl zero run] c ok(3) rng i show ?thesis by (simp add: min_def)
  next
    case c: 3
    then have m: "min ?n ?q = ?n" by simp
    with c i(1) have "bo_qty ?r \<noteq> 0" by simp
    with c "2.prems"(1) have "sb_match_queue symbol incoming ts price ((h, ?r) # q) ?s1 = (q', s')"
      by (simp add: Let_def)
    moreover have "sm_remaining ?s1 = 0" using c by (simp add: min_def i64_def)
    ultimately have "s' = ?s1" by simp
    moreover have "i64 0 = 0" by (simp add: i64_def)
    ultimately show ?thesis using c i by (simp add: min_def)
  qed
qed simp

lemma sb_match_levels_fills:
  assumes "sb_match_levels symbol incoming ts L s = (L', s')"
    and "\<forall>(p, h, r) \<in> set (lv_flat L). 0 < bo_qty r \<and> in_i64 (bo_qty r)" "\<forall>(p, q) \<in> set L. q \<noteq> []"
    and "0 \<le> sm_remaining s" "in_i64 (sm_remaining s)"
  defines "fs \<equiv> sb_fills (sm_remaining s) (takeWhile (\<lambda>e. \<not> sb_break incoming (fst e)) (lv_flat L))"
  shows "sm_trades s' = sm_trades s @ sb_trades symbol incoming ts fs \<and>
    sm_remaining s' = sm_remaining s - sb_filled fs"
  using assms(1-5) unfolding fs_def
proof (induction symbol incoming ts L s rule: sb_match_levels.induct)
  case (2 symbol incoming ts p q L s)
  obtain x q0 where q: "q = x # q0" using "2.prems"(3) by (cases q) auto
  consider "sm_remaining s = 0" | "0 < sm_remaining s" "sb_break incoming p"
    | "0 < sm_remaining s" "\<not> sb_break incoming p" using "2.prems"(4) by linarith
  then show ?case
  proof cases
    case 1
    with "2.prems"(1) show ?thesis by simp
  next
    case c: 2
    with "2.prems"(1) have same: "s' = s" by simp
    have stop: "takeWhile (\<lambda>e. \<not> sb_break incoming (fst e)) (lv_flat ((p, q) # L)) = []"
      using c by (cases x) (simp add: q)
    show ?thesis unfolding stop same by simp
  next
    case c: 3
    obtain q1 s1 where q1: "sb_match_queue symbol incoming ts p q s = (q1, s1)" by fastforce
    have okq: "\<forall>(h, r) \<in> set q. 0 < bo_qty r \<and> in_i64 (bo_qty r)"
      "\<forall>(p, h, r) \<in> set (map (Pair p) q). 0 < bo_qty r" using "2.prems"(2) by fastforce+
    let ?fq = "sb_fills (sm_remaining s) (map (Pair p) q)"
    note fq = sb_match_queue_fills [OF q1 okq(1) "2.prems"(4,5)]
    have le: "0 \<le> sb_filled ?fq" "sb_filled ?fq \<le> sm_remaining s"
      using sb_filled_le [OF okq(2) "2.prems"(4)] by simp_all
    have rng: "0 \<le> sm_remaining s1" "in_i64 (sm_remaining s1)"
      using fq le "2.prems"(5) by (auto simp: in_i64_def i64_min_def)
    have tw: "takeWhile (\<lambda>e. \<not> sb_break incoming (fst e)) (lv_flat ((p, q) # L)) =
        map (Pair p) q @ takeWhile (\<lambda>e. \<not> sb_break incoming (fst e)) (lv_flat L)"
      using c by (auto intro!: takeWhile_append2)
    note split = sb_fills_append [OF okq(2), of "sm_remaining s"]
    have sum: "sb_filled (xs @ ys) = sb_filled xs + sb_filled ys" for xs ys by (simp add: sb_filled_def)
    show ?thesis
    proof (cases "q1 = []")
      case True
      with c q1 "2.prems"(1) have run: "sb_match_levels symbol incoming ts L s1 = (L', s')" by simp
      have "\<forall>(p, h, r) \<in> set (lv_flat L). 0 < bo_qty r \<and> in_i64 (bo_qty r)" "\<forall>(p, q) \<in> set L. q \<noteq> []"
        using "2.prems"(2,3) by auto
      from "2.IH" [OF _ _ q1 [symmetric] refl True run this rng] c fq show ?thesis
        unfolding tw split by (simp add: sum)
    next
      case False
      with c q1 "2.prems"(1) have "s' = s1" by auto
      moreover have "sm_remaining s1 = 0"
        using sb_match_queue_keys [OF q1] False rng(1) by auto
      ultimately show ?thesis using fq unfolding tw split by (simp add: sum)
    qed
  qed
qed simp

text \<open>The lightweight book matches in price-time priority and conserves quantity.  On a reachable
  book whose resting orders have positive quantities, an incoming order trades with the orders
  of the other side in priority order up to its limit, each for the lesser of what it still
  needs and what the resting order has, at the resting price; what it needs after that is
  returned.\<close>

theorem simple_match_priority:
  assumes reach: "sb_reach b" and q: "0 \<le> bo_qty incoming" "in_i64 (bo_qty incoming)"
    and pos: "\<forall>(p, h, r) \<in> set (sb_entries (opposite (bo_side incoming)) b). 0 < bo_qty r \<and> in_i64 (bo_qty r)"
    and m: "matchIncoming incoming ts b = (trs, n, b')"
  shows "trs = map (\<lambda>(p, r, m). sb_trade (sb_symbol b) incoming ts p r m)
      (sb_fills (bo_qty incoming) (takeWhile (\<lambda>e. \<not> sb_break incoming (fst e))
        (sb_entries (opposite (bo_side incoming)) b))) \<and>
    n + sum_list (map trd_qty trs) = bo_qty incoming \<and>
    sorted_wrt (\<lambda>x y. \<not> before_of (opposite (bo_side incoming)) (fst y) (fst x))
      (sb_entries (opposite (bo_side incoming)) b)"
proof -
  let ?opp = "opposite (bo_side incoming)"
  let ?s = "\<lparr>sm_remaining = bo_qty incoming, sm_trades = [], sm_index = sb_index b\<rparr>"
  have ok: "lv_ok (before_of ?opp) (sb_levels ?opp b)"
    using sb_reach_inv [OF reach] by (simp add: sb_inv_def)
  then have ne: "\<forall>(p, q) \<in> set (sb_levels ?opp b). q \<noteq> []" by (simp add: lv_ok_def)
  obtain L s where L: "sb_match_levels (sb_symbol b) incoming ts (sb_levels ?opp b) ?s = (L, s)" by fastforce
  let ?fs = "sb_fills (bo_qty incoming) (takeWhile (\<lambda>e. \<not> sb_break incoming (fst e)) (sb_entries ?opp b))"
  from m L have out: "trs = sm_trades s" "n = sm_remaining s"
    by (simp_all add: matchIncoming_def Let_def)
  from sb_match_levels_fills [OF L] pos ne q
  have res: "trs = sb_trades (sb_symbol b) incoming ts ?fs" "n = bo_qty incoming - sb_filled ?fs"
    unfolding out by (simp_all add: sb_entries_def)
  have "sum_list (map trd_qty (sb_trades (sb_symbol b) incoming ts fs)) = sb_filled fs" for fs
    by (induction fs) (auto simp: sb_trade_def)
  moreover have "sorted_wrt (\<lambda>x y. \<not> before_of ?opp (fst y) (fst x)) (lv_flat L)"
    if "lv_ok (before_of ?opp) L" for L :: "BookOrder levels"
    using that
  proof (induction L)
    case (Cons l L)
    obtain p q where l: "l = (p, q)" by (cases l)
    have "\<not> before_of ?opp (fst y) p" if "y \<in> set (lv_flat L)" for y
    proof -
      have "fst y \<in> fst ` set L"
        using that fst_lv_flat [of "before_of ?opp" L] Cons.prems by (auto simp: l lv_ok_Cons)
      with Cons.prems have "before_of ?opp p (fst y)" by (auto simp: l lv_ok_Cons)
      then show ?thesis by (rule side_order.before_asym)
    qed
    moreover have "sorted_wrt (\<lambda>x y. \<not> before_of ?opp (fst y) (fst x)) (map (Pair p) q)"
      by (induction q) (auto simp: side_order.before_irrefl)
    ultimately show ?case using Cons by (auto simp: l lv_ok_Cons sorted_wrt_append)
  qed simp
  ultimately show ?thesis
    using ok by (simp add: res sb_trades_def sb_entries_def)
qed

theorem simple_match_priority_witness:
  "\<exists>n b'. matchIncoming (sb_demo_order 2 Sell 98 8) 3
     (addOrder (sb_demo_order 1 Buy 99 5) (new_order_book default_symbol)) =
     ([sb_trade default_symbol (sb_demo_order 2 Sell 98 8) 3 99 (sb_demo_order 1 Buy 99 5) 5], n, b') \<and> n = 3"
proof -
  let ?b = "addOrder (sb_demo_order 1 Buy 99 5) (new_order_book default_symbol)" and ?o = "sb_demo_order 2 Sell 98 8"
  obtain trs n b' where m: "matchIncoming ?o 3 ?b = (trs, n, b')" by (metis prod_cases3)
  have e: "sb_entries Buy ?b = [(99, 0, sb_demo_order 1 Buy 99 5)]" "sb_symbol ?b = default_symbol"
    by (simp_all add: sb_entries_def addOrder_def sb_demo_order_def Let_def new_order_book_def)
  have f: "bo_side ?o = Sell" "bo_qty ?o = 8" "bo_price ?o = 98" "bo_type ?o = Limit"
    "bo_qty (sb_demo_order 1 Buy 99 5) = 5" by (simp_all add: sb_demo_order_def)
  have brk: "\<not> sb_break ?o 99" by (simp add: sb_break_def f)
  have "0 \<le> bo_qty ?o" "in_i64 (bo_qty ?o)"
    "\<forall>(p, h, r) \<in> set (sb_entries (opposite (bo_side ?o)) ?b). 0 < bo_qty r \<and> in_i64 (bo_qty r)"
    by (simp_all add: f e in_i64_def i64_min_def i64_max_def)
  note res = simple_match_priority [OF sb_reach.add [OF sb_reach.new] this m]
  have "trs = [sb_trade default_symbol ?o 3 99 (sb_demo_order 1 Buy 99 5) 5]"
    using res [THEN conjunct1] by (simp add: f e brk)
  moreover from this have "n + 5 = 8"
    using res [THEN conjunct2, THEN conjunct1] by (simp add: f sb_trade_def)
  ultimately show ?thesis using m by simp
qed

end
