(* ===== verification/Books_Agree.thy ===== *)
theory Books_Agree
  imports Book_Spec Simple_Book_Claims
begin

text \<open>
  The two order books of the library agree.  The lightweight book of \<^verbatim>\<open>order_book.cpp\<close> leaves to
  its client what the L3 book does itself: to refuse an id that is taken, and to rest what an
  order leaves unmatched.  \<open>sb_submit\<close> is that client.  Both books are abstracted to quotes, as
  in \<open>Book_Spec\<close>, and driven by the same commands.
\<close>

section \<open>The lightweight book as an abstract book\<close>

definition sb_quote :: "Price \<times> node \<times> BookOrder \<Rightarrow> quote" where
  "sb_quote e = (case e of (p, h, r) \<Rightarrow> (p, bo_id r, bo_qty r))"

definition sb_quotes :: "OrderBook \<Rightarrow> quote_book" where
  "sb_quotes b = (\<lambda>sd. map sb_quote (sb_entries sd b))"

lemma sb_quote_simp [simp]: "sb_quote (p, h, r) = (p, bo_id r, bo_qty r)"
  by (simp add: sb_quote_def)

lemma fst_sb_quote [simp]: "fst (sb_quote e) = fst e"
  by (simp add: sb_quote_def split: prod.split)

text \<open>Quotes whose quantities are positive and representable.\<close>

definition quotes_ok :: "quote list \<Rightarrow> bool" where
  "quotes_ok xs \<longleftrightarrow> (\<forall>(p, i, m) \<in> set xs. 0 < m \<and> in_i64 m)"

lemma quotes_ok_simps [simp]:
  "quotes_ok []" "quotes_ok ((p, i, m) # xs) \<longleftrightarrow> 0 < m \<and> in_i64 m \<and> quotes_ok xs"
  "quotes_ok (xs @ ys) \<longleftrightarrow> quotes_ok xs \<and> quotes_ok ys"
  by (simp_all add: quotes_ok_def ball_Un conj_assoc)

text \<open>The quotes of one level.\<close>

fun queue_quotes :: "Price \<Rightarrow> BookOrder queue \<Rightarrow> quote list" where
  "queue_quotes p [] = []"
| "queue_quotes p ((h, r) # q) = (p, bo_id r, bo_qty r) # queue_quotes p q"

lemma queue_quotes_map: "map sb_quote (map (Pair p) q) = queue_quotes p q"
  by (induction q) auto

lemma flat_quotes: "map sb_quote (lv_flat ((p, q) # L)) = queue_quotes p q @ map sb_quote (lv_flat L)"
  by (simp only: lv_flat_Cons map_append queue_quotes_map)

lemma queue_quotes_price: "x \<in> set (queue_quotes p q) \<Longrightarrow> fst x = p"
  by (induction p q rule: queue_quotes.induct) auto

lemma sb_trade_quote [simp]: "trade_quote (sb_trade symbol incoming ts p r m) = (p, bo_id r, m)"
  by (simp add: trade_quote_def sb_trade_def)

lemma queue_spec:
  assumes "sb_match_queue symbol incoming ts price q s = (q', s')"
    and "quotes_ok (queue_quotes price q)" "0 \<le> sm_remaining s" "in_i64 (sm_remaining s)"
  shows "\<exists>fs. spec_match (\<lambda>p. True) (sm_remaining s) (queue_quotes price q) =
      (fs, sm_remaining s', queue_quotes price q') \<and>
    map trade_quote (sm_trades s') = map trade_quote (sm_trades s) @ fs \<and>
    0 \<le> sm_remaining s' \<and> in_i64 (sm_remaining s')"
  using assms
proof (induction symbol incoming ts price q s rule: sb_match_queue.induct)
  case (2 symbol incoming ts price h resting q s)
  let ?n = "sm_remaining s" and ?q = "bo_qty resting"
  let ?r = "resting\<lparr>bo_qty := i64 (?q - min ?n ?q)\<rparr>"
  let ?s1 = "s\<lparr>sm_trades := sm_trades s @ [sb_trade symbol incoming ts price resting (min ?n ?q)],
    sm_remaining := i64 (?n - min ?n ?q)\<rparr>"
  have ok: "0 < ?q" "in_i64 ?q" "quotes_ok (queue_quotes price q)" using "2.prems"(2) by auto
  have i: "i64 (?q - min ?n ?q) = ?q - min ?n ?q" "i64 (?n - min ?n ?q) = ?n - min ?n ?q"
    using "2.prems"(3,4) ok by (auto intro!: i64_id simp: in_i64_def i64_min_def i64_max_def)
  have rng: "0 \<le> ?n - min ?n ?q" "in_i64 (?n - min ?n ?q)"
    using "2.prems"(3,4) ok by (auto simp: in_i64_def i64_min_def i64_max_def)
  consider "?n = 0" | "0 < ?n" "?q \<le> ?n" | "0 < ?n" "?n < ?q" using "2.prems"(3) by linarith
  then show ?case
  proof cases
    case 1
    with "2.prems"(1,4) show ?thesis by auto
  next
    case c: 2
    then have zero: "bo_qty ?r = 0" by (simp add: min_def i64_def)
    with c "2.prems"(1) have run: "sb_match_queue symbol incoming ts price q
        (?s1\<lparr>sm_index := (sm_index ?s1)(bo_id resting := None)\<rparr>) = (q', s')" by (simp add: Let_def)
    from "2.IH"(1) [OF _ refl refl refl zero run] c ok(3) rng i show ?thesis by (auto simp: min_def)
  next
    case c: 3
    then have m: "min ?n ?q = ?n" by simp
    with c i(1) have "bo_qty ?r \<noteq> 0" by simp
    with c "2.prems"(1) have run: "sb_match_queue symbol incoming ts price ((h, ?r) # q) ?s1 = (q', s')"
      by (simp add: Let_def)
    have "sm_remaining ?s1 = 0" using c by (simp add: min_def i64_def)
    with run have "s' = ?s1" "q' = (h, ?r) # q" by simp_all
    moreover have "i64 0 = 0" by (simp add: i64_def)
    ultimately show ?thesis using c i by (simp add: min_def)
  qed
qed simp

lemma levels_spec:
  assumes "sb_match_levels symbol incoming ts L s = (L', s')"
    and "quotes_ok (map sb_quote (lv_flat L))" "\<forall>(p, q) \<in> set L. q \<noteq> []"
    and "0 \<le> sm_remaining s" "in_i64 (sm_remaining s)"
  shows "\<exists>fs. spec_match (\<lambda>p. \<not> sb_break incoming p) (sm_remaining s) (map sb_quote (lv_flat L)) =
      (fs, sm_remaining s', map sb_quote (lv_flat L')) \<and>
    map trade_quote (sm_trades s') = map trade_quote (sm_trades s) @ fs"
  using assms
proof (induction symbol incoming ts L s rule: sb_match_levels.induct)
  case (2 symbol incoming ts p q L s)
  obtain x q0 where q: "q = x # q0" using "2.prems"(3) by (cases q) auto
  consider "sm_remaining s = 0" | "0 < sm_remaining s" "sb_break incoming p"
    | "0 < sm_remaining s" "\<not> sb_break incoming p" using "2.prems"(4) by linarith
  then show ?case
  proof cases
    case 1
    with "2.prems"(1) show ?thesis by auto
  next
    case c: 2
    with "2.prems"(1) have same: "L' = (p, q) # L" "s' = s" by auto
    show ?thesis
      using c by (cases x) (simp add: same q)
  next
    case c: 3
    obtain q1 s1 where q1: "sb_match_queue symbol incoming ts p q s = (q1, s1)" by fastforce
    have okq: "quotes_ok (queue_quotes p q)" "quotes_ok (map sb_quote (lv_flat L))"
      using "2.prems"(2) by (simp_all add: flat_quotes del: lv_flat_Cons)
    from queue_spec [OF q1 okq(1) "2.prems"(4,5)] obtain fs where
      fs: "spec_match (\<lambda>p. True) (sm_remaining s) (queue_quotes p q) =
          (fs, sm_remaining s1, queue_quotes p q1)"
        "map trade_quote (sm_trades s1) = map trade_quote (sm_trades s) @ fs"
        "0 \<le> sm_remaining s1" "in_i64 (sm_remaining s1)" by blast
    have all: "\<forall>x \<in> set (queue_quotes p q). \<not> sb_break incoming (fst x)" using c by (auto dest: queue_quotes_price)
    then have "spec_match (\<lambda>p. \<not> sb_break incoming p) n (queue_quotes p q) =
        spec_match (\<lambda>p. True) n (queue_quotes p q)" for n
      by (rule spec_match_all)
    note split = spec_match_append [where ok = "\<lambda>p. \<not> sb_break incoming p", OF all, of "sm_remaining s" "map sb_quote (lv_flat L)",
        unfolded this fs(1)]
    show ?thesis
    proof (cases "q1 = []")
      case True
      with c q1 "2.prems"(1) have run: "sb_match_levels symbol incoming ts L s1 = (L', s')" by simp
      from "2.IH" [OF _ _ q1 [symmetric] refl True run okq(2) _ fs(3,4)] c "2.prems"(3) obtain gs where
        "spec_match (\<lambda>p. \<not> sb_break incoming p) (sm_remaining s1) (map sb_quote (lv_flat L)) =
          (gs, sm_remaining s', map sb_quote (lv_flat L'))"
        "map trade_quote (sm_trades s') = map trade_quote (sm_trades s1) @ gs" by auto
      with split fs(2) True show ?thesis by (simp add: flat_quotes del: lv_flat_Cons)
    next
      case False
      with c q1 "2.prems"(1) have same: "L' = (p, q1) # L" "s' = s1" by auto
      have "sm_remaining s1 = 0" using sb_match_queue_keys [OF q1] False fs(3) by auto
      with split fs(2) show ?thesis by (simp add: same flat_quotes del: lv_flat_Cons)
    qed
  qed
qed simp

section \<open>The operations of the lightweight book\<close>

lemma sb_quotes_match:
  assumes inv: "sb_inv b" and q: "0 \<le> bo_qty incoming" "in_i64 (bo_qty incoming)"
    and ok: "quotes_ok (sb_quotes b (opposite (bo_side incoming)))"
    and m: "matchIncoming incoming ts b = (trs, n, b')"
  defines "opp \<equiv> opposite (bo_side incoming)"
  shows "spec_match (\<lambda>p. \<not> sb_break incoming p) (bo_qty incoming) (sb_quotes b opp) =
      (map trade_quote trs, n, sb_quotes b' opp)"
    and "sb_quotes b' (bo_side incoming) = sb_quotes b (bo_side incoming)"
proof -
  let ?s = "\<lparr>sm_remaining = bo_qty incoming, sm_trades = [], sm_index = sb_index b\<rparr>"
  obtain L s where L: "sb_match_levels (sb_symbol b) incoming ts (sb_levels opp b) ?s = (L, s)" by fastforce
  have b': "b' = (sb_set_levels opp L b)\<lparr>sb_index := sm_index s\<rparr>" "trs = sm_trades s" "n = sm_remaining s"
    using m by (simp_all add: matchIncoming_def L opp_def [symmetric])
  have "\<forall>(p, q) \<in> set (sb_levels opp b). q \<noteq> []" using inv by (simp add: sb_inv_def lv_ok_def)
  from levels_spec [OF L _ this] q ok
  show "spec_match (\<lambda>p. \<not> sb_break incoming p) (bo_qty incoming) (sb_quotes b opp) =
      (map trade_quote trs, n, sb_quotes b' opp)"
    by (simp add: b' sb_quotes_def sb_entries_def opp_def)
  show "sb_quotes b' (bo_side incoming) = sb_quotes b (bo_side incoming)"
    by (cases "bo_side incoming") (simp_all add: b' sb_quotes_def sb_entries_def opp_def)
qed

lemma sb_quotes_add:
  assumes inv: "sb_inv b"
  shows "sb_quotes (addOrder ord b) =
    (sb_quotes b)(bo_side ord := spec_insert (bo_side ord) (bo_price ord, bo_id ord, bo_qty ord) (sb_quotes b (bo_side ord)))"
proof -
  have ok: "lv_ok (before_of sd) (sb_levels sd b)" for sd using inv by (simp add: sb_inv_def)
  have "map sb_quote (lv_flat (lv_append (before_of sd) p (h, r) (sb_levels sd b))) =
      spec_insert sd (p, bo_id r, bo_qty r) (map sb_quote (lv_flat (sb_levels sd b)))" for sd p h r
    by (simp add: side_order.append_priority [OF ok] spec_insert_def filter_map comp_def)
      (simp add: sb_quote_def case_prod_unfold)
  then show ?thesis by (auto simp: fun_eq_iff sb_quotes_def sb_entries_def addOrder_def Let_def)
qed

text \<open>Without duplicate ids the index is complete: it leads to every resting order.\<close>

definition sb_full :: "OrderBook \<Rightarrow> bool" where
  "sb_full b \<longleftrightarrow> (\<forall>sd. \<forall>(p, h, i) \<in> set (sb_keys sd b). sb_index b i = Some \<lparr>loc_side = sd, loc_price = p, loc_it = h\<rparr>)"

lemma sb_full_new: "sb_full (new_order_book s)"
proof -
  have "sb_levels sd (new_order_book s) = []" for sd by (cases sd) (simp_all add: new_order_book_def)
  then show ?thesis by (simp add: sb_full_def sb_keys_def sb_entries_def)
qed

lemma sb_full_ids:
  assumes "sb_inv b" "sb_full b"
  shows "oid \<in> spec_ids (sb_quotes b) \<longleftrightarrow> sb_index b oid \<noteq> None"
proof -
  have ids: "(fst \<circ> snd) ` set (sb_quotes b sd) = (\<lambda>k. snd (snd k)) ` set (sb_keys sd b)" for sd
    by (simp add: sb_quotes_def sb_keys_def image_image skey_def sb_quote_def case_prod_unfold)
  show ?thesis
  proof
    assume "oid \<in> spec_ids (sb_quotes b)"
    then obtain sd p h where "(p, h, oid) \<in> set (sb_keys sd b)" unfolding in_spec_ids ids by auto
    with assms(2) show "sb_index b oid \<noteq> None" by (fastforce simp: sb_full_def)
  next
    assume "sb_index b oid \<noteq> None"
    then obtain loc where "sb_index b oid = Some loc" by blast
    from sb_inv_index [OF assms(1) this] show "oid \<in> spec_ids (sb_quotes b)"
      unfolding in_spec_ids ids by force
  qed
qed

lemma sb_full_add:
  assumes inv: "sb_inv b" and full: "sb_full b" and new: "sb_index b (bo_id ord) = None"
  shows "sb_full (addOrder ord b)"
  unfolding sb_full_def
proof (intro allI ballI, clarify)
  fix sd p h i assume k: "(p, h, i) \<in> set (sb_keys sd (addOrder ord b))"
  have "set (sb_keys sd (addOrder ord b)) = (if sd = bo_side ord then insert (bo_price ord, sb_next b, bo_id ord) (set (sb_keys sd b))
      else set (sb_keys sd b))"
    by (simp add: sb_keys_def sb_entries_def addOrder_def skey_def Let_def)
  with k consider "sd = bo_side ord" "p = bo_price ord" "h = sb_next b" "i = bo_id ord" | "(p, h, i) \<in> set (sb_keys sd b)"
    by (auto split: if_splits)
  then show "sb_index (addOrder ord b) i = Some \<lparr>loc_side = sd, loc_price = p, loc_it = h\<rparr>"
  proof cases
    case 1
    then show ?thesis by (simp add: addOrder_def Let_def)
  next
    case 2
    with full have "sb_index b i = Some \<lparr>loc_side = sd, loc_price = p, loc_it = h\<rparr>" by (auto simp: sb_full_def)
    moreover with new have "i \<noteq> bo_id ord" by auto
    ultimately show ?thesis by (simp add: addOrder_def Let_def)
  qed
qed

text \<open>Orders only leave the queues together with their index entry.\<close>

lemma sb_full_mono:
  assumes full: "sb_full b"
    and keys: "\<And>sd. set (sb_keys sd b') \<subseteq> set (sb_keys sd b)"
    and idx: "\<And>sd p h i. (p, h, i) \<in> set (sb_keys sd b') \<Longrightarrow> sb_index b' i = sb_index b i"
  shows "sb_full b'"
  unfolding sb_full_def
proof (intro allI ballI, clarify)
  fix sd p h i assume k: "(p, h, i) \<in> set (sb_keys sd b')"
  with keys have "(p, h, i) \<in> set (sb_keys sd b)" by blast
  with full have "sb_index b i = Some \<lparr>loc_side = sd, loc_price = p, loc_it = h\<rparr>" by (auto simp: sb_full_def)
  with idx [OF k] show "sb_index b' i = Some \<lparr>loc_side = sd, loc_price = p, loc_it = h\<rparr>" by simp
qed

lemma sb_full_same:
  assumes "sb_full b" "(p, h, i) \<in> set (sb_keys sd b)" "(p', h', i) \<in> set (sb_keys sd' b)"
  shows "p = p' \<and> h = h' \<and> sd = sd'"
proof -
  have "sb_index b i = Some \<lparr>loc_side = sd, loc_price = p, loc_it = h\<rparr>"
    "sb_index b i = Some \<lparr>loc_side = sd', loc_price = p', loc_it = h'\<rparr>"
    using assms by (auto simp: sb_full_def)
  then show ?thesis by simp
qed

lemma sb_full_cancel:
  assumes inv: "sb_inv b" and full: "sb_full b" and loc: "sb_index b oid = Some loc"
  shows "sb_full (sb_cancelled oid loc b)"
    and "sb_quotes (sb_cancelled oid loc b) = spec_cancel oid (sb_quotes b)"
proof -
  note keys = sb_cancelled_keys(1) [OF inv loc]
  have k0: "(loc_price loc, loc_it loc, oid) \<in> set (sb_keys (loc_side loc) b)" by (rule sb_inv_index [OF inv loc])
  have gone: "i \<noteq> oid" if "(p, h, i) \<in> set (sb_keys sd (sb_cancelled oid loc b))" for sd p h i
  proof
    assume "i = oid"
    with that have "(p, h, oid) \<in> set (sb_keys sd b)" by (auto simp: keys split: if_splits)
    from sb_full_same [OF full this k0] that show False by (auto simp: keys key_node_def)
  qed
  show "sb_full (sb_cancelled oid loc b)"
  proof (rule sb_full_mono [OF full])
    show "set (sb_keys sd (sb_cancelled oid loc b)) \<subseteq> set (sb_keys sd b)" for sd by (simp add: keys)
    show "sb_index (sb_cancelled oid loc b) i = sb_index b i"
      if "(p, h, i) \<in> set (sb_keys sd (sb_cancelled oid loc b))" for sd p h i
      using gone [OF that] by (simp add: sb_cancelled_def drop_ids_of_def)
  qed
  have own: "sb_quotes (sb_cancelled oid loc b) sd = (if sd = loc_side loc
      then map sb_quote (filter (\<lambda>(_, k, _). k \<noteq> loc_it loc) (sb_entries sd b)) else sb_quotes b sd)" for sd
  proof -
    from sb_index_entry [OF inv loc] obtain r where
      r: "(loc_price loc, loc_it loc, r) \<in> set (lv_flat (sb_levels (loc_side loc) b))" .
    have "lv_ok (before_of (loc_side loc)) (sb_levels (loc_side loc) b)"
      "distinct (nodes_of (sb_levels (loc_side loc) b))" using inv by (simp_all add: sb_inv_def sb_nodes)
    from sb_erase_spec(2) [OF this(1) r this(2)] show ?thesis
      by (simp add: sb_quotes_def sb_entries_def sb_cancelled_def)
  qed
  have id: "(h \<noteq> loc_it loc \<or> sd \<noteq> loc_side loc) \<longleftrightarrow> bo_id r \<noteq> oid" if e: "(p, h, r) \<in> set (sb_entries sd b)" for sd p h r
  proof -
    from e have k: "(p, h, bo_id r) \<in> set (sb_keys sd b)" by (force simp: sb_keys_def skey_def)
    have "h = loc_it loc \<Longrightarrow> sd = loc_side loc \<Longrightarrow> bo_id r = oid"
    proof -
      assume h: "h = loc_it loc" "sd = loc_side loc"
      have "distinct (map key_node (sb_keys sd b))" using inv by (simp add: sb_inv_def)
      from distinct_map_eqD [OF this k, of "(loc_price loc, loc_it loc, oid)"] k0 h
      show "bo_id r = oid" by (simp add: key_node_def)
    qed
    with sb_full_same [OF full k, of "loc_price loc" "loc_it loc" "loc_side loc"] k0 show ?thesis by blast
  qed
  show "sb_quotes (sb_cancelled oid loc b) = spec_cancel oid (sb_quotes b)"
  proof
    fix sd
    have "filter (\<lambda>e. fst (snd (sb_quote e)) \<noteq> oid) (sb_entries sd b) =
        (if sd = loc_side loc then filter (\<lambda>(_, k, _). k \<noteq> loc_it loc) (sb_entries sd b) else sb_entries sd b)"
    proof (cases "sd = loc_side loc")
      case True
      have "filter (\<lambda>e. fst (snd (sb_quote e)) \<noteq> oid) (sb_entries sd b) =
          filter (\<lambda>(_, k, _). k \<noteq> loc_it loc) (sb_entries sd b)"
      proof (intro filter_cong refl)
        fix e assume e: "e \<in> set (sb_entries sd b)"
        obtain p h r where "e = (p, h, r)" by (cases e)
        with id [of p h r sd] e True show "(fst (snd (sb_quote e)) \<noteq> oid) = (case e of (_, k, _) \<Rightarrow> k \<noteq> loc_it loc)"
          by simp
      qed
      with True show ?thesis by simp
    next
      case False
      have "fst (snd (sb_quote e)) \<noteq> oid" if "e \<in> set (sb_entries sd b)" for e
        using id [of "fst e" "fst (snd e)" "snd (snd e)" sd] that False by (simp add: sb_quote_def case_prod_unfold)
      with False show ?thesis by (simp add: filter_id_conv)
    qed
    then show "sb_quotes (sb_cancelled oid loc b) sd = spec_cancel oid (sb_quotes b) sd"
      unfolding own by (simp add: spec_cancel_def sb_quotes_def filter_map comp_def)
  qed
qed

lemma sb_full_match:
  assumes inv: "sb_inv b" and full: "sb_full b" and m: "matchIncoming incoming ts b = (trs, n, b')"
  shows "sb_full b'" and "\<And>i. sb_index b i = None \<Longrightarrow> sb_index b' i = None"
proof -
  let ?opp = "opposite (bo_side incoming)"
  let ?s = "\<lparr>sm_remaining = bo_qty incoming, sm_trades = [], sm_index = sb_index b\<rparr>"
  obtain L s where L: "sb_match_levels (sb_symbol b) incoming ts (sb_levels ?opp b) ?s = (L, s)" by fastforce
  have b': "b' = (sb_set_levels ?opp L b)\<lparr>sb_index := sm_index s\<rparr>" using m by (simp add: matchIncoming_def L)
  have "lv_ok (before_of ?opp) (sb_levels ?opp b)" using inv by (simp add: sb_inv_def)
  from sb_match_levels_keys [OF L this] obtain k where
    k: "map skey (lv_flat L) = drop k (sb_keys ?opp b)"
      "sm_index s = drop_ids_of ((\<lambda>e. snd (snd e)) ` set (take k (sb_keys ?opp b))) (sb_index b)"
    by (auto simp: sb_keys_def sb_entries_def)
  have keys: "sb_keys sd b' = (if sd = ?opp then drop k (sb_keys sd b) else sb_keys sd b)" for sd
    using k(1) by (simp add: b' sb_keys_def sb_entries_def)
  have idx: "sb_index b' = drop_ids_of ((\<lambda>e. snd (snd e)) ` set (take k (sb_keys ?opp b))) (sb_index b)"
    by (simp add: b' k(2))
  then show "\<And>i. sb_index b i = None \<Longrightarrow> sb_index b' i = None" by (simp add: drop_ids_of_def)
  show "sb_full b'"
  proof (rule sb_full_mono [OF full])
    show "set (sb_keys sd b') \<subseteq> set (sb_keys sd b)" for sd by (simp add: keys set_drop_subset)
    fix sd p h i assume e: "(p, h, i) \<in> set (sb_keys sd b')"
    then have e': "(p, h, i) \<in> set (sb_keys sd b)" by (auto simp: keys dest: in_set_dropD split: if_splits)
    have "i \<notin> (\<lambda>e. snd (snd e)) ` set (take k (sb_keys ?opp b))"
    proof
      assume "i \<in> (\<lambda>e. snd (snd e)) ` set (take k (sb_keys ?opp b))"
      then obtain p' h' where t: "(p', h', i) \<in> set (take k (sb_keys ?opp b))" by auto
      from sb_full_same [OF full e' in_set_takeD [OF t]] have same: "p' = p" "h' = h" "sd = ?opp" by simp_all
      have "distinct (sb_keys ?opp b)"
        using inv by (auto simp: sb_inv_def distinct_map)
      then have "set (take k (sb_keys ?opp b)) \<inter> set (drop k (sb_keys ?opp b)) = {}"
        by (simp add: set_take_disj_set_drop_if_distinct)
      with t e same show False by (auto simp: keys)
    qed
    then show "sb_index b' i = sb_index b i" by (simp add: idx drop_ids_of_def)
  qed
qed

section \<open>Both books under the same commands\<close>

definition book_entry :: "Order \<Rightarrow> u64 \<Rightarrow> BookOrder" where
  "book_entry order ts = \<lparr>bo_id = ord_id order, bo_trader = ord_trader_id order, bo_qty = ord_quantity order,
     bo_price = ord_price order, bo_side = ord_side order, bo_type = ord_type order, bo_ts_ns = ts\<rparr>"

text \<open>A client of the lightweight book: it refuses an id that rests, matches, and adds what is left
  of a day or good-til-cancel limit order.\<close>

definition sb_submit :: "Order \<Rightarrow> u64 \<Rightarrow> OrderBook \<Rightarrow> Trade list \<times> OrderBook" where
  "sb_submit order ts b =
     (if sb_index b (ord_id order) \<noteq> None then ([], b)
      else case matchIncoming (book_entry order ts) ts b of (trs, n, b1) \<Rightarrow>
        (trs, if spec_rests order n then addOrder ((book_entry order ts)\<lparr>bo_qty := n\<rparr>) b1 else b1))"

definition agree :: "L3OrderBook \<Rightarrow> OrderBook \<Rightarrow> bool" where
  "agree b sb \<longleftrightarrow> book_inv b \<and> sb_inv sb \<and> sb_full sb \<and> quotes b = sb_quotes sb"

lemma quotes_inv_ok: "book_inv b \<Longrightarrow> quotes_ok (quotes b sd)"
  using inv_l3_ok [of b sd] l3_ok_range(1)
  by (fastforce simp: quotes_ok_def quotes_def l3_ok_def)

lemma agree_new: "agree (new_book s) (new_order_book s')"
proof -
  have "levels_of sd (new_book s) = []" "sb_levels sd (new_order_book s') = []" for sd
    by (cases sd; simp add: new_book_def new_order_book_def)+
  then show ?thesis
    by (simp add: agree_def book_inv_new sb_inv_new sb_full_new quotes_def sb_quotes_def entries_def sb_entries_def)
qed

lemma sb_break_accepts: "(\<lambda>p. \<not> sb_break (book_entry order ts) p) = accepts order"
  by (cases "ord_type order"; cases "ord_side order")
    (auto simp: fun_eq_iff sb_break_def book_entry_def accepts_def)

lemma agree_submit:
  assumes ag: "agree b sb" and q: "0 \<le> ord_quantity order" "in_i64 (ord_quantity order)" and tif: "ord_tif order \<noteq> FOK"
  shows "map trade_quote (fst (sb_submit order ts sb)) = map trade_quote (trades_of order ts b)"
    and "agree (snd (add_order order ts b)) (snd (sb_submit order ts sb))"
proof -
  have inv: "book_inv b" "sb_inv sb" "sb_full sb" and Q: "quotes b = sb_quotes sb" using ag by (simp_all add: agree_def)
  let ?sd = "ord_side order" and ?opp = "opposite (ord_side order)"
  have spec: "spec_add order (quotes b) = (map trade_quote (trades_of order ts b), quotes (snd (add_order order ts b)))"
    using tif by (intro quotes_add [OF inv(1) q(2)]) simp
  have idx: "ord_id order \<in> spec_ids (quotes b) \<longleftrightarrow> sb_index sb (ord_id order) \<noteq> None"
    unfolding Q by (rule sb_full_ids [OF inv(2,3)])
  have "spec_add order (quotes b) = (map trade_quote (fst (sb_submit order ts sb)), sb_quotes (snd (sb_submit order ts sb))) \<and>
    sb_inv (snd (sb_submit order ts sb)) \<and> sb_full (snd (sb_submit order ts sb))"
  proof (cases "sb_index sb (ord_id order)")
    case (Some loc)
    with idx show ?thesis using inv by (simp add: spec_add_def sb_submit_def Q Let_def)
  next
    case None
    obtain trs n sb1 where m: "matchIncoming (book_entry order ts) ts sb = (trs, n, sb1)" by (metis prod_cases3)
    have e: "bo_side (book_entry order ts) = ?sd" "bo_qty (book_entry order ts) = ord_quantity order"
      by (simp_all add: book_entry_def)
    have "quotes_ok (sb_quotes sb (opposite (bo_side (book_entry order ts))))"
      using quotes_inv_ok [OF inv(1), of ?opp] by (simp add: Q e)
    note sm = sb_quotes_match [OF inv(2) _ _ this m, unfolded e sb_break_accepts, OF q]
    have inv1: "sb_inv sb1" "sb_full sb1" "sb_index sb1 (ord_id order) = None"
      using sb_match_inv [OF inv(2) m] sb_full_match [OF inv(2,3) m] None by simp_all
    have Q1: "sb_quotes sb1 = (quotes b)(?opp := sb_quotes sb1 ?opp)"
      by (simp add: quote_book_eq [where sd = ?sd] sm(2) Q)
    have sub: "sb_submit order ts sb = (trs, if spec_rests order n then addOrder ((book_entry order ts)\<lparr>bo_qty := n\<rparr>) sb1 else sb1)"
      by (simp add: sb_submit_def None m)
    have add: "spec_add order (quotes b) = (map trade_quote trs,
        if spec_rests order n then (quotes b)(?opp := sb_quotes sb1 ?opp, ?sd := spec_insert ?sd (ord_price order, ord_id order, n) (quotes b ?sd))
        else (quotes b)(?opp := sb_quotes sb1 ?opp))"
      using idx None tif sm(1) by (simp add: spec_add_def spec_killed_def Q Let_def)
    show ?thesis
    proof (cases "spec_rests order n")
      case True
      let ?e = "(book_entry order ts)\<lparr>bo_qty := n\<rparr>"
      have e': "bo_side ?e = ?sd" "bo_price ?e = ord_price order" "bo_id ?e = ord_id order" "bo_qty ?e = n"
        by (simp_all add: book_entry_def)
      have "sb_quotes (addOrder ?e sb1) =
          (sb_quotes sb1)(?sd := spec_insert ?sd (ord_price order, ord_id order, n) (sb_quotes sb1 ?sd))"
        using sb_quotes_add [OF inv1(1), of ?e] by (simp only: e')
      moreover have "sb_inv (addOrder ?e sb1)" "sb_full (addOrder ?e sb1)"
        using sb_add_inv [OF inv1(1), of ?e] sb_full_add [OF inv1(1,2), of ?e] inv1(3) by (simp_all add: e')
      ultimately show ?thesis
        using True unfolding sub add by (simp add: quote_book_eq [where sd = ?sd] sm(2) Q)
    next
      case False
      with inv1 Q1 show ?thesis by (simp add: add sub)
    qed
  qed
  with spec add_order_inv [OF inv(1) q(2), of ts]
  show "map trade_quote (fst (sb_submit order ts sb)) = map trade_quote (trades_of order ts b)"
    and "agree (snd (add_order order ts b)) (snd (sb_submit order ts sb))"
    by (simp_all add: agree_def)
qed

lemma agree_cancel:
  assumes ag: "agree b sb"
  shows "\<exists>rpt b' sb'. cancel_order oid ts b = Some (rpt, b') \<and>
    cancelOrder oid sb = Some (rpt_status rpt = Canceled, sb') \<and> agree b' sb'"
proof -
  have inv: "book_inv b" "sb_inv sb" "sb_full sb" and Q: "quotes b = sb_quotes sb" using ag by (simp_all add: agree_def)
  obtain rpt b' where c: "cancel_order oid ts b = Some (rpt, b')" using cancel_order_defined [OF inv(1)] by blast
  note inv' = cancel_order_inv [OF inv(1) c] and Q' = quotes_cancel [OF inv(1) c]
  have live: "rpt_status rpt = Canceled \<longleftrightarrow> sb_index sb oid \<noteq> None"
    using cancel_order_status(1) [OF inv(1) c] sb_full_ids [OF inv(2,3), of oid] spec_ids_quotes [OF inv(1), of oid]
    by (simp add: live_order_def Q)
  show ?thesis
  proof (cases "sb_index sb oid")
    case None
    then have "order_index b oid = None"
      using sb_full_ids [OF inv(2,3), of oid] spec_ids_quotes [OF inv(1), of oid] by (simp add: Q)
    with c have "b' = b" by (simp add: cancel_order_unknown)
    with c live None ag show ?thesis by (simp add: cancelOrder_def)
  next
    case (Some loc)
    have "agree b' (sb_cancelled oid loc sb)"
      using inv' Q' sb_full_cancel [OF inv(2,3) Some] sb_cancel_inv [OF inv(2) cancelOrder_known [OF inv(2) Some]]
      by (simp add: agree_def Q)
    with c live Some cancelOrder_known [OF inv(2) Some] show ?thesis by simp
  qed
qed

text \<open>Commands, what they answer, and runs of both books.\<close>

datatype book_cmd = Submit Order Timestamp | Withdraw OrderId Timestamp

datatype book_out = Traded "quote list" | Withdrawn bool

fun l3_run :: "book_cmd list \<Rightarrow> L3OrderBook \<Rightarrow> (book_out list \<times> L3OrderBook) option" where
  "l3_run [] b = Some ([], b)"
| "l3_run (Submit order ts # cmds) b =
     map_option (\<lambda>(outs, b'). (Traded (map trade_quote (trades_of order ts b)) # outs, b'))
       (l3_run cmds (snd (add_order order ts b)))"
| "l3_run (Withdraw oid ts # cmds) b =
     (case cancel_order oid ts b of
        None \<Rightarrow> None
      | Some (rpt, b1) \<Rightarrow> map_option (\<lambda>(outs, b'). (Withdrawn (rpt_status rpt = Canceled) # outs, b')) (l3_run cmds b1))"

fun sb_run :: "book_cmd list \<Rightarrow> OrderBook \<Rightarrow> (book_out list \<times> OrderBook) option" where
  "sb_run [] b = Some ([], b)"
| "sb_run (Submit order ts # cmds) b =
     map_option (\<lambda>(outs, b'). (Traded (map trade_quote (fst (sb_submit order ts b))) # outs, b'))
       (sb_run cmds (snd (sb_submit order ts b)))"
| "sb_run (Withdraw oid ts # cmds) b =
     (case cancelOrder oid b of
        None \<Rightarrow> None
      | Some (ok, b1) \<Rightarrow> map_option (\<lambda>(outs, b'). (Withdrawn ok # outs, b')) (sb_run cmds b1))"

text \<open>The lightweight book has no fill-or-kill orders.\<close>

fun cmd_ok :: "book_cmd \<Rightarrow> bool" where
  "cmd_ok (Submit order ts) \<longleftrightarrow> 0 \<le> ord_quantity order \<and> in_i64 (ord_quantity order) \<and> ord_tif order \<noteq> FOK"
| "cmd_ok (Withdraw oid ts) \<longleftrightarrow> True"

lemma runs_agree:
  "agree b sb \<Longrightarrow> list_all cmd_ok cmds \<Longrightarrow>
    \<exists>outs b' sb'. l3_run cmds b = Some (outs, b') \<and> sb_run cmds sb = Some (outs, sb') \<and> agree b' sb'"
proof (induction cmds arbitrary: b sb)
  case (Cons cmd cmds)
  then have ok: "cmd_ok cmd" "list_all cmd_ok cmds" by simp_all
  show ?case
  proof (cases cmd)
    case (Submit order ts)
    with ok have o: "0 \<le> ord_quantity order" "in_i64 (ord_quantity order)" "ord_tif order \<noteq> FOK" by simp_all
    note step = agree_submit [OF Cons.prems(1) o, of ts]
    from Cons.IH [OF step(2) ok(2)] show ?thesis by (auto simp: Submit step(1))
  next
    case (Withdraw oid ts)
    from agree_cancel [OF Cons.prems(1), of oid ts] obtain rpt b1 sb1 where
      "cancel_order oid ts b = Some (rpt, b1)" "cancelOrder oid sb = Some (rpt_status rpt = Canceled, sb1)" "agree b1 sb1"
      by blast
    with Cons.IH [OF this(3) ok(2)] show ?thesis by (auto simp: Withdraw)
  qed
qed auto

text \<open>C17. The two order books of the library are equivalent.  Started empty and driven by any
  sequence of submissions and cancels, with quantities that are not negative and no
  fill-or-kill order, the L3 book and the lightweight book (with a client that refuses a taken
  id and rests what is left) both answer every command, make the same trades in the same order
  at the same prices with the same resting orders, accept the same cancels, and end with the
  same quotes in the same priority.\<close>

theorem books_agree:
  assumes "list_all cmd_ok cmds"
  shows "\<exists>outs b sb. l3_run cmds (new_book s) = Some (outs, b) \<and>
    sb_run cmds (new_order_book s) = Some (outs, sb) \<and> quotes b = sb_quotes sb"
  using runs_agree [OF agree_new assms, of s s] by (auto simp: agree_def)

definition demo_cmds :: "book_cmd list" where
  "demo_cmds = [Submit (demo_order 1 Sell Day 101 10) 1, Submit (demo_order 2 Sell Day 100 5) 2,
     Submit (demo_order 3 Buy Day 101 8) 3, Withdraw 1 4, Submit (demo_order 4 Buy GTC 102 4) 5, Withdraw 3 6]"

theorem books_agree_witness:
  "\<exists>b sb. l3_run demo_cmds (new_book default_symbol) =
      Some ([Traded [], Traded [], Traded [(100, 2, 5), (101, 1, 3)], Withdrawn True, Traded [], Withdrawn False], b) \<and>
    sb_run demo_cmds (new_order_book default_symbol) =
      Some ([Traded [], Traded [], Traded [(100, 2, 5), (101, 1, 3)], Withdrawn True, Traded [], Withdrawn False], sb) \<and>
    quotes b = sb_quotes sb"
proof -
  have "list_all cmd_ok demo_cmds"
    by (simp add: demo_cmds_def demo_order_def default_order_def in_i64_def i64_min_def i64_max_def)
  moreover have "map_option fst (l3_run demo_cmds (new_book default_symbol)) =
      Some [Traded [], Traded [], Traded [(100, 2, 5), (101, 1, 3)], Withdrawn True, Traded [], Withdrawn False]"
    by code_simp
  ultimately show ?thesis using books_agree [of demo_cmds default_symbol] by auto
qed

end
