(* ===== verification/Memory_Pool_Threads.thy ===== *)
theory Memory_Pool_Threads
  imports Memory_Pool
begin

text \<open>
  The object pool of \<^verbatim>\<open>src/src/common/memory_pool.h\<close> used by several threads.  \<open>pool_act\<close> is one
  access to shared memory of one thread; \<open>pool_runs A\<close> are the states in which only the
  threads of \<open>A\<close> have allocated.  A thread frees only a pointer that some thread holds, and
  freeing takes it out of the held ones.  Accesses of a thread to the payload and the flag of
  a slot it owns are grouped, the rest is as fine as the source.
\<close>

section \<open>Steps\<close>

text \<open>Where a thread is: inside \<open>allocate\<close> (\<open>A\<close>) or \<open>deallocate\<close> (\<open>F\<close>), with its local variables.\<close>

datatype 'a pool_pc =
  PIdle
| ALoaded 'a u32
| ARead 'a u32 u32
| AWon 'a u32
| AMarked 'a u32
| ACounted 'a u32
| FStart nat
| FLoaded nat u32
| FLinked nat u32
| FDone

text \<open>What a thread may do next; \<open>Fail\<close> is a spurious failure of the weak exchange.\<close>

datatype 'a pool_choice = Alloc 'a | Free nat | Step | Fail

record 'a pool_run =
  pr_pool :: "'a MemoryPool"
  pr_pc :: "nat \<Rightarrow> 'a pool_pc"
  pr_live :: "nat list"

definition pool_start :: "nat \<Rightarrow> 'a pool_run" where
  "pool_start n = \<lparr>pr_pool = new_pool n, pr_pc = (\<lambda>_. PIdle), pr_live = []\<rparr>"

definition goto :: "nat \<Rightarrow> 'a pool_pc \<Rightarrow> 'a pool_run \<Rightarrow> 'a pool_run" where
  "goto t pc s = s\<lparr>pr_pc := (pr_pc s)(t := pc)\<rparr>"

definition on_pool :: "('a MemoryPool \<Rightarrow> 'a MemoryPool) \<Rightarrow> 'a pool_run \<Rightarrow> 'a pool_run" where
  "on_pool f s = s\<lparr>pr_pool := f (pr_pool s)\<rparr>"

definition set_head :: "u32 \<Rightarrow> 'a MemoryPool \<Rightarrow> 'a MemoryPool" where
  "set_head h p = p\<lparr>free_head := h\<rparr>"

definition add_allocated :: "u64 \<Rightarrow> 'a MemoryPool \<Rightarrow> 'a MemoryPool" where
  "add_allocated d p = p\<lparr>allocated := allocated p + d\<rparr>"

fun pool_act_at ::
  "nat set \<Rightarrow> nat \<Rightarrow> 'a pool_pc \<Rightarrow> 'a pool_choice \<Rightarrow> 'a pool_run \<Rightarrow> 'a pool_run option" where
  "pool_act_at A t PIdle (Alloc x) s =
     (if t \<in> A then Some (goto t (ALoaded x (free_head (pr_pool s))) s) else None)"
| "pool_act_at A t (ALoaded x head) Step s =
     (if unat head \<ge> pool_capacity (pr_pool s) then Some (goto t PIdle s)
      else Some (goto t (ARead x head (next_free (slots (pr_pool s) ! unat head))) s))"
| "pool_act_at A t (ARead x head nxt) Step s =
     (if free_head (pr_pool s) = head then Some (goto t (AWon x head) (on_pool (set_head nxt) s))
      else Some (goto t (ALoaded x (free_head (pr_pool s))) s))"
| "pool_act_at A t (ARead x head nxt) Fail s = Some (goto t (ALoaded x (free_head (pr_pool s))) s)"
| "pool_act_at A t (AWon x head) Step s =
     Some (goto t (AMarked x head) (on_pool (set_in_use (unat head) True) s))"
| "pool_act_at A t (AMarked x head) Step s = Some (goto t (ACounted x head) (on_pool (add_allocated 1) s))"
| "pool_act_at A t (ACounted x head) Step s =
     Some (goto t PIdle ((on_pool (set_storage (unat head) (Some x)) s)\<lparr>pr_live := unat head # pr_live s\<rparr>))"
| "pool_act_at A t PIdle (Free i) s =
     (if i \<in> set (pr_live s) \<and> i < pool_capacity (pr_pool s) \<and> in_use (slots (pr_pool s) ! i)
      then Some (goto t (FStart i) ((on_pool (\<lambda>p. set_in_use i False (set_storage i None p)) s)
             \<lparr>pr_live := remove1 i (pr_live s)\<rparr>))
      else None)"
| "pool_act_at A t (FStart i) Step s = Some (goto t (FLoaded i (free_head (pr_pool s))) s)"
| "pool_act_at A t (FLoaded i head) Step s = Some (goto t (FLinked i head) (on_pool (set_next_free i head) s))"
| "pool_act_at A t (FLinked i head) Step s =
     (if free_head (pr_pool s) = head then Some (goto t FDone (on_pool (set_head (word_of_nat i)) s))
      else Some (goto t (FLoaded i (free_head (pr_pool s))) s))"
| "pool_act_at A t (FLinked i head) Fail s = Some (goto t (FLoaded i (free_head (pr_pool s))) s)"
| "pool_act_at A t FDone Step s = Some (goto t PIdle (on_pool (add_allocated (- 1)) s))"
| "pool_act_at A t pc c s = None"

definition pool_act :: "nat set \<Rightarrow> nat \<Rightarrow> 'a pool_choice \<Rightarrow> 'a pool_run \<Rightarrow> 'a pool_run option" where
  "pool_act A t c s = pool_act_at A t (pr_pc s t) c s"

inductive pool_runs :: "nat set \<Rightarrow> nat \<Rightarrow> 'a pool_run \<Rightarrow> bool" for A n where
  start: "pool_runs A n (pool_start n)"
| act: "pool_runs A n s \<Longrightarrow> pool_act A t c s = Some s' \<Longrightarrow> pool_runs A n s'"

section \<open>Ownership\<close>

text \<open>The slot a thread has taken off the free list or out of the live ones.\<close>

fun held :: "'a pool_pc \<Rightarrow> nat set" where
  "held (AWon x h) = {unat h}"
| "held (AMarked x h) = {unat h}"
| "held (ACounted x h) = {unat h}"
| "held (FStart i) = {i}"
| "held (FLoaded i h) = {i}"
| "held (FLinked i h) = {i}"
| "held pc = {}"

fun allocating :: "'a pool_pc \<Rightarrow> bool" where
  "allocating (ALoaded x h) = True"
| "allocating (ARead x h n) = True"
| "allocating pc = False"

text \<open>What the local variables of a thread say of the slots and the free list.\<close>

fun pc_ok :: "'a Slot list \<Rightarrow> nat list \<Rightarrow> 'a pool_pc \<Rightarrow> bool" where
  "pc_ok ss fr (ALoaded x h) \<longleftrightarrow> (unat h < length ss \<longrightarrow> unat h \<in> set fr)"
| "pc_ok ss fr (ARead x h n) \<longleftrightarrow> unat h \<in> set fr \<and> next_free (ss ! unat h) = n"
| "pc_ok ss fr (AMarked x h) \<longleftrightarrow> in_use (ss ! unat h)"
| "pc_ok ss fr (ACounted x h) \<longleftrightarrow> in_use (ss ! unat h)"
| "pc_ok ss fr (FLinked i h) \<longleftrightarrow> next_free (ss ! i) = h"
| "pc_ok ss fr pc \<longleftrightarrow> True"

definition threads_ok :: "nat \<Rightarrow> nat list \<Rightarrow> 'a Slot list \<Rightarrow> nat list \<Rightarrow> (nat \<Rightarrow> 'a pool_pc) \<Rightarrow> bool" where
  "threads_ok a fr ss live pcs \<longleftrightarrow>
     (\<forall>t. held (pcs t) \<subseteq> {..<length ss} - set fr - set live) \<and>
     (\<forall>t u. t \<noteq> u \<longrightarrow> held (pcs t) \<inter> held (pcs u) = {}) \<and>
     (\<forall>t. pc_ok ss fr (pcs t)) \<and> (\<forall>t. allocating (pcs t) \<longrightarrow> t = a)"

definition owned_once :: "nat \<Rightarrow> nat list \<Rightarrow> 'a pool_run \<Rightarrow> bool" where
  "owned_once a fr s \<longleftrightarrow>
     (let p = pr_pool s; ss = slots p; live = pr_live s in
      length ss < 2 ^ 32 \<and> free_chain ss (free_head p) fr \<and> distinct fr \<and> distinct live \<and>
      set fr \<inter> set live = {} \<and> (\<forall>i \<in> set live. i < length ss \<and> in_use (ss ! i)) \<and>
      threads_ok a fr ss live (pr_pc s))"

lemma threads_ok_goto:
  assumes ok: "threads_ok a fr ss live pcs"
    and others: "\<And>u. u \<noteq> t \<Longrightarrow> held (pcs u) \<subseteq> {..<length ss'} - set fr' - set live' \<and> pc_ok ss' fr' (pcs u)"
    and new: "held pc \<subseteq> {..<length ss'} - set fr' - set live'" "pc_ok ss' fr' pc" "allocating pc \<Longrightarrow> t = a"
    and disj: "\<And>u. u \<noteq> t \<Longrightarrow> held (pcs u) \<inter> held pc = {}"
  shows "threads_ok a fr' ss' live' (pcs(t := pc))"
proof -
  let ?pcs = "pcs(t := pc)"
  have "held (?pcs u) \<subseteq> {..<length ss'} - set fr' - set live'" "pc_ok ss' fr' (?pcs u)" for u
    using others [of u] new by (cases "u = t"; simp)+
  moreover have "held (?pcs u) \<inter> held (?pcs v) = {}" if "u \<noteq> v" for u v
    using that disj [of u] disj [of v] ok
    by (cases "u = t"; cases "v = t") (simp_all add: threads_ok_def Int_commute)
  moreover have "allocating (?pcs u) \<Longrightarrow> u = a" for u
    using new ok by (cases "u = t") (simp_all add: threads_ok_def)
  ultimately show ?thesis by (simp add: threads_ok_def)
qed

lemma threads_ok_held:
  assumes "threads_ok a fr ss live pcs" "i \<in> held (pcs t)"
  shows "i < length ss" "i \<notin> set fr" "i \<notin> set live" "u \<noteq> t \<Longrightarrow> i \<notin> held (pcs u)"
  using assms unfolding threads_ok_def by (blast+)

lemma threads_ok_others:
  assumes "threads_ok a fr ss live pcs"
  shows "held (pcs u) \<subseteq> {..<length ss} - set fr - set live" "pc_ok ss fr (pcs u)"
    "u \<noteq> t \<Longrightarrow> held (pcs u) \<inter> held (pcs t) = {}" "allocating (pcs u) \<Longrightarrow> u = a"
  using assms by (simp_all add: threads_ok_def)

lemma owned_once_start: "n < 2 ^ 32 \<Longrightarrow> owned_once a [0..<n] (pool_start n)"
  using free_chain_new [of n] by (simp add: owned_once_def threads_ok_def pool_start_def new_pool_def)

lemma run_frame [simp]:
  "pr_pool (goto t pc s) = pr_pool s" "pr_live (goto t pc s) = pr_live s"
  "pr_pc (goto t pc s) = (pr_pc s)(t := pc)"
  "pr_pool (on_pool f s) = f (pr_pool s)" "pr_live (on_pool f s) = pr_live s" "pr_pc (on_pool f s) = pr_pc s"
  by (simp_all add: goto_def on_pool_def)

lemma pool_update_frame [simp]:
  "slots (set_head h p) = slots p" "slots (add_allocated d p) = slots p"
  "free_head (set_head h p) = h" "free_head (add_allocated d p) = free_head p"
  "free_head (set_in_use i b p) = free_head p" "free_head (set_storage i x p) = free_head p"
  "free_head (set_next_free i h p) = free_head p"
  by (simp_all add: set_head_def add_allocated_def set_in_use_def set_storage_def set_next_free_def)

text \<open>A thread that moves without touching the slots, the list or the held pointers.\<close>

lemma owned_once_goto:
  assumes own: "owned_once a fr s" and pc: "held pc \<subseteq> held (pr_pc s t)" "pc_ok (slots (pr_pool s)) fr pc"
    "allocating pc \<Longrightarrow> t = a"
    and s': "slots (pr_pool s') = slots (pr_pool s)" "free_head (pr_pool s') = free_head (pr_pool s)"
      "pr_live s' = pr_live s" "pr_pc s' = pr_pc s"
  shows "owned_once a fr (goto t pc s')"
proof -
  have ok: "threads_ok a fr (slots (pr_pool s)) (pr_live s) (pr_pc s)" using own by (simp add: owned_once_def Let_def)
  have "threads_ok a fr (slots (pr_pool s)) (pr_live s) ((pr_pc s)(t := pc))"
    by (rule threads_ok_goto [OF ok])
      (use threads_ok_others [OF ok] pc in \<open>blast+\<close>)
  with own show ?thesis by (simp add: owned_once_def Let_def s')
qed

text \<open>A thread that writes the slot it holds.\<close>

lemma owned_once_slot:
  assumes own: "owned_once a fr s" and held: "i \<in> held (pr_pc s t)" and pc: "held pc \<subseteq> held (pr_pc s t)"
    and ok: "pc_ok ((slots (pr_pool s))[i := sl]) fr pc" and alloc: "\<not> allocating pc"
    and s': "slots (pr_pool s') = (slots (pr_pool s))[i := sl]" "free_head (pr_pool s') = free_head (pr_pool s)"
      "pr_live s' = pr_live s" "pr_pc s' = pr_pc s"
  shows "owned_once a fr (goto t pc s')"
proof -
  let ?ss = "slots (pr_pool s)"
  have thr: "threads_ok a fr ?ss (pr_live s) (pr_pc s)" using own by (simp add: owned_once_def Let_def)
  note i = threads_ok_held [OF thr held]
  have others: "pc_ok (?ss[i := sl]) fr (pr_pc s u)" if "u \<noteq> t" for u
    using i(1,2) i(4) [OF that] threads_ok_others(2) [OF thr, of u]
    by (cases "pr_pc s u") (auto simp: nth_list_update)
  have "threads_ok a fr (?ss[i := sl]) (pr_live s) ((pr_pc s)(t := pc))"
  proof (rule threads_ok_goto [OF thr])
    fix u assume u: "u \<noteq> t"
    show "held (pr_pc s u) \<subseteq> {..<length (?ss[i := sl])} - set fr - set (pr_live s) \<and>
        pc_ok (?ss[i := sl]) fr (pr_pc s u)" using threads_ok_others(1) [OF thr, of u] others [OF u] by simp
    show "held (pr_pc s u) \<inter> held pc = {}" using threads_ok_others(3) [OF thr u] pc by blast
  next
    show "held pc \<subseteq> {..<length (?ss[i := sl])} - set fr - set (pr_live s)"
      using threads_ok_others(1) [OF thr, of t] pc by simp
  qed (use ok alloc in simp_all)
  moreover have "free_chain (?ss[i := sl]) (free_head (pr_pool s)) fr"
    using own i by (simp add: free_chain_update owned_once_def Let_def)
  moreover have "j < length ?ss \<and> in_use (?ss[i := sl] ! j)" if "j \<in> set (pr_live s)" for j
    using own i that by (auto simp: owned_once_def Let_def nth_list_update)
  ultimately show ?thesis using own by (simp add: owned_once_def Let_def s')
qed

text \<open>Ownership passes from the free list to an allocating thread, from there to the clients, from the
  clients to a deallocating thread, and from there back to the free list.\<close>

lemma owned_once_take:
  assumes own: "owned_once a fr s" and pc: "pr_pc s a = ARead x h nxt" and head: "free_head (pr_pool s) = h"
  shows "owned_once a (tl fr) (goto a (AWon x h) (on_pool (set_head nxt) s))"
proof -
  have thr: "threads_ok a fr (slots (pr_pool s)) (pr_live s) (pr_pc s)"
    and chain: "free_chain (slots (pr_pool s)) h fr" and dist: "distinct fr" "set fr \<inter> set (pr_live s) = {}"
    using own head by (simp_all add: owned_once_def Let_def)
  from threads_ok_others(2) [OF thr, of a] pc have mem: "unat h \<in> set fr"
    and nxt: "next_free (slots (pr_pool s) ! unat h) = nxt" by simp_all
  obtain fr' where fr: "fr = unat h # fr'" using chain mem by (cases fr) auto
  have "threads_ok a fr' (slots (pr_pool s)) (pr_live s) ((pr_pc s)(a := AWon x h))"
  proof (rule threads_ok_goto [OF thr])
    fix u assume u: "u \<noteq> a"
    then have "\<not> allocating (pr_pc s u)" using threads_ok_others(4) [OF thr] by blast
    with threads_ok_others(1,2) [OF thr, of u] show
      "held (pr_pc s u) \<subseteq> {..<length (slots (pr_pool s))} - set fr' - set (pr_live s) \<and>
        pc_ok (slots (pr_pool s)) fr' (pr_pc s u)" by (cases "pr_pc s u") (auto simp: fr)
    show "held (pr_pc s u) \<inter> held (AWon x h) = {}" using threads_ok_others(1) [OF thr, of u] by (auto simp: fr)
  qed (use chain dist in \<open>auto simp: fr\<close>)
  with own chain nxt show ?thesis by (auto simp: owned_once_def Let_def fr)
qed

lemma owned_once_hand_out:
  assumes own: "owned_once a fr s" and pc: "pr_pc s t = ACounted x h"
  shows "owned_once a fr (goto t PIdle
    ((on_pool (set_storage (unat h) (Some x)) s)\<lparr>pr_live := unat h # pr_live s\<rparr>))"
proof -
  let ?s = "on_pool (set_storage (unat h) (Some x)) s" and ?ss = "slots (pr_pool s)"
  let ?ss' = "?ss[unat h := (?ss ! unat h)\<lparr>storage := Some x\<rparr>]"
  have own': "owned_once a fr (goto t (ACounted x h) ?s)"
    by (rule owned_once_slot [OF own, of "unat h" _ _ "(?ss ! unat h)\<lparr>storage := Some x\<rparr>"])
      (use own pc threads_ok_others(2) [of a fr ?ss "pr_live s" "pr_pc s" t] threads_ok_held(1) [of a fr ?ss "pr_live s" "pr_pc s" "unat h" t]
        in \<open>simp_all add: set_storage_def owned_once_def Let_def\<close>)
  let ?pcs = "(pr_pc s)(t := ACounted x h)"
  have thr: "threads_ok a fr ?ss' (pr_live s) ?pcs"
    and dist: "distinct (pr_live s)" using own' by (simp_all add: owned_once_def Let_def set_storage_def)
  have h: "unat h \<in> held (?pcs t)" by simp
  note i = threads_ok_held [OF thr h]
  have "threads_ok a fr ?ss' (unat h # pr_live s) (?pcs(t := PIdle))"
  proof (rule threads_ok_goto [OF thr])
    fix u assume u: "u \<noteq> t"
    show "held (?pcs u) \<subseteq> {..<length ?ss'} - set fr - set (unat h # pr_live s) \<and> pc_ok ?ss' fr (?pcs u)"
      using threads_ok_others(1,2) [OF thr, of u] i(4) [OF u] by auto
  qed simp_all
  moreover have "in_use (?ss' ! unat h)" using threads_ok_others(2) [OF thr, of t] by simp
  ultimately show ?thesis using own' i by (simp add: owned_once_def Let_def set_storage_def)
qed

lemma owned_once_take_back:
  assumes own: "owned_once a fr s" and pc: "pr_pc s t = PIdle" and i: "i \<in> set (pr_live s)"
  shows "owned_once a fr (goto t (FStart i)
    ((on_pool (\<lambda>p. set_in_use i False (set_storage i None p)) s)\<lparr>pr_live := remove1 i (pr_live s)\<rparr>))"
proof -
  let ?ss = "slots (pr_pool s)"
  let ?ss' = "?ss[i := (?ss ! i)\<lparr>storage := None, in_use := False\<rparr>]"
  have thr: "threads_ok a fr ?ss (pr_live s) (pr_pc s)" and dist: "distinct (pr_live s)"
    and facts: "i < length ?ss" "i \<notin> set fr" "free_chain ?ss (free_head (pr_pool s)) fr"
    using own i by (auto simp: owned_once_def Let_def)
  have out: "i \<notin> held (pr_pc s u)" for u using threads_ok_others(1) [OF thr, of u] i by auto
  have "threads_ok a fr ?ss' (remove1 i (pr_live s)) ((pr_pc s)(t := FStart i))"
  proof (rule threads_ok_goto [OF thr])
    fix u assume u: "u \<noteq> t"
    have "pc_ok ?ss' fr (pr_pc s u)"
      using threads_ok_others(2) [OF thr, of u] facts out [of u] by (cases "pr_pc s u") (auto simp: nth_list_update)
    with threads_ok_others(1) [OF thr, of u] show
      "held (pr_pc s u) \<subseteq> {..<length ?ss'} - set fr - set (remove1 i (pr_live s)) \<and> pc_ok ?ss' fr (pr_pc s u)"
      using dist by auto
    show "held (pr_pc s u) \<inter> held (FStart i) = {}" using out by simp
  qed (use facts dist in simp_all)
  moreover have "slots (set_in_use i False (set_storage i None (pr_pool s))) = ?ss'"
    using facts(1) by (simp add: set_in_use_def set_storage_def)
  moreover have "free_chain ?ss' (free_head (pr_pool s)) fr" using facts by (simp add: free_chain_update)
  ultimately show ?thesis
    using own dist by (auto simp: owned_once_def Let_def nth_list_update)
qed

lemma owned_once_give_back:
  assumes own: "owned_once a fr s" and pc: "pr_pc s t = FLinked i h" and head: "free_head (pr_pool s) = h"
  shows "owned_once a (i # fr) (goto t FDone (on_pool (set_head (word_of_nat i)) s))"
proof -
  let ?ss = "slots (pr_pool s)"
  have thr: "threads_ok a fr ?ss (pr_live s) (pr_pc s)"
    and facts: "length ?ss < 2 ^ 32" "free_chain ?ss h fr" using own head by (simp_all add: owned_once_def Let_def)
  have held: "i \<in> held (pr_pc s t)" by (simp add: pc)
  note i = threads_ok_held [OF thr held]
  have u: "unat (word_of_nat i :: u32) = i" using i(1) facts(1) by (simp add: unat_of_nat)
  have "threads_ok a (i # fr) ?ss (pr_live s) ((pr_pc s)(t := FDone))"
  proof (rule threads_ok_goto [OF thr])
    fix u assume u: "u \<noteq> t"
    then show "held (pr_pc s u) \<subseteq> {..<length ?ss} - set (i # fr) - set (pr_live s) \<and> pc_ok ?ss (i # fr) (pr_pc s u)"
      using threads_ok_others(1,2) [OF thr, of u] i(4) [OF u] by (cases "pr_pc s u") auto
  qed simp_all
  moreover have "next_free (?ss ! i) = h" using threads_ok_others(2) [OF thr, of t] by (simp add: pc)
  ultimately show ?thesis using own i u facts(2) by (simp add: owned_once_def Let_def)
qed

lemma pool_act_owned_once:
  assumes own: "owned_once a fr s" and act: "pool_act {a} t c s = Some s'"
  shows "\<exists>fr'. owned_once a fr' s'"
proof -
  let ?ss = "slots (pr_pool s)"
  have thr: "threads_ok a fr ?ss (pr_live s) (pr_pc s)" and chain: "free_chain ?ss (free_head (pr_pool s)) fr"
    using own by (simp_all add: owned_once_def Let_def)
  note ok = threads_ok_others(2) [OF thr, of t] and alloc = threads_ok_others(4) [OF thr, of t]
  note idx = threads_ok_held(1) [OF thr, of _ t]
  have head: "unat (free_head (pr_pool s)) < length ?ss \<Longrightarrow> unat (free_head (pr_pool s)) \<in> set fr"
    using chain by (cases fr) auto
  note act = act [unfolded pool_act_def]
  show ?thesis
  proof (cases "pr_pc s t")
    case PIdle
    show ?thesis
    proof (cases c)
      case (Alloc x)
      then show ?thesis
        using act PIdle owned_once_goto [OF own, of "ALoaded x (free_head (pr_pool s))" t s] head
        by (auto split: if_splits)
    next
      case (Free i)
      then show ?thesis using act PIdle owned_once_take_back [OF own PIdle] by (auto split: if_splits)
    qed (use act PIdle in simp_all)
  next
    case (ALoaded x h)
    show ?thesis
    proof (cases "c = Step")
      case True
      then show ?thesis
        using act ALoaded ok alloc owned_once_goto [OF own, of PIdle t s]
          owned_once_goto [OF own, of "ARead x h (next_free (?ss ! unat h))" t s]
        by (auto simp: pool_capacity_def split: if_splits)
    qed (use act ALoaded in \<open>cases c; simp\<close>)
  next
    case (ARead x h nxt)
    then have a: "t = a" using alloc by simp
    note retry = owned_once_goto [OF own, of "ALoaded x (free_head (pr_pool s))" t s]
    show ?thesis
      using act ARead a head retry owned_once_take [OF own, of x h nxt]
      by (cases c) (auto split: if_splits)
  next
    case (AWon x h)
    show ?thesis
      using act AWon idx [of "unat h"]
        owned_once_slot [OF own, of "unat h" t "AMarked x h" "(?ss ! unat h)\<lparr>in_use := True\<rparr>"
          "on_pool (set_in_use (unat h) True) s"]
      by (cases c) (auto simp: set_in_use_def)
  next
    case (AMarked x h)
    then show ?thesis
      using act ok owned_once_goto [OF own, of "ACounted x h" t "on_pool (add_allocated 1) s"]
      by (cases c) auto
  next
    case (ACounted x h)
    then show ?thesis using act owned_once_hand_out [OF own ACounted] by (cases c) auto
  next
    case (FStart i)
    then show ?thesis
      using act owned_once_goto [OF own, of "FLoaded i (free_head (pr_pool s))" t s] by (cases c) auto
  next
    case (FLoaded i h)
    then show ?thesis
      using act idx [of i]
        owned_once_slot [OF own, of i t "FLinked i h" "(?ss ! i)\<lparr>next_free := h\<rparr>" "on_pool (set_next_free i h) s"]
      by (cases c) (auto simp: set_next_free_def)
  next
    case (FLinked i h)
    then show ?thesis
      using act owned_once_give_back [OF own FLinked]
        owned_once_goto [OF own, of "FLoaded i (free_head (pr_pool s))" t s]
      by (cases c) (auto split: if_splits)
  next
    case FDone
    then show ?thesis
      using act owned_once_goto [OF own, of PIdle t "on_pool (add_allocated (- 1)) s"] by (cases c) auto
  qed
qed

lemma pool_runs_owned_once: "pool_runs {a} n s \<Longrightarrow> n < 2 ^ 32 \<Longrightarrow> \<exists>fr. owned_once a fr s"
proof (induction rule: pool_runs.induct)
  case start
  then show ?case using owned_once_start by blast
next
  case (act s t c s')
  then show ?case using pool_act_owned_once by blast
qed

text \<open>The pool is safe while one thread allocates.  In every interleaving of one allocating
  thread with any number of deallocating ones, no slot is handed out twice: the held pointers
  are distinct, and each is a slot of the pool that is marked in use and is on no free list.\<close>

theorem pool_one_allocator_safe:
  assumes "pool_runs {a} n s" and "n < 2 ^ 32"
  shows "distinct (pr_live s) \<and> (\<exists>fr. free_chain (slots (pr_pool s)) (free_head (pr_pool s)) fr \<and> distinct fr \<and>
    (\<forall>i \<in> set (pr_live s). i < pool_capacity (pr_pool s) \<and> in_use (slots (pr_pool s) ! i) \<and> i \<notin> set fr))"
  using pool_runs_owned_once [OF assms] by (auto simp: owned_once_def Let_def pool_capacity_def)

text \<open>Runs as lists of a thread and its choice.\<close>

fun pool_trace :: "nat set \<Rightarrow> (nat \<times> 'a pool_choice) list \<Rightarrow> 'a pool_run \<Rightarrow> 'a pool_run option" where
  "pool_trace A [] s = Some s"
| "pool_trace A ((t, c) # cs) s = (case pool_act A t c s of None \<Rightarrow> None | Some s' \<Rightarrow> pool_trace A cs s')"

lemma pool_runs_trace: "pool_runs A n s \<Longrightarrow> pool_trace A cs s = Some s' \<Longrightarrow> pool_runs A n s'"
  by (induction A cs s rule: pool_trace.induct) (auto split: option.splits intro: pool_runs.act)

definition do_alloc :: "nat \<Rightarrow> nat \<Rightarrow> (nat \<times> nat pool_choice) list" where
  "do_alloc t x = (t, Alloc x) # replicate 5 (t, Step)"

definition do_free :: "nat \<Rightarrow> nat \<Rightarrow> (nat \<times> nat pool_choice) list" where
  "do_free t i = (t, Free i) # replicate 4 (t, Step)"

theorem pool_one_allocator_safe_witness:
  "\<exists>s :: nat pool_run. pool_runs {0} 2 s \<and> pr_live s = [1, 0] \<and> distinct (pr_live s)"
proof -
  have "map_option pr_live (pool_trace {0} (do_alloc 0 5 @ do_alloc 0 6) (pool_start 2)) = Some [1, 0]"
    by code_simp
  then obtain s where s: "pool_trace {0} (do_alloc 0 5 @ do_alloc 0 6) (pool_start 2) = Some s" "pr_live s = [1, 0]"
    by auto
  from pool_runs_trace [OF pool_runs.start s(1)] have run: "pool_runs {0} 2 s" .
  moreover from pool_one_allocator_safe [OF run] have "distinct (pr_live s)" by simp
  ultimately show ?thesis using s(2) by blast
qed

text \<open>Two allocating threads can be handed the same slot.  A thread reads the head 0 and its
  successor 1 and is suspended; another allocates both slots of the pool and frees slot 0, so
  that the head is 0 again with no successor; the first thread's exchange succeeds and
  makes slot 1, which is live, the head.  The next allocation hands it out a second time.\<close>

theorem pool_aba:
  "\<exists>s :: nat pool_run. pool_runs {0, 1} 2 s \<and> pr_live s = [1, 0, 1]"
proof -
  have "map_option pr_live (pool_trace {0, 1}
      ([(0, Alloc 10), (0, Step)] @ do_alloc 1 11 @ do_alloc 1 12 @ do_free 1 0 @ replicate 4 (0, Step) @ do_alloc 0 13)
      (pool_start 2)) = Some [1, 0, 1]" by code_simp
  then obtain s :: "nat pool_run" where "pool_trace {0, 1}
      ([(0, Alloc 10), (0, Step)] @ do_alloc 1 11 @ do_alloc 1 12 @ do_free 1 0 @ replicate 4 (0, Step) @ do_alloc 0 13)
      (pool_start 2) = Some s" "pr_live s = [1, 0, 1]" by auto
  with pool_runs_trace [OF pool_runs.start] show ?thesis by blast
qed

section \<open>A thread alone\<close>

text \<open>A thread takes steps until it is idle, at most \<open>k\<close> of them.\<close>

fun solo :: "nat set \<Rightarrow> nat \<Rightarrow> nat \<Rightarrow> 'a pool_run \<Rightarrow> 'a pool_run option" where
  "solo A t 0 s = Some s"
| "solo A t (Suc k) s = (if pr_pc s t = PIdle then Some s
     else case pool_act A t Step s of None \<Rightarrow> None | Some s' \<Rightarrow> solo A t k s')"

text \<open>The pool is obstruction free.  From any state, whatever the other threads have done, a
  thread that runs alone with no spurious failure finishes its operation in at most seven
  steps.\<close>

theorem pool_solo_finishes:
  "\<exists>s'. solo A t 7 s = Some s' \<and> pr_pc s' t = PIdle"
  by (cases "pr_pc s t") (simp_all add: numeral_eq_Suc pool_act_def)

text \<open>Run alone from the idle state, the steps of a thread are the sequential operations: they
  leave the pool that \<open>allocate\<close> and \<open>deallocate\<close> leave and hand out the same slot.\<close>

theorem pool_solo_is_sequential:
  assumes idle: "pr_pc s t = PIdle" and t: "t \<in> A"
  shows "(\<exists>s'. Option.bind (pool_act A t (Alloc x) s) (solo A t 7) = Some s' \<and> pr_pc s' t = PIdle \<and>
      allocate x (pr_pool s) =
        (if pr_live s' = pr_live s then None else Some (hd (pr_live s')), pr_pool s')) \<and>
    (\<forall>p. i \<in> set (pr_live s) \<and> deallocate (Some i) (pr_pool s) = Inr p \<longrightarrow>
      (\<exists>s'. Option.bind (pool_act A t (Free i) s) (solo A t 7) = Some s' \<and> pr_pc s' t = PIdle \<and>
        pr_pool s' = p \<and> pr_live s' = remove1 i (pr_live s)))"
proof
  show "\<exists>s'. Option.bind (pool_act A t (Alloc x) s) (solo A t 7) = Some s' \<and> pr_pc s' t = PIdle \<and>
      allocate x (pr_pool s) = (if pr_live s' = pr_live s then None else Some (hd (pr_live s')), pr_pool s')"
    using idle t
    by (simp add: numeral_eq_Suc pool_act_def allocate_def Let_def set_head_def add_allocated_def
        set_in_use_def set_storage_def pool_capacity_def)
  have same: "i < length xs \<Longrightarrow> xs[i := y, i := z] = xs[i := z]" for xs :: "'a Slot list" and y z by simp
  show "\<forall>p. i \<in> set (pr_live s) \<and> deallocate (Some i) (pr_pool s) = Inr p \<longrightarrow>
      (\<exists>s'. Option.bind (pool_act A t (Free i) s) (solo A t 7) = Some s' \<and> pr_pc s' t = PIdle \<and>
        pr_pool s' = p \<and> pr_live s' = remove1 i (pr_live s))"
    using idle
    by (auto simp: numeral_eq_Suc pool_act_def deallocate_def Let_def set_head_def add_allocated_def
        set_in_use_def set_storage_def set_next_free_def pool_capacity_def split: if_splits)
qed

theorem pool_solo_is_sequential_witness:
  "\<exists>s'. Option.bind (pool_act {0} 0 (Alloc (5 :: nat)) (pool_start 2)) (solo {0} 0 7) = Some s' \<and>
    snd (allocate 5 (new_pool 2)) = pr_pool s'"
proof -
  have "pr_pc (pool_start 2 :: nat pool_run) 0 = PIdle" by (simp add: pool_start_def)
  from pool_solo_is_sequential [OF this, of "{0}" 5] show ?thesis by (auto simp: pool_start_def)
qed

end
