(* ===== verification/Memory_Pool_Orders.thy ===== *)
theory Memory_Pool_Orders
  imports Memory_Pool_Threads Weak_Memory
begin

text \<open>
  The object pool of \<^verbatim>\<open>src/src/common/memory_pool.h\<close> under the memory orders it asks for.  The head
  of the free list is an atomic object: a load, and an exchange that fails, may return any store
  the thread is not yet past; an exchange that succeeds reads the newest one.  What the slots hold
  is plain: \<open>next_free\<close>, which an allocating thread reads before it owns the slot, and the object
  with its flag.  Views count the plain accesses of every thread (\<open>Clk\<close>), so that an access is a
  data race exactly if it conflicts with one that does not happen before it.

  A thread that frees a pointer was handed it by the thread that allocated it, or by one that was:
  it knows what the allocating thread knew.

  The states reached here include those of \<open>Memory_Pool_Threads\<close>, where every load returns the newest
  head (\<open>pool_runs_weak\<close>).
\<close>

section \<open>The machine\<close>

datatype pool_loc = HeadPtr | Clk nat

type_synonym accesses = "(nat \<times> nat) list"

definition knows :: "pool_loc view \<Rightarrow> accesses \<Rightarrow> bool" where
  "knows v L \<longleftrightarrow> list_all (\<lambda>(u, k). k \<le> v (Clk u)) L"

record 'a weak_pool =
  wp_run :: "'a pool_run"
  wp_heads :: "(u32, pool_loc) history"
  wp_view :: "nat \<Rightarrow> pool_loc view"
  wp_given :: "nat \<Rightarrow> pool_loc view"
  wp_writes :: "nat \<Rightarrow> accesses"
  wp_reads :: "nat \<Rightarrow> accesses"
  wp_body :: "nat \<Rightarrow> accesses"
  wp_race :: bool

definition weak_pool_start :: "nat \<Rightarrow> 'a weak_pool" where
  "weak_pool_start n = \<lparr>wp_run = pool_start n, wp_heads = [(0, no_view)], wp_view = (\<lambda>_. no_view),
     wp_given = (\<lambda>_. no_view), wp_writes = (\<lambda>_. []), wp_reads = (\<lambda>_. []), wp_body = (\<lambda>_. []), wp_race = False\<rparr>"

text \<open>The orders of the accesses to the head: the first load, the exchange and its failure.\<close>

record swap_orders =
  first_load :: memory_order
  on_success :: memory_order
  on_failure :: memory_order

definition pool_orders :: swap_orders where
  "pool_orders = \<lparr>first_load = Acquire, on_success = AcqRel, on_failure = Acquire\<rparr>"

definition run_to :: "'a pool_run \<Rightarrow> 'a weak_pool \<Rightarrow> 'a weak_pool" where
  "run_to r s = s\<lparr>wp_run := r\<rparr>"

definition see :: "nat \<Rightarrow> pool_loc view \<Rightarrow> 'a weak_pool \<Rightarrow> 'a weak_pool" where
  "see t v s = s\<lparr>wp_view := (wp_view s)(t := v)\<rparr>"

text \<open>Plain accesses of a thread, each at its next clock.\<close>

definition clock :: "nat \<Rightarrow> 'a weak_pool \<Rightarrow> nat" where
  "clock t s = wp_view s t (Clk t) + 1"

definition read_next :: "nat \<Rightarrow> nat \<Rightarrow> 'a weak_pool \<Rightarrow> 'a weak_pool" where
  "read_next t i s = see t ((wp_view s t)(Clk t := clock t s))
     (s\<lparr>wp_race := wp_race s \<or> \<not> knows (wp_view s t) (wp_writes s i),
        wp_reads := (wp_reads s)(i := (t, clock t s) # wp_reads s i)\<rparr>)"

definition write_next :: "nat \<Rightarrow> nat \<Rightarrow> 'a weak_pool \<Rightarrow> 'a weak_pool" where
  "write_next t i s = see t ((wp_view s t)(Clk t := clock t s))
     (s\<lparr>wp_race := wp_race s \<or> \<not> knows (wp_view s t) (wp_writes s i @ wp_reads s i),
        wp_writes := (wp_writes s)(i := (t, clock t s) # wp_writes s i)\<rparr>)"

definition touch_body :: "nat \<Rightarrow> nat \<Rightarrow> 'a weak_pool \<Rightarrow> 'a weak_pool" where
  "touch_body t i s = see t ((wp_view s t)(Clk t := clock t s))
     (s\<lparr>wp_race := wp_race s \<or> \<not> knows (wp_view s t) (wp_body s i),
        wp_body := (wp_body s)(i := (t, clock t s) # wp_body s i)\<rparr>)"

text \<open>Accesses to the head: a load, or an exchange that fails; and an exchange that succeeds.\<close>

definition load_head :: "memory_order \<Rightarrow> nat \<Rightarrow> nat \<Rightarrow> 'a weak_pool \<Rightarrow> (u32 \<times> 'a weak_pool) option" where
  "load_head mo t i s =
     (if readable HeadPtr (wp_view s t) (wp_heads s) i
      then Some (fst (wp_heads s ! i), see t (load_view mo HeadPtr (wp_heads s) i (wp_view s t)) s)
      else None)"

definition swap_head :: "memory_order \<Rightarrow> nat \<Rightarrow> u32 \<Rightarrow> 'a weak_pool \<Rightarrow> 'a weak_pool" where
  "swap_head mo t x s =
     (let v = load_view mo HeadPtr (wp_heads s) (length (wp_heads s) - 1) (wp_view s t)
      in see t (store_view HeadPtr (wp_heads s) v) (s\<lparr>wp_heads := exchange_history mo HeadPtr x v (wp_heads s)\<rparr>))"

text \<open>The plain accesses that go with a step of \<open>pool_act_at\<close>; the value a race-free read returns is the
  one last written, which is what that step reads.\<close>

fun accessed :: "nat \<Rightarrow> 'a pool_pc \<Rightarrow> 'a pool_choice \<Rightarrow> 'a weak_pool \<Rightarrow> 'a weak_pool" where
  "accessed t (ALoaded x head) Step s =
     (if unat head \<ge> pool_capacity (pr_pool (wp_run s)) then s else read_next t (unat head) s)"
| "accessed t (AWon x head) Step s = touch_body t (unat head) s"
| "accessed t (ACounted x head) Step s =
     (let s = touch_body t (unat head) s in s\<lparr>wp_given := (wp_given s)(unat head := wp_view s t)\<rparr>)"
| "accessed t PIdle (Free i) s = touch_body t i (see t (join (wp_view s t) (wp_given s i)) s)"
| "accessed t (FLoaded i head) Step s = write_next t i s"
| "accessed t pc c s = s"

text \<open>One access, with the store that a load of the head returns.  \<open>oa\<close> and \<open>od\<close> are the orders of
  \<open>allocate\<close> and \<open>deallocate\<close>.\<close>

definition load_and_go :: "memory_order \<Rightarrow> nat \<Rightarrow> nat \<Rightarrow> (u32 \<Rightarrow> 'a pool_pc) \<Rightarrow> 'a weak_pool \<Rightarrow> 'a weak_pool option" where
  "load_and_go mo t i pc s = map_option (\<lambda>(h, s). run_to (goto t (pc h) (wp_run s)) s) (load_head mo t i s)"

fun weak_pool_at ::
  "swap_orders \<Rightarrow> swap_orders \<Rightarrow> nat set \<Rightarrow> nat \<Rightarrow> nat \<Rightarrow> 'a pool_pc \<Rightarrow> 'a pool_choice \<Rightarrow> 'a weak_pool \<Rightarrow> 'a weak_pool option" where
  "weak_pool_at oa od A t i PIdle (Alloc x) s =
     (if t \<in> A then load_and_go (first_load oa) t i (ALoaded x) s else None)"
| "weak_pool_at oa od A t i (ARead x head nxt) Step s =
     (if fst (last (wp_heads s)) = head
      then Some (run_to (goto t (AWon x head) (on_pool (set_head nxt) (wp_run s))) (swap_head (on_success oa) t nxt s))
      else load_and_go (on_failure oa) t i (ALoaded x) s)"
| "weak_pool_at oa od A t i (ARead x head nxt) Fail s = load_and_go (on_failure oa) t i (ALoaded x) s"
| "weak_pool_at oa od A t i (FStart j) Step s = load_and_go (first_load od) t i (FLoaded j) s"
| "weak_pool_at oa od A t i (FLinked j head) Step s =
     (if fst (last (wp_heads s)) = head
      then Some (run_to (goto t FDone (on_pool (set_head (word_of_nat j)) (wp_run s)))
        (swap_head (on_success od) t (word_of_nat j) s))
      else load_and_go (on_failure od) t i (FLoaded j) s)"
| "weak_pool_at oa od A t i (FLinked j head) Fail s = load_and_go (on_failure od) t i (FLoaded j) s"
| "weak_pool_at oa od A t i pc c s = map_option (\<lambda>r. run_to r (accessed t pc c s)) (pool_act_at A t pc c (wp_run s))"

definition weak_pool_act ::
  "swap_orders \<Rightarrow> swap_orders \<Rightarrow> nat set \<Rightarrow> nat \<Rightarrow> nat \<Rightarrow> 'a pool_choice \<Rightarrow> 'a weak_pool \<Rightarrow> 'a weak_pool option" where
  "weak_pool_act oa od A t i c s = weak_pool_at oa od A t i (pr_pc (wp_run s) t) c s"

inductive weak_pool_runs :: "swap_orders \<Rightarrow> swap_orders \<Rightarrow> nat set \<Rightarrow> nat \<Rightarrow> 'a weak_pool \<Rightarrow> bool" for oa od A n where
  start: "weak_pool_runs oa od A n (weak_pool_start n)"
| act: "weak_pool_runs oa od A n s \<Longrightarrow> weak_pool_act oa od A t i c s = Some s' \<Longrightarrow> weak_pool_runs oa od A n s'"

fun weak_pool_trace ::
  "swap_orders \<Rightarrow> swap_orders \<Rightarrow> nat set \<Rightarrow> (nat \<times> nat \<times> 'a pool_choice) list \<Rightarrow> 'a weak_pool \<Rightarrow> 'a weak_pool option" where
  "weak_pool_trace oa od A [] s = Some s"
| "weak_pool_trace oa od A ((t, i, c) # cs) s =
     (case weak_pool_act oa od A t i c s of None \<Rightarrow> None | Some s' \<Rightarrow> weak_pool_trace oa od A cs s')"

lemma weak_pool_runs_trace:
  "weak_pool_runs oa od A n s \<Longrightarrow> weak_pool_trace oa od A cs s = Some s' \<Longrightarrow> weak_pool_runs oa od A n s'"
  by (induction oa od A cs s rule: weak_pool_trace.induct) (auto split: option.splits intro: weak_pool_runs.act)

section \<open>What the threads know\<close>

lemma knows_simps [simp]:
  "knows v []" "knows v ((u, k) # L) \<longleftrightarrow> k \<le> v (Clk u) \<and> knows v L" "knows v (L @ L') \<longleftrightarrow> knows v L \<and> knows v L'"
  by (simp_all add: knows_def)

lemma knows_mono: "v \<le> w \<Longrightarrow> knows v L \<Longrightarrow> knows w L"
  using le_funD [of v w] by (fastforce simp: knows_def list_all_iff intro: order_trans)

lemma join_ge [simp]: "v \<le> join v w" "w \<le> join v w"
  by (simp_all add: le_fun_def)

lemma knows_join: "knows v L \<or> knows w L \<Longrightarrow> knows (join v w) L"
  using knows_mono [of v "join v w"] knows_mono [of w "join v w"] by auto

lemma knows_head [simp]: "knows (v(HeadPtr := i)) L = knows v L"
  by (simp add: knows_def)

lemma knows_clocks: "knows v L \<Longrightarrow> (\<And>u. v (Clk u) \<le> w (Clk u)) \<Longrightarrow> knows w L"
  by (fastforce simp: knows_def list_all_iff intro: order_trans)

lemma knows_tick: "knows v L \<Longrightarrow> knows (v(Clk t := v (Clk t) + 1)) L"
  by (erule knows_mono [rotated]) (simp add: le_fun_def)

definition pushed_log :: "'a weak_pool \<Rightarrow> nat \<Rightarrow> accesses" where
  "pushed_log s i = wp_writes s i @ wp_body s i"

definition slot_log :: "'a weak_pool \<Rightarrow> nat \<Rightarrow> accesses" where
  "slot_log s i = wp_reads s i @ pushed_log s i"

text \<open>The slot an allocating thread is about to take.\<close>

fun approached :: "'a pool_pc \<Rightarrow> nat set" where
  "approached (ALoaded x h) = {unat h}"
| "approached (ARead x h nxt) = {unat h}"
| "approached pc = {}"

abbreviation pcs :: "'a weak_pool \<Rightarrow> nat \<Rightarrow> 'a pool_pc" where "pcs s \<equiv> pr_pc (wp_run s)"
abbreviation capacity_of :: "'a weak_pool \<Rightarrow> nat" where "capacity_of s \<equiv> length (slots (pr_pool (wp_run s)))"

text \<open>
  Whoever owns a slot knows every access to it: the thread that holds it; the message that pushed
  it and every later one, for a free slot, up to the reads of the allocating thread \<open>a\<close>; and what
  goes with a pointer, for a slot that is in use.  A store that \<open>a\<close> may still read names a free slot.
\<close>

definition views_ok :: "nat \<Rightarrow> nat list \<Rightarrow> 'a weak_pool \<Rightarrow> bool" where
  "views_ok a fr s \<longleftrightarrow>
     \<not> wp_race s \<and> wp_heads s \<noteq> [] \<and> fst (last (wp_heads s)) = free_head (pr_pool (wp_run s)) \<and>
     (\<forall>i < length (wp_heads s). snd (wp_heads s ! i) HeadPtr = i) \<and>
     (\<forall>h \<in> set fr. knows (snd (last (wp_heads s))) (pushed_log s h)) \<and>
     (\<forall>i < length (wp_heads s). wp_view s a HeadPtr \<le> i \<longrightarrow> unat (fst (wp_heads s ! i)) < capacity_of s \<longrightarrow>
        unat (fst (wp_heads s ! i)) \<in> set fr \<and> knows (snd (wp_heads s ! i)) (pushed_log s (unat (fst (wp_heads s ! i))))) \<and>
     (\<forall>i u k. (u, k) \<in> set (wp_reads s i) \<longrightarrow> u = a \<and> k \<le> wp_view s a (Clk a)) \<and>
     (\<forall>i \<in> set (pr_live (wp_run s)). knows (wp_given s i) (slot_log s i)) \<and>
     (\<forall>t. \<forall>i \<in> held (pcs s t). knows (wp_view s t) (slot_log s i)) \<and>
     (\<forall>i \<in> approached (pcs s a). i < capacity_of s \<longrightarrow> knows (wp_view s a) (pushed_log s i))"

lemma views_okI:
  assumes "\<not> wp_race s" "wp_heads s \<noteq> []" "fst (last (wp_heads s)) = free_head (pr_pool (wp_run s))"
    "\<And>i. i < length (wp_heads s) \<Longrightarrow> snd (wp_heads s ! i) HeadPtr = i"
    "\<And>h. h \<in> set fr \<Longrightarrow> knows (snd (last (wp_heads s))) (pushed_log s h)"
    "\<And>i. i < length (wp_heads s) \<Longrightarrow> wp_view s a HeadPtr \<le> i \<Longrightarrow> unat (fst (wp_heads s ! i)) < capacity_of s \<Longrightarrow>
        unat (fst (wp_heads s ! i)) \<in> set fr \<and> knows (snd (wp_heads s ! i)) (pushed_log s (unat (fst (wp_heads s ! i))))"
    "\<And>i u k. (u, k) \<in> set (wp_reads s i) \<Longrightarrow> u = a \<and> k \<le> wp_view s a (Clk a)"
    "\<And>i. i \<in> set (pr_live (wp_run s)) \<Longrightarrow> knows (wp_given s i) (slot_log s i)"
    "\<And>t i. i \<in> held (pcs s t) \<Longrightarrow> knows (wp_view s t) (slot_log s i)"
    "\<And>i. i \<in> approached (pcs s a) \<Longrightarrow> i < capacity_of s \<Longrightarrow> knows (wp_view s a) (pushed_log s i)"
  shows "views_ok a fr s"
  unfolding views_ok_def by (intro conjI allI ballI impI; rule assms(1-5,8-10) assms(6,7) [THEN conjunct1] assms(6,7) [THEN conjunct2]; assumption)

lemma views_ok_parts:
  assumes "views_ok a fr s"
  shows "\<not> wp_race s"
    "wp_heads s \<noteq> []"
    "fst (last (wp_heads s)) = free_head (pr_pool (wp_run s))"
    "(\<forall>i < length (wp_heads s). snd (wp_heads s ! i) HeadPtr = i)"
    "(\<forall>h \<in> set fr. knows (snd (last (wp_heads s))) (pushed_log s h))"
    "(\<forall>i < length (wp_heads s). wp_view s a HeadPtr \<le> i \<longrightarrow> unat (fst (wp_heads s ! i)) < capacity_of s \<longrightarrow> unat (fst (wp_heads s ! i)) \<in> set fr \<and> knows (snd (wp_heads s ! i)) (pushed_log s (unat (fst (wp_heads s ! i)))))"
    "(\<forall>i u k. (u, k) \<in> set (wp_reads s i) \<longrightarrow> u = a \<and> k \<le> wp_view s a (Clk a))"
    "(\<forall>i \<in> set (pr_live (wp_run s)). knows (wp_given s i) (slot_log s i))"
    "(\<forall>t. \<forall>i \<in> held (pcs s t). knows (wp_view s t) (slot_log s i))"
    "(\<forall>i \<in> approached (pcs s a). i < capacity_of s \<longrightarrow> knows (wp_view s a) (pushed_log s i))"
  using assms unfolding views_ok_def by - (elim conjE, assumption)+

lemmas views_okD = views_ok_parts [rule_format]

lemma weak_pool_frame [simp]:
  "wp_run (run_to r s) = r" "wp_heads (run_to r s) = wp_heads s" "wp_view (run_to r s) = wp_view s"
  "wp_given (run_to r s) = wp_given s" "wp_writes (run_to r s) = wp_writes s" "wp_reads (run_to r s) = wp_reads s"
  "wp_body (run_to r s) = wp_body s" "wp_race (run_to r s) = wp_race s"
  "wp_run (see t v s) = wp_run s" "wp_heads (see t v s) = wp_heads s" "wp_view (see t v s) = (wp_view s)(t := v)"
  "wp_given (see t v s) = wp_given s" "wp_writes (see t v s) = wp_writes s" "wp_reads (see t v s) = wp_reads s"
  "wp_body (see t v s) = wp_body s" "wp_race (see t v s) = wp_race s"
  "pushed_log (run_to r s) = pushed_log s" "pushed_log (see t v s) = pushed_log s"
  "slot_log (run_to r s) = slot_log s" "slot_log (see t v s) = slot_log s"
  "wp_run (touch_body t i s) = wp_run s" "wp_run (write_next t i s) = wp_run s" "wp_run (read_next t i s) = wp_run s"
  by (simp_all add: run_to_def see_def pushed_log_def slot_log_def fun_eq_iff touch_body_def write_next_def read_next_def)

text \<open>Who owns what, from \<open>owned_once\<close>.\<close>

lemma owners:
  assumes own: "owned_once a fr (wp_run s)"
  shows "i \<in> held (pcs s t) \<Longrightarrow> i \<notin> set fr \<and> i \<notin> set (pr_live (wp_run s)) \<and> i < capacity_of s"
    and "i \<in> held (pcs s t) \<Longrightarrow> i \<in> held (pcs s u) \<Longrightarrow> u = t"
    and "i \<in> approached (pcs s t) \<Longrightarrow> i < capacity_of s \<Longrightarrow> i \<in> set fr \<and> t = a"
    and "i \<in> set fr \<Longrightarrow> i \<notin> set (pr_live (wp_run s)) \<and> i < capacity_of s"
proof -
  let ?ss = "slots (pr_pool (wp_run s))"
  have thr: "threads_ok a fr ?ss (pr_live (wp_run s)) (pcs s)" using own by (simp add: owned_once_def Let_def)
  show "i \<in> held (pcs s t) \<Longrightarrow> i \<notin> set fr \<and> i \<notin> set (pr_live (wp_run s)) \<and> i < capacity_of s"
    using threads_ok_held(1-3) [OF thr] by blast
  show "i \<in> held (pcs s t) \<Longrightarrow> i \<in> held (pcs s u) \<Longrightarrow> u = t" using threads_ok_held(4) [OF thr] by blast
  show "i \<in> approached (pcs s t) \<Longrightarrow> i < capacity_of s \<Longrightarrow> i \<in> set fr \<and> t = a"
    using threads_ok_others(2,4) [OF thr, of t] by (cases "pcs s t") auto
  show "i \<in> set fr \<Longrightarrow> i \<notin> set (pr_live (wp_run s)) \<and> i < capacity_of s"
    using own free_chain_bound [of ?ss _ fr i] by (auto simp: owned_once_def Let_def)
qed

lemma load_view_ge: "readable l v h i \<Longrightarrow> v \<le> load_view mo l h i v"
  by (auto simp: load_view_def readable_def le_fun_def Let_def join_def)

text \<open>A thread that moves and learns, without an access.\<close>

lemma views_ok_move:
  assumes ok: "views_ok a fr s" and v: "wp_view s t \<le> v" and pc: "held p \<subseteq> held (pcs s t)"
    and near: "\<And>i. t = a \<Longrightarrow> i \<in> approached p \<Longrightarrow> i < capacity_of s \<Longrightarrow> knows v (pushed_log s i)"
    and r: "pr_live r = pr_live (wp_run s)" "free_head (pr_pool r) = free_head (pr_pool (wp_run s))"
      "length (slots (pr_pool r)) = capacity_of s" "pr_pc r = pcs s"
  shows "views_ok a fr (run_to (goto t p r) (see t v s))"
proof -
  note D = views_okD [OF ok]
  have ge: "wp_view s u l \<le> ((wp_view s)(t := v)) u l" for u l using v by (simp add: le_fun_def)
  have le: "wp_view s u \<le> ((wp_view s)(t := v)) u" for u using v by simp
  show ?thesis
  proof (rule views_okI)
    fix i assume i: "i < length (wp_heads (run_to (goto t p r) (see t v s)))"
      "wp_view (run_to (goto t p r) (see t v s)) a HeadPtr \<le> i"
      "unat (fst (wp_heads (run_to (goto t p r) (see t v s)) ! i)) < capacity_of (run_to (goto t p r) (see t v s))"
    then have "wp_view s a HeadPtr \<le> i" using order_trans [OF ge [of a HeadPtr]] by simp
    with i D(6) [of i] show "unat (fst (wp_heads (run_to (goto t p r) (see t v s)) ! i)) \<in> set fr \<and>
      knows (snd (wp_heads (run_to (goto t p r) (see t v s)) ! i))
        (pushed_log (run_to (goto t p r) (see t v s)) (unat (fst (wp_heads (run_to (goto t p r) (see t v s)) ! i))))"
      by (simp add: r)
  next
    fix i u k assume "(u, k) \<in> set (wp_reads (run_to (goto t p r) (see t v s)) i)"
    then show "u = a \<and> k \<le> wp_view (run_to (goto t p r) (see t v s)) a (Clk a)"
      using D(7) [of u k i] order_trans [OF _ ge [of a "Clk a"]] by simp
  next
    fix u i assume "i \<in> held (pcs (run_to (goto t p r) (see t v s)) u)"
    then have "i \<in> held (pcs s u)" using pc by (auto simp: r split: if_splits)
    then show "knows (wp_view (run_to (goto t p r) (see t v s)) u) (slot_log (run_to (goto t p r) (see t v s)) i)"
      using knows_mono [OF le D(9)] by simp
  next
    fix i assume "i \<in> approached (pcs (run_to (goto t p r) (see t v s)) a)" "i < capacity_of (run_to (goto t p r) (see t v s))"
    then show "knows (wp_view (run_to (goto t p r) (see t v s)) a) (pushed_log (run_to (goto t p r) (see t v s)) i)"
      using near [of i] D(10) [of i] by (auto simp: r split: if_splits)
  qed (use D(1-5,8) in \<open>simp_all add: r\<close>)
qed

text \<open>A thread that accesses the slot it holds knows of all accesses to it.\<close>

lemma views_ok_own:
  assumes own: "owned_once a fr (wp_run s)" and ok: "views_ok a fr s" and held: "j \<in> held (pcs s t)"
    and s': "wp_run s' = wp_run s" "wp_heads s' = wp_heads s" "wp_given s' = wp_given s" "wp_reads s' = wp_reads s"
      "wp_view s' = (wp_view s)(t := (wp_view s t)(Clk t := clock t s))" "\<not> wp_race s'"
    and others: "\<And>i. i \<noteq> j \<Longrightarrow> pushed_log s' i = pushed_log s i"
    and mine: "\<And>w. knows w (pushed_log s j) \<Longrightarrow> clock t s \<le> w (Clk t) \<Longrightarrow> knows w (pushed_log s' j)"
  shows "views_ok a fr s'"
proof -
  note D = views_okD [OF ok] and O = owners [OF own]
  have j: "j \<notin> set fr" "j \<notin> set (pr_live (wp_run s))" using O(1) [OF held] by simp_all
  have le: "wp_view s u \<le> wp_view s' u" for u by (simp add: s'(5) le_fun_def clock_def)
  have head: "wp_view s' u HeadPtr = wp_view s u HeadPtr" for u by (simp add: s'(5))
  have log: "slot_log s' i = slot_log s i" if "i \<noteq> j" for i using others [OF that] by (simp add: slot_log_def s'(4))
  have free: "pushed_log s' h = pushed_log s h" if "h \<in> set fr" for h using others that j(1) by metis
  show ?thesis
  proof (rule views_okI)
    fix i assume "i < length (wp_heads s')" "wp_view s' a HeadPtr \<le> i" "unat (fst (wp_heads s' ! i)) < capacity_of s'"
    with D(6) [of i] show "unat (fst (wp_heads s' ! i)) \<in> set fr \<and>
        knows (snd (wp_heads s' ! i)) (pushed_log s' (unat (fst (wp_heads s' ! i))))"
      using free by (simp add: s'(1,2) head)
  next
    fix i u k assume "(u, k) \<in> set (wp_reads s' i)"
    then have "u = a" "k \<le> wp_view s a (Clk a)" using D(7) [of u k i] by (simp_all add: s'(4))
    then show "u = a \<and> k \<le> wp_view s' a (Clk a)" using le_funD [OF le [of a], of "Clk a"] by simp
  next
    fix u i assume i: "i \<in> held (pcs s' u)"
    then have known: "knows (wp_view s' u) (slot_log s i)" using knows_mono [OF le D(9)] by (simp add: s'(1))
    show "knows (wp_view s' u) (slot_log s' i)"
    proof (cases "i = j")
      case True
      with i held O(2) [of j t u] have "u = t" by (simp add: s'(1))
      then have "clock t s \<le> wp_view s' u (Clk t)" by (simp add: s'(5))
      with known True show ?thesis using mine by (simp add: slot_log_def s'(4))
    qed (use known log in simp)
  next
    fix i assume i: "i \<in> approached (pcs s' a)" "i < capacity_of s'"
    then have "i \<in> set fr" using O(3) by (simp add: s'(1))
    with j(1) have "i \<noteq> j" by blast
    with i show "knows (wp_view s' a) (pushed_log s' i)" using knows_mono [OF le D(10)] others by (simp add: s'(1))
  next
    fix i assume "i \<in> set (pr_live (wp_run s'))"
    then have "i \<in> set (pr_live (wp_run s))" "i \<noteq> j" using j(2) by (auto simp: s'(1))
    then show "knows (wp_given s' i) (slot_log s' i)" using D(8) [of i] log by (simp add: s'(3))
  next
    fix h assume "h \<in> set fr"
    with D(5) [of h] free show "knows (snd (last (wp_heads s'))) (pushed_log s' h)" by (simp add: s'(2))
  qed (use D(1-4) s' in simp_all)
qed

lemma views_ok_touch:
  assumes "owned_once a fr (wp_run s)" and ok: "views_ok a fr s" and held: "j \<in> held (pcs s t)"
  shows "views_ok a fr (touch_body t j s)" "views_ok a fr (write_next t j s)"
  using views_okD(9) [OF ok held] views_okD(1) [OF ok]
  by (intro views_ok_own [OF assms]; auto simp: touch_body_def write_next_def pushed_log_def slot_log_def see_def)+

text \<open>The allocating thread reads the successor of a free slot.\<close>

lemma views_ok_read:
  assumes own: "owned_once a fr (wp_run s)" and ok: "views_ok a fr s" and near: "j \<in> approached (pcs s a)" "j < capacity_of s"
  shows "views_ok a fr (read_next a j s)"
proof -
  note D = views_okD [OF ok] and O = owners [OF own]
  let ?s' = "read_next a j s"
  have s': "wp_run ?s' = wp_run s" "wp_heads ?s' = wp_heads s" "wp_given ?s' = wp_given s" "pushed_log ?s' = pushed_log s"
    "wp_view ?s' = (wp_view s)(a := (wp_view s a)(Clk a := clock a s))"
    "wp_reads ?s' = (wp_reads s)(j := (a, clock a s) # wp_reads s j)" "\<not> wp_race ?s'"
    using D(1) D(10) [OF near] by (simp_all add: read_next_def see_def pushed_log_def fun_eq_iff)
  have j: "j \<in> set fr" using O(3) [OF near] by simp
  have le: "wp_view s u \<le> wp_view ?s' u" for u by (simp add: s'(5) le_fun_def clock_def)
  have log: "slot_log ?s' i = slot_log s i" if "i \<noteq> j" for i using that by (simp add: slot_log_def s'(4,6))
  show ?thesis
  proof (rule views_okI)
    fix i u k assume "(u, k) \<in> set (wp_reads ?s' i)"
    then show "u = a \<and> k \<le> wp_view ?s' a (Clk a)"
      using D(7) [of u k i] le_funD [OF le [of a], of "Clk a"] by (auto simp: s'(5,6) split: if_splits)
  next
    fix u i assume i: "i \<in> held (pcs ?s' u)"
    then have "i \<noteq> j" using O(1) [of i u] j by (auto simp: s'(1))
    with i show "knows (wp_view ?s' u) (slot_log ?s' i)" using knows_mono [OF le D(9)] log by (simp add: s'(1))
  next
    fix i assume i: "i \<in> set (pr_live (wp_run ?s'))"
    then have "i \<noteq> j" using O(4) [OF j] by (auto simp: s'(1))
    with i show "knows (wp_given ?s' i) (slot_log ?s' i)" using D(8) log by (simp add: s'(1,3))
  next
    fix i assume "i \<in> approached (pcs ?s' a)" "i < capacity_of ?s'"
    then show "knows (wp_view ?s' a) (pushed_log ?s' i)" using knows_mono [OF le D(10)] by (simp add: s'(1,4))
  next
    fix i assume "i < length (wp_heads ?s')" "wp_view ?s' a HeadPtr \<le> i" "unat (fst (wp_heads ?s' ! i)) < capacity_of ?s'"
    with D(6) [of i] show "unat (fst (wp_heads ?s' ! i)) \<in> set fr \<and>
        knows (snd (wp_heads ?s' ! i)) (pushed_log ?s' (unat (fst (wp_heads ?s' ! i))))"
      by (simp add: s'(1,2,4,5))
  qed (use D(2-5) s' in simp_all)
qed

text \<open>Ownership passes with the exchanges of the head and with the pointers.\<close>

lemma heads_appended:
  assumes "hs \<noteq> []" "\<And>i. i < length hs \<Longrightarrow> snd (hs ! i) HeadPtr = i" and i: "i < length (exchange_history mo HeadPtr x v hs)"
  shows "snd (exchange_history mo HeadPtr x v hs ! i) HeadPtr = i"
  using assms by (auto simp: exchange_history_def store_view_def nth_append less_Suc_eq)

lemma exchange_last [simp]:
  "exchange_history mo l x v hs \<noteq> []" "fst (last (exchange_history mo l x v hs)) = x"
  "length (exchange_history mo l x v hs) = Suc (length hs)"
  by (simp_all add: exchange_history_def)

lemma exchange_nth:
  "i < length hs \<Longrightarrow> exchange_history mo l x v hs ! i = hs ! i"
  "exchange_history mo l x v hs ! length hs = last (exchange_history mo l x v hs)"
  by (simp_all add: exchange_history_def nth_append)

lemma exchange_publishes:
  "knows (snd (last hs)) L \<or> releases mo \<and> knows v L \<Longrightarrow> knows (snd (last (exchange_history mo HeadPtr x v hs))) L"
  by (auto simp: exchange_history_def store_view_def intro!: knows_join)

lemma swap_head_frame [simp]:
  "wp_run (swap_head mo t x s) = wp_run s" "wp_given (swap_head mo t x s) = wp_given s"
  "wp_reads (swap_head mo t x s) = wp_reads s" "wp_race (swap_head mo t x s) = wp_race s"
  "pushed_log (swap_head mo t x s) = pushed_log s" "slot_log (swap_head mo t x s) = slot_log s"
  by (simp_all add: swap_head_def Let_def see_def pushed_log_def slot_log_def fun_eq_iff)

lemma swap_head_view:
  "wp_view s u (Clk k) \<le> wp_view (swap_head mo t x s) u (Clk k)"
  "wp_view (swap_head mo t x s) t HeadPtr = length (wp_heads s)"
  "u \<noteq> t \<Longrightarrow> wp_view (swap_head mo t x s) u = wp_view s u"
  by (auto simp: swap_head_def store_view_def load_view_def Let_def)

text \<open>An exchange that puts \<open>x\<close> on top, seen by the messages and by the allocating thread.\<close>

lemma swap_head_messages:
  fixes x :: u32
  assumes ok: "views_ok a fr s" and sub: "\<forall>h \<in> set fr'. h \<in> set fr \<or> releases mo \<and> knows (wp_view s t) (pushed_log s h)"
  defines "s' \<equiv> swap_head mo t x s"
  shows "i < length (wp_heads s') \<Longrightarrow> snd (wp_heads s' ! i) HeadPtr = i"
    and "h \<in> set fr' \<Longrightarrow> knows (snd (last (wp_heads s'))) (pushed_log s h)"
    and "wp_heads s' \<noteq> []" "fst (last (wp_heads s')) = x"
    and "i < length (wp_heads s') \<Longrightarrow> i < length (wp_heads s) \<and> wp_heads s' ! i = wp_heads s ! i \<or> i = length (wp_heads s) \<and> wp_heads s' ! i = last (wp_heads s')"
proof -
  note D = views_okD [OF ok]
  define v where "v = load_view mo HeadPtr (wp_heads s) (length (wp_heads s) - 1) (wp_view s t)"
  have heads: "wp_heads s' = exchange_history mo HeadPtr x v (wp_heads s)" by (simp add: s'_def swap_head_def Let_def v_def)
  have "knows v L" if "knows (wp_view s t) L" for L
    using that by (auto simp: v_def load_view_def knows_def list_all_iff Let_def intro: le_max_iff_disj [THEN iffD2])
  with sub show "h \<in> set fr' \<Longrightarrow> knows (snd (last (wp_heads s'))) (pushed_log s h)"
    unfolding heads using D(5) by (blast intro: exchange_publishes)
  show "i < length (wp_heads s') \<Longrightarrow> snd (wp_heads s' ! i) HeadPtr = i" unfolding heads by (rule heads_appended [OF D(2,4)])
  show "i < length (wp_heads s') \<Longrightarrow> i < length (wp_heads s) \<and> wp_heads s' ! i = wp_heads s ! i \<or> i = length (wp_heads s) \<and> wp_heads s' ! i = last (wp_heads s')"
    unfolding heads by (auto simp: exchange_nth less_Suc_eq)
  show "wp_heads s' \<noteq> []" "fst (last (wp_heads s')) = x" by (simp_all add: heads)
qed

lemma views_ok_take:
  assumes own: "owned_once a fr (wp_run s)" and ok: "views_ok a fr s"
    and pc: "pcs s a = ARead x h nxt" and head: "fst (last (wp_heads s)) = h"
  shows "views_ok a (tl fr) (run_to (goto a (AWon x h) (on_pool (set_head nxt) (wp_run s))) (swap_head mo a nxt s))"
    (is "views_ok a _ ?s'")
proof -
  note D = views_okD [OF ok] and O = owners [OF own]
  have h: "free_head (pr_pool (wp_run s)) = h" using D(3) head by simp
  have thr: "threads_ok a fr (slots (pr_pool (wp_run s))) (pr_live (wp_run s)) (pcs s)"
    and chain: "free_chain (slots (pr_pool (wp_run s))) h fr" using own h by (simp_all add: owned_once_def Let_def)
  from threads_ok_others(2) [OF thr, of a] pc have mem: "unat h \<in> set fr" and next_h: "next_free (slots (pr_pool (wp_run s)) ! unat h) = nxt" by simp_all
  obtain fr' where fr: "fr = unat h # fr'" "free_chain (slots (pr_pool (wp_run s))) nxt fr'"
    using chain mem next_h by (cases fr) auto
  have cap: "unat h < capacity_of s" using O(4) [OF mem] by simp
  have sub: "\<forall>k \<in> set fr'. k \<in> set fr \<or> releases mo \<and> knows (wp_view s a) (pushed_log s k)" by (simp add: fr)
  note M = swap_head_messages [where x = nxt and mo = mo and t = a and fr' = fr', OF ok sub]
  have more: "knows (wp_view s u) L \<Longrightarrow> knows (wp_view (swap_head mo a nxt s) u) L" for u L
    by (erule knows_clocks) (rule swap_head_view(1))
  show ?thesis
  proof (rule views_okI)
    fix i assume i: "i < length (wp_heads ?s')" "wp_view ?s' a HeadPtr \<le> i" "unat (fst (wp_heads ?s' ! i)) < capacity_of ?s'"
    then have last: "wp_heads ?s' ! i = last (wp_heads (swap_head mo a nxt s))" using M(5) [where i = i] by (auto simp: swap_head_view)
    then have "unat nxt < capacity_of s" using i(3) by (simp add: M(4))
    then have "unat nxt \<in> set fr'" using fr(2) by (cases fr') auto
    then show "unat (fst (wp_heads ?s' ! i)) \<in> set (tl fr) \<and> knows (snd (wp_heads ?s' ! i)) (pushed_log ?s' (unat (fst (wp_heads ?s' ! i))))"
      unfolding last using M(2) by (simp add: M(4) fr)
  next
    fix i u k assume "(u, k) \<in> set (wp_reads ?s' i)"
    then show "u = a \<and> k \<le> wp_view ?s' a (Clk a)"
      using D(7) [of u k i] order_trans [OF _ swap_head_view(1) [of s a a]] by simp
  next
    fix u i assume i: "i \<in> held (pcs ?s' u)"
    show "knows (wp_view ?s' u) (slot_log ?s' i)"
    proof (cases "u = a")
      case True
      with i have "i = unat h" by simp
      moreover have "knows (wp_view s a) (wp_reads s (unat h))" using D(7) by (fastforce simp: knows_def list_all_iff)
      moreover have "knows (wp_view s a) (pushed_log s (unat h))" by (rule D(10)) (simp_all add: pc cap)
      ultimately show ?thesis using True by (simp add: more slot_log_def)
    qed (use i D(9) more in simp)
  qed (use D(1,8) M(1-4) in \<open>simp_all add: fr\<close>)
qed

lemma views_ok_give:
  assumes own: "owned_once a fr (wp_run s)" and ok: "views_ok a fr s" and mo: "releases mo"
    and pc: "pcs s t = FLinked j h" and head: "fst (last (wp_heads s)) = h"
  shows "views_ok a (j # fr) (run_to (goto t FDone (on_pool (set_head (word_of_nat j)) (wp_run s))) (swap_head mo t (word_of_nat j) s))"
    (is "views_ok a _ ?s'")
proof -
  note D = views_okD [OF ok] and O = owners [OF own]
  have held: "j \<in> held (pcs s t)" by (simp add: pc)
  have known: "knows (wp_view s t) (pushed_log s j)" using D(9) [OF held] by (simp add: slot_log_def)
  have "capacity_of s < 2 ^ 32" using own by (simp add: owned_once_def Let_def)
  with O(1) [OF held] have j: "unat (word_of_nat j :: u32) = j" by (simp add: unat_of_nat)
  have sub: "\<forall>k \<in> set (j # fr). k \<in> set fr \<or> releases mo \<and> knows (wp_view s t) (pushed_log s k)"
    using mo known by auto
  note M = swap_head_messages [where x = "word_of_nat j" and mo = mo and t = t and fr' = "j # fr", OF ok sub]
  have more: "knows (wp_view s u) L \<Longrightarrow> knows (wp_view (swap_head mo t (word_of_nat j) s) u) L" for u L
    by (erule knows_clocks) (rule swap_head_view(1))
  show ?thesis
  proof (rule views_okI)
    fix i assume i: "i < length (wp_heads ?s')" "wp_view ?s' a HeadPtr \<le> i" "unat (fst (wp_heads ?s' ! i)) < capacity_of ?s'"
    show "unat (fst (wp_heads ?s' ! i)) \<in> set (j # fr) \<and> knows (snd (wp_heads ?s' ! i)) (pushed_log ?s' (unat (fst (wp_heads ?s' ! i))))"
    proof (cases "i < length (wp_heads s)")
      case True
      then have old: "wp_heads (swap_head mo t (word_of_nat j) s) ! i = wp_heads s ! i" using M(5) [where i = i] i(1) by auto
      have "wp_view s a HeadPtr \<le> i"
        using i(2) True swap_head_view(2,3) [where s = s and t = t and mo = mo] by (cases "a = t") (simp_all add: swap_head_view)
      with D(6) [OF True] i(3) show ?thesis by (simp add: old)
    next
      case False
      then have last: "wp_heads ?s' ! i = last (wp_heads (swap_head mo t (word_of_nat j) s))" using M(5) [where i = i] i(1) by auto
      show ?thesis unfolding last using M(2) [where h = j] by (simp add: M(4) j)
    qed
  next
    fix i u k assume "(u, k) \<in> set (wp_reads ?s' i)"
    then show "u = a \<and> k \<le> wp_view ?s' a (Clk a)"
      using D(7) [of u k i] order_trans [OF _ swap_head_view(1) [of s a a]] by simp
  next
    fix u i assume "i \<in> held (pcs ?s' u)"
    then show "knows (wp_view ?s' u) (slot_log ?s' i)" using D(9) more by (simp split: if_splits)
  next
    fix i assume "i \<in> approached (pcs ?s' a)" "i < capacity_of ?s'"
    then show "knows (wp_view ?s' a) (pushed_log ?s' i)" using D(10) more by (simp split: if_splits)
  qed (use D(1,8) M(1-4) in simp_all)
qed

lemma views_ok_hand_out:
  assumes own: "owned_once a fr (wp_run s)" and ok: "views_ok a fr s" and held: "j \<in> held (pcs s t)"
    and r: "pr_live r = j # pr_live (wp_run s)" "free_head (pr_pool r) = free_head (pr_pool (wp_run s))"
      "length (slots (pr_pool r)) = capacity_of s" "pr_pc r = (pcs s)(t := PIdle)"
  shows "views_ok a fr (run_to r (s\<lparr>wp_given := (wp_given s)(j := wp_view s t)\<rparr>))"
proof -
  note D = views_okD [OF ok] and O = owners [OF own]
  let ?s' = "run_to r (s\<lparr>wp_given := (wp_given s)(j := wp_view s t)\<rparr>)"
  have log: "pushed_log ?s' = pushed_log s" "slot_log ?s' = slot_log s" by (simp_all add: pushed_log_def slot_log_def fun_eq_iff)
  show ?thesis
  proof (rule views_okI)
    fix i assume "i \<in> set (pr_live (wp_run ?s'))"
    then show "knows (wp_given ?s' i) (slot_log ?s' i)" unfolding log using D(8) [of i] D(9) [OF held] by (auto simp: r)
  next
    fix u i assume "i \<in> held (pcs ?s' u)"
    then show "knows (wp_view ?s' u) (slot_log ?s' i)" unfolding log using D(9) by (simp add: r split: if_splits)
  next
    fix i assume "i \<in> approached (pcs ?s' a)" "i < capacity_of ?s'"
    then show "knows (wp_view ?s' a) (pushed_log ?s' i)" unfolding log using D(10) by (simp add: r split: if_splits)
  next
    fix i u k assume "(u, k) \<in> set (wp_reads ?s' i)"
    then show "u = a \<and> k \<le> wp_view ?s' a (Clk a)" using D(7) [of u k i] by simp
  qed (use D(1-6) in \<open>simp_all add: r log del: weak_pool_frame(17-20)\<close>)
qed

lemma views_ok_take_back:
  assumes own: "owned_once a fr (wp_run s)" and ok: "views_ok a fr s" and j: "j \<in> set (pr_live (wp_run s))"
    and r: "pr_live r = remove1 j (pr_live (wp_run s))" "free_head (pr_pool r) = free_head (pr_pool (wp_run s))"
      "length (slots (pr_pool r)) = capacity_of s" "pr_pc r = (pcs s)(t := FStart j)"
  shows "views_ok a fr (run_to r (see t (join (wp_view s t) (wp_given s j)) s))"
proof -
  note D = views_okD [OF ok] and O = owners [OF own]
  let ?s' = "run_to r (see t (join (wp_view s t) (wp_given s j)) s)"
  have le: "wp_view s u \<le> wp_view ?s' u" for u by simp
  show ?thesis
  proof (rule views_okI)
    fix i assume i: "i < length (wp_heads ?s')" "wp_view ?s' a HeadPtr \<le> i" "unat (fst (wp_heads ?s' ! i)) < capacity_of ?s'"
    then have "wp_view s a HeadPtr \<le> i" using le_funD [OF le [of a], of HeadPtr] by linarith
    with i D(6) [of i] show "unat (fst (wp_heads ?s' ! i)) \<in> set fr \<and> knows (snd (wp_heads ?s' ! i)) (pushed_log ?s' (unat (fst (wp_heads ?s' ! i))))"
      by (simp add: r)
  next
    fix i u k assume "(u, k) \<in> set (wp_reads ?s' i)"
    then show "u = a \<and> k \<le> wp_view ?s' a (Clk a)" using D(7) [of u k i] le_funD [OF le [of a], of "Clk a"] by simp
  next
    fix u i assume i: "i \<in> held (pcs ?s' u)"
    show "knows (wp_view ?s' u) (slot_log ?s' i)"
    proof (cases "u = t")
      case True
      with i have "i = j" by (simp add: r)
      with True D(8) [OF j] show ?thesis by (simp add: knows_join)
    qed (use i D(9) in \<open>simp add: r\<close>)
  next
    fix i assume "i \<in> approached (pcs ?s' a)" "i < capacity_of ?s'"
    then show "knows (wp_view ?s' a) (pushed_log ?s' i)"
      using knows_mono [OF le D(10)] by (simp add: r split: if_splits)
  next
    fix i assume "i \<in> set (pr_live (wp_run ?s'))"
    then show "knows (wp_given ?s' i) (slot_log ?s' i)" using D(8) [of i] set_remove1_subset [of j] by (auto simp: r)
  qed (use D(1-5) in \<open>simp_all add: r\<close>)
qed

section \<open>One allocating thread\<close>

text \<open>A load, or an exchange that fails: the thread goes on with a value it may read.\<close>

lemma loaded_ok:
  assumes own: "owned_once a fr (wp_run s)" and ok: "views_ok a fr s"
    and load: "load_and_go mo t i p s = Some s'" and acq: "t = a \<Longrightarrow> acquires mo \<or> (\<forall>h. approached (p h) = {})"
    and pc: "\<And>h. held (p h) \<subseteq> held (pcs s t)" "\<And>h. allocating (p h) \<Longrightarrow> t = a"
      "\<And>h. approached (p h) \<noteq> {} \<Longrightarrow> \<exists>x. p h = ALoaded x h \<and> t = a" "\<And>h. approached (p h) = {} \<Longrightarrow> pc_ok (slots (pr_pool (wp_run s))) fr (p h)"
  shows "owned_once a fr (wp_run s') \<and> views_ok a fr s'"
proof -
  note D = views_okD [OF ok]
  from load have i: "readable HeadPtr (wp_view s t) (wp_heads s) i"
    and s': "s' = run_to (goto t (p (fst (wp_heads s ! i))) (wp_run s)) (see t (load_view mo HeadPtr (wp_heads s) i (wp_view s t)) s)"
    by (auto simp: load_and_go_def load_head_def split: if_splits)
  let ?h = "fst (wp_heads s ! i)"
  have free: "unat ?h \<in> set fr \<and> knows (load_view mo HeadPtr (wp_heads s) i (wp_view s t)) (pushed_log s (unat ?h))"
    if a: "approached (p ?h) \<noteq> {}" "unat ?h < capacity_of s"
  proof -
    from pc(3) [OF a(1)] have t: "t = a" by blast
    with acq a(1) have mo: "acquires mo" by auto
    have "snd (wp_heads s ! i) HeadPtr = i" using D(4) i by (simp add: readable_def)
    from acquire_join [OF i this mo] D(6) [of i] i a(2) show ?thesis by (simp add: t readable_def knows_join)
  qed
  have "pc_ok (slots (pr_pool (wp_run s))) fr (p ?h)"
  proof (cases "approached (p ?h) = {}")
    case False
    with pc(3) [OF False] free show ?thesis by auto
  qed (rule pc(4))
  then have "owned_once a fr (wp_run s')"
    using owned_once_goto [OF own pc(1) _ pc(2)] by (simp add: s')
  moreover have "views_ok a fr s'"
    unfolding s'
  proof (rule views_ok_move [OF ok load_view_ge [OF i] pc(1)])
    fix j assume "t = a" "j \<in> approached (p ?h)" "j < capacity_of s"
    moreover from this(2) have "approached (p ?h) \<noteq> {}" by blast
    moreover from pc(3) [OF this] obtain x where "p ?h = ALoaded x ?h" by blast
    moreover from this calculation(2) have "j = unat ?h" by simp
    ultimately show "knows (load_view mo HeadPtr (wp_heads s) i (wp_view s t)) (pushed_log s j)" using free by blast
  qed simp_all
  ultimately show ?thesis ..
qed

text \<open>An access of any thread, when only \<open>a\<close> allocates.  It is enough that its loads acquire and that the
  exchange of \<open>deallocate\<close> releases.\<close>

definition orders_ok :: "swap_orders \<Rightarrow> swap_orders \<Rightarrow> bool" where
  "orders_ok oa od \<longleftrightarrow> acquires (first_load oa) \<and> acquires (on_failure oa) \<and> releases (on_success od)"

lemma see_same [simp]: "see t (wp_view s t) s = s"
  by (simp add: see_def)

lemma plain_step:
  assumes own: "owned_once a fr (wp_run s)" and ok: "views_ok a fr s"
    and p: "held p \<subseteq> held (pcs s t)" "approached p = {}" "\<not> allocating p" "pc_ok (slots (pr_pool (wp_run s))) fr p"
    and r: "slots (pr_pool r) = slots (pr_pool (wp_run s))" "free_head (pr_pool r) = free_head (pr_pool (wp_run s))"
      "pr_live r = pr_live (wp_run s)" "pr_pc r = pcs s"
  shows "owned_once a fr (goto t p r) \<and> views_ok a fr (run_to (goto t p r) s)"
  using owned_once_goto [OF own p(1,4) _ r] views_ok_move [OF ok order_refl p(1) _ r(3,2) _ r(4)] p r(1) by simp

lemma own_step:
  assumes own: "owned_once a fr (wp_run s)" and ok: "views_ok a fr s" and held: "j \<in> held (pcs s t)"
    and s1: "s1 = touch_body t j s \<or> s1 = write_next t j s"
    and p: "held p \<subseteq> held (pcs s t)" "approached p = {}" "\<not> allocating p" "pc_ok ((slots (pr_pool (wp_run s)))[j := sl]) fr p"
    and r: "slots (pr_pool r) = (slots (pr_pool (wp_run s)))[j := sl]" "free_head (pr_pool r) = free_head (pr_pool (wp_run s))"
      "pr_live r = pr_live (wp_run s)" "pr_pc r = pcs s"
  shows "owned_once a fr (goto t p r) \<and> views_ok a fr (run_to (goto t p r) s1)"
proof -
  have "views_ok a fr s1" "wp_run s1 = wp_run s" using s1 views_ok_touch [OF own ok held] by auto
  with views_ok_move [OF this(1) order_refl, of p t r] p(1,2) r have "views_ok a fr (run_to (goto t p r) s1)" by simp
  with owned_once_slot [OF own held p(1,4,3) r] show ?thesis ..
qed

lemma alloc_step:
  assumes own: "owned_once a fr (wp_run s)" and ok: "views_ok a fr s" and pc: "pcs s a = ALoaded x h"
    and act: "weak_pool_act oa od {a} a i Step s = Some s'"
  shows "owned_once a fr (wp_run s') \<and> views_ok a fr s'"
proof (cases "unat h \<ge> capacity_of s")
  case True
  with act pc have "s' = run_to (goto a PIdle (wp_run s)) s" by (auto simp: weak_pool_act_def pool_capacity_def)
  then show ?thesis using plain_step [OF own ok, of PIdle a "wp_run s"] by simp
next
  case False
  let ?p = "ARead x h (next_free (slots (pr_pool (wp_run s)) ! unat h))" and ?s = "read_next a (unat h) s"
  from act pc False have s': "s' = run_to (goto a ?p (wp_run s)) ?s" by (auto simp: weak_pool_act_def pool_capacity_def)
  have near: "unat h \<in> approached (pcs s a)" "unat h < capacity_of s" using pc False by simp_all
  note ok' = views_ok_read [OF own ok near]
  have "views_ok a fr (run_to (goto a ?p (wp_run ?s)) (see a (wp_view ?s a) ?s))"
    by (rule views_ok_move [OF ok' order_refl]) (use views_okD(10) [OF ok'] near pc in \<open>simp_all\<close>)
  then have "views_ok a fr s'" by (simp add: s')
  moreover have "unat h \<in> set fr" using owners(3) [OF own near] by simp
  then have "owned_once a fr (wp_run s')" unfolding s' using owned_once_goto [OF own, of ?p a "wp_run s"] by simp
  ultimately show ?thesis by blast
qed

lemma hand_out_step:
  assumes own: "owned_once a fr (wp_run s)" and ok: "views_ok a fr s" and pc: "pcs s t = ACounted x h"
    and act: "weak_pool_act oa od {a} t i Step s = Some s'"
  shows "owned_once a fr (wp_run s') \<and> views_ok a fr s'"
proof -
  let ?s = "touch_body t (unat h) s"
  define r where "r = goto t PIdle ((on_pool (set_storage (unat h) (Some x)) (wp_run s))\<lparr>pr_live := unat h # pr_live (wp_run s)\<rparr>)"
  from act pc have s': "s' = run_to r (?s\<lparr>wp_given := (wp_given ?s)(unat h := wp_view ?s t)\<rparr>)"
    by (simp add: weak_pool_act_def r_def Let_def)
  have "views_ok a fr ?s" by (rule views_ok_touch(1) [OF own ok]) (simp add: pc)
  then have "views_ok a fr s'"
    unfolding s' by (rule views_ok_hand_out [rotated]) (simp_all add: own r_def pc set_storage_def)
  with owned_once_hand_out [OF own pc] show ?thesis by (simp add: s' r_def)
qed

lemma take_back_step:
  assumes own: "owned_once a fr (wp_run s)" and ok: "views_ok a fr s" and pc: "pcs s t = PIdle"
    and act: "weak_pool_act oa od {a} t i (Free j) s = Some s'"
  shows "owned_once a fr (wp_run s') \<and> views_ok a fr s'"
proof -
  define r where "r = goto t (FStart j) ((on_pool (\<lambda>p. set_in_use j False (set_storage j None p)) (wp_run s))\<lparr>pr_live := remove1 j (pr_live (wp_run s))\<rparr>)"
  define s1 where "s1 = run_to r (see t (join (wp_view s t) (wp_given s j)) s)"
  from act pc have j: "j \<in> set (pr_live (wp_run s))" and "s' = run_to r (touch_body t j (see t (join (wp_view s t) (wp_given s j)) s))"
    by (auto simp: weak_pool_act_def r_def split: if_splits)
  then have s': "s' = touch_body t j s1" by (simp add: s1_def run_to_def touch_body_def see_def clock_def)
  have own': "owned_once a fr r" unfolding r_def by (rule owned_once_take_back [OF own pc j])
  have "views_ok a fr s1"
    unfolding s1_def by (rule views_ok_take_back [OF own ok j]) (simp_all add: r_def set_in_use_def set_storage_def)
  then have "views_ok a fr s'" unfolding s' by (rule views_ok_touch(1) [rotated]) (use own' in \<open>simp_all add: s1_def r_def\<close>)
  with own' show ?thesis by (simp add: s' s1_def)
qed

lemma weak_pool_act_ok:
  assumes own: "owned_once a fr (wp_run s)" and ok: "views_ok a fr s" and mo: "orders_ok oa od"
    and act: "weak_pool_act oa od {a} t i c s = Some s'"
  shows "\<exists>fr'. owned_once a fr' (wp_run s') \<and> views_ok a fr' s'"
proof -
  let ?r = "wp_run s"
  let ?ss = "slots (pr_pool ?r)"
  note D = views_okD [OF ok] and load = loaded_ok [OF own ok] and plain = plain_step [OF own ok] and touch = own_step [OF own ok]
  have thr: "threads_ok a fr ?ss (pr_live ?r) (pcs s)" using own by (simp add: owned_once_def Let_def)
  note pcok = threads_ok_others(2) [OF thr, of t] and alloc = threads_ok_others(4) [OF thr, of t] and idx = threads_ok_held(1) [OF thr, of _ t]
  have mo': "acquires (first_load oa)" "acquires (on_failure oa)" "releases (on_success od)"
    using mo by (simp_all add: orders_ok_def)
  note act' = act [unfolded weak_pool_act_def]
  show ?thesis
  proof (cases "pcs s t")
    case PIdle
    show ?thesis
    proof (cases c)
      case (Alloc x)
      with act' PIdle have "t = a" "load_and_go (first_load oa) t i (ALoaded x) s = Some s'" by (simp_all split: if_splits)
      with load [OF this(2)] mo'(1) show ?thesis by auto
    next
      case (Free j)
      with take_back_step [OF own ok PIdle] act show ?thesis by blast
    qed (use act' PIdle in simp_all)
  next
    case (ALoaded x h)
    then have a: "t = a" using alloc by simp
    have "c = Step" using act' ALoaded by (cases c) simp_all
    with alloc_step [OF own ok] act ALoaded a show ?thesis by blast
  next
    case (ARead x h nxt)
    then have a: "t = a" using alloc by simp
    have "load_and_go (on_failure oa) t i (ALoaded x) s = Some s' \<Longrightarrow> ?thesis"
      using load [of "on_failure oa" t i "ALoaded x" s'] mo'(2) a by auto
    moreover have "fst (last (wp_heads s)) = h \<Longrightarrow>
        s' = run_to (goto t (AWon x h) (on_pool (set_head nxt) ?r)) (swap_head (on_success oa) t nxt s) \<Longrightarrow> ?thesis"
      using views_ok_take [OF own ok, of x h nxt "on_success oa"] owned_once_take [OF own, of x h nxt] ARead a D(3) by auto
    ultimately show ?thesis using act' ARead by (cases c) (auto split: if_splits)
  next
    case (AWon x h)
    then show ?thesis
      using act' idx [of "unat h"] touch [of "unat h" t "touch_body t (unat h) s" "AMarked x h" "(?ss ! unat h)\<lparr>in_use := True\<rparr>" "on_pool (set_in_use (unat h) True) ?r"]
      by (cases c) (auto simp: set_in_use_def)
  next
    case (AMarked x h)
    then show ?thesis using act' pcok plain [of "ACounted x h" t "on_pool (add_allocated 1) ?r"] by (cases c) auto
  next
    case (ACounted x h)
    have "c = Step" using act' ACounted by (cases c) simp_all
    with hand_out_step [OF own ok ACounted] act show ?thesis by blast
  next
    case (FStart j)
    then show ?thesis using act' load [of "first_load od" t i "FLoaded j" s'] by (cases c) auto
  next
    case (FLoaded j h)
    then show ?thesis
      using act' idx [of j] touch [of j t "write_next t j s" "FLinked j h" "(?ss ! j)\<lparr>next_free := h\<rparr>" "on_pool (set_next_free j h) ?r"]
      by (cases c) (auto simp: set_next_free_def)
  next
    case (FLinked j h)
    have "load_and_go (on_failure od) t i (FLoaded j) s = Some s' \<Longrightarrow> ?thesis"
      using load [of "on_failure od" t i "FLoaded j" s'] FLinked by auto
    moreover have "fst (last (wp_heads s)) = h \<Longrightarrow>
        s' = run_to (goto t FDone (on_pool (set_head (word_of_nat j)) ?r)) (swap_head (on_success od) t (word_of_nat j) s) \<Longrightarrow> ?thesis"
      using views_ok_give [OF own ok mo'(3) FLinked] owned_once_give_back [OF own FLinked] D(3) by auto
    ultimately show ?thesis using act' FLinked by (cases c) (auto split: if_splits)
  next
    case FDone
    then show ?thesis using act' plain [of PIdle t "on_pool (add_allocated (- 1)) ?r"] by (cases c) auto
  qed
qed

lemma views_ok_start: "n < 2 ^ 32 \<Longrightarrow> views_ok a [0..<n] (weak_pool_start n)"
  by (rule views_okI)
    (auto simp: weak_pool_start_def pool_start_def new_pool_def pushed_log_def slot_log_def)

lemma weak_pool_runs_ok:
  assumes "weak_pool_runs oa od {a} n s" and "n < 2 ^ 32" and "orders_ok oa od"
  shows "\<exists>fr. owned_once a fr (wp_run s) \<and> views_ok a fr s"
  using assms(1)
proof (induction rule: weak_pool_runs.induct)
  case start
  have "owned_once a [0..<n] (wp_run (weak_pool_start n))" using owned_once_start [OF assms(2)] by (simp add: weak_pool_start_def)
  with views_ok_start [OF assms(2)] show ?case by blast
next
  case (act s t i c s')
  then show ?case using weak_pool_act_ok assms(3) by blast
qed

text \<open>C25. The memory orders of the pool suffice for one allocating thread.  Whatever old values the loads
  of the head return and wherever an exchange fails, no run of one allocating and any number of
  deallocating threads has a data race on a slot or on its link, and no slot is handed out twice:
  the held pointers are distinct, and each is a slot of the pool that is marked in use and is on
  no free list.  It is enough that \<open>allocate\<close> loads with acquire and \<open>deallocate\<close> exchanges with
  release.\<close>

theorem pool_orders_suffice:
  assumes "weak_pool_runs pool_orders pool_orders {a} n s" and "n < 2 ^ 32"
  shows "\<not> wp_race s \<and> distinct (pr_live (wp_run s)) \<and>
    (\<exists>fr. free_chain (slots (pr_pool (wp_run s))) (fst (last (wp_heads s))) fr \<and> distinct fr \<and>
      (\<forall>i \<in> set (pr_live (wp_run s)). i < pool_capacity (pr_pool (wp_run s)) \<and>
        in_use (slots (pr_pool (wp_run s)) ! i) \<and> i \<notin> set fr))"
proof -
  have "orders_ok pool_orders pool_orders" by (simp add: orders_ok_def pool_orders_def)
  from weak_pool_runs_ok [OF assms this] obtain fr where "owned_once a fr (wp_run s)" "views_ok a fr s" by blast
  with views_okD(1,3) [OF this(2)] show ?thesis by (auto simp: owned_once_def Let_def pool_capacity_def)
qed

text \<open>An operation as a list of accesses; \<open>i\<close> is the store that its load of the head returns.\<close>

definition weak_alloc :: "nat \<Rightarrow> nat \<Rightarrow> nat \<Rightarrow> (nat \<times> nat \<times> nat pool_choice) list" where
  "weak_alloc t i x = map (\<lambda>c. (t, i, c)) (Alloc x # replicate 5 Step)"

definition weak_free :: "nat \<Rightarrow> nat \<Rightarrow> nat \<Rightarrow> (nat \<times> nat \<times> nat pool_choice) list" where
  "weak_free t i j = map (\<lambda>c. (t, i, c)) (Free j # replicate 4 Step)"

text \<open>Thread 1 frees what thread 0 allocated; then thread 0 allocates, having loaded an old head.\<close>

definition freed_elsewhere :: "(nat \<times> nat \<times> nat pool_choice) list" where
  "freed_elsewhere = weak_alloc 0 0 5 @ [(0, 1, Alloc 6), (0, 0, Step)] @ weak_free 1 1 0 @ [(0, 2, Step)] @ replicate 5 (0, 0, Step)"

theorem pool_orders_suffice_witness:
  "\<exists>s :: nat weak_pool. weak_pool_runs pool_orders pool_orders {0} 2 s \<and> pr_live (wp_run s) = [0] \<and> length (wp_heads s) = 4 \<and> \<not> wp_race s"
proof -
  have "map_option (\<lambda>s. (pr_live (wp_run s), length (wp_heads s)))
      (weak_pool_trace pool_orders pool_orders {0} freed_elsewhere (weak_pool_start 2)) = Some ([0], 4)" by code_simp
  then obtain s where s: "weak_pool_trace pool_orders pool_orders {0} freed_elsewhere (weak_pool_start 2) = Some s"
    "pr_live (wp_run s) = [0]" "length (wp_heads s) = 4" by auto
  from weak_pool_runs_trace [OF weak_pool_runs.start s(1)] have run: "weak_pool_runs pool_orders pool_orders {0} 2 s" .
  from pool_orders_suffice [OF run] have "\<not> wp_race s" by simp
  with run s(2,3) show ?thesis by blast
qed

section \<open>What cannot be dropped\<close>

definition pool_racy :: "swap_orders \<Rightarrow> swap_orders \<Rightarrow> nat set \<Rightarrow> bool" where
  "pool_racy oa od A \<longleftrightarrow> (\<exists>s :: nat weak_pool. weak_pool_runs oa od A 2 s \<and> wp_race s)"

lemma pool_racyI:
  assumes "map_option wp_race (weak_pool_trace oa od A cs (weak_pool_start 2 :: nat weak_pool)) = Some True"
  shows "pool_racy oa od A"
  using assms weak_pool_runs_trace [OF weak_pool_runs.start [of oa od A 2]] by (auto simp: pool_racy_def)

definition freed_then_loaded :: "(nat \<times> nat \<times> nat pool_choice) list" where
  "freed_then_loaded = weak_alloc 0 0 5 @ weak_free 1 1 0 @ [(0, 2, Alloc 6), (0, 0, Step)]"

definition read_while_freed :: "(nat \<times> nat \<times> nat pool_choice) list" where
  "read_while_freed = [(0, 0, Alloc 5), (0, 0, Step)] @ weak_alloc 1 0 6 @ weak_free 1 1 0"

text \<open>
  The steps of \<open>Memory_Pool_Threads\<close>, in which every load returns the newest head, are steps of this
  machine whatever the orders: no thread knows of a store that is not there yet.
\<close>

definition heads_ok :: "'a weak_pool \<Rightarrow> bool" where
  "heads_ok s \<longleftrightarrow> wp_heads s \<noteq> [] \<and> fst (last (wp_heads s)) = free_head (pr_pool (wp_run s)) \<and>
     (\<forall>t. wp_view s t HeadPtr < length (wp_heads s)) \<and> (\<forall>i. wp_given s i HeadPtr < length (wp_heads s)) \<and>
     (\<forall>m \<in> set (wp_heads s). snd m HeadPtr < length (wp_heads s))"

lemma load_newest:
  assumes "heads_ok s"
  shows "\<exists>v. load_head mo t (length (wp_heads s) - 1) s = Some (free_head (pr_pool (wp_run s)), see t v s) \<and>
    v HeadPtr < length (wp_heads s)"
proof (intro exI conjI)
  let ?v = "load_view mo HeadPtr (wp_heads s) (length (wp_heads s) - 1) (wp_view s t)"
  have last: "wp_heads s ! (length (wp_heads s) - 1) = last (wp_heads s)" "last (wp_heads s) \<in> set (wp_heads s)"
    using assms by (simp_all add: heads_ok_def last_conv_nth)
  have "wp_view s t HeadPtr < length (wp_heads s)" using assms by (simp add: heads_ok_def)
  then have "wp_view s t HeadPtr \<le> length (wp_heads s) - 1" by simp
  with last(1) assms show "load_head mo t (length (wp_heads s) - 1) s = Some (free_head (pr_pool (wp_run s)), see t ?v s)"
    by (auto simp: heads_ok_def load_head_def readable_def)
  show "?v HeadPtr < length (wp_heads s)"
    unfolding load_view_def last(1) using last(2) assms by (auto simp: heads_ok_def Let_def)
qed

lemma heads_ok_see: "heads_ok s \<Longrightarrow> v HeadPtr < length (wp_heads s) \<Longrightarrow> heads_ok (see t v s)"
  by (simp add: heads_ok_def)

lemma heads_ok_run: "heads_ok s \<Longrightarrow> free_head (pr_pool r) = free_head (pr_pool (wp_run s)) \<Longrightarrow> heads_ok (run_to r s)"
  by (simp add: heads_ok_def)

lemma go_newest:
  assumes "heads_ok s"
  shows "\<exists>s'. load_and_go mo t (length (wp_heads s) - 1) pc s = Some s' \<and>
    wp_run s' = goto t (pc (free_head (pr_pool (wp_run s)))) (wp_run s) \<and> heads_ok s'"
  using load_newest [OF assms, of mo t] assms heads_ok_see [OF assms]
  by (auto simp: load_and_go_def goto_def intro!: heads_ok_run)

lemma heads_ok_swap:
  assumes "heads_ok s" "free_head (pr_pool r) = x"
  shows "heads_ok (run_to r (swap_head mo t x s))"
  using assms by (auto simp: heads_ok_def swap_head_def see_def run_to_def Let_def exchange_history_def store_view_def
      less_Suc_eq)

lemma accessed_run [simp]: "wp_run (accessed t pc c s) = wp_run s"
  by (cases "(t, pc, c, s)" rule: accessed.cases) (simp_all add: Let_def)

lemma heads_ok_accessed: "heads_ok s \<Longrightarrow> heads_ok (accessed t pc c s)"
  by (cases "(t, pc, c, s)" rule: accessed.cases)
    (auto simp: heads_ok_def touch_body_def write_next_def read_next_def see_def Let_def)

lemma newest_step:
  assumes ok: "heads_ok s" and act: "pool_act A t c (wp_run s) = Some r"
  shows "\<exists>s'. weak_pool_act oa od A t (length (wp_heads s) - 1) c s = Some s' \<and> wp_run s' = r \<and> heads_ok s'"
proof -
  note go = go_newest [OF ok]
  have head: "fst (last (wp_heads s)) = free_head (pr_pool (wp_run s))" using ok by (simp add: heads_ok_def)
  have plain: "heads_ok (run_to r (accessed t (pcs s t) c s))" if "free_head (pr_pool r) = free_head (pr_pool (wp_run s))"
    using heads_ok_run [OF heads_ok_accessed [OF ok]] that by simp
  show ?thesis
    using act go plain heads_ok_swap [OF ok] head
    by (cases "pcs s t"; cases c)
      (auto simp: weak_pool_act_def pool_act_def goto_def on_pool_def set_head_def add_allocated_def set_in_use_def
        set_storage_def set_next_free_def split: if_splits)
qed

theorem pool_runs_weak: "pool_runs A n r \<Longrightarrow> \<exists>s. weak_pool_runs oa od A n s \<and> wp_run s = r"
proof -
  have heads: "heads_ok (weak_pool_start n)"
    by (simp add: heads_ok_def weak_pool_start_def pool_start_def new_pool_def)
  have "pool_runs A n r \<Longrightarrow> \<exists>s. weak_pool_runs oa od A n s \<and> wp_run s = r \<and> heads_ok s"
  proof (induction rule: pool_runs.induct)
    case start
    show ?case using heads weak_pool_runs.start by (fastforce simp: weak_pool_start_def)
  next
    case (act r t c r')
    then show ?case using newest_step weak_pool_runs.act by metis
  qed
  then show "pool_runs A n r \<Longrightarrow> ?thesis" by blast
qed

text \<open>C26. What the pool asks of its memory orders and of its clients.  With one allocating thread it is
  free of data races as soon as \<open>allocate\<close> loads with acquire, at first and after a failed
  exchange, and \<open>deallocate\<close> exchanges with release; relaxing any of the three gives a race.  With
  two allocating threads it has a race under the orders of the source: one reads the link of a
  slot that the other takes, frees and links again.  And a slot in use can be handed out again: when
  the head is back at the slot that was read, the exchange succeeds with its old successor.\<close>

theorem pool_orders_needed:
  "\<not> pool_racy (pool_orders\<lparr>on_success := Relaxed\<rparr>)
     \<lparr>first_load = Relaxed, on_success = Release, on_failure = Relaxed\<rparr> {0} \<and>
   pool_racy (pool_orders\<lparr>first_load := Relaxed\<rparr>) pool_orders {0} \<and>
   pool_racy (pool_orders\<lparr>on_failure := Relaxed\<rparr>) pool_orders {0} \<and>
   pool_racy pool_orders (pool_orders\<lparr>on_success := Acquire\<rparr>) {0} \<and>
   pool_racy pool_orders pool_orders {0, 1} \<and>
   (\<exists>s :: nat weak_pool. weak_pool_runs pool_orders pool_orders {0, 1} 2 s \<and> pr_live (wp_run s) = [1, 0, 1])"
proof (intro conjI)
  have "orders_ok (pool_orders\<lparr>on_success := Relaxed\<rparr>) \<lparr>first_load = Relaxed, on_success = Release, on_failure = Relaxed\<rparr>"
    by (simp add: orders_ok_def pool_orders_def)
  from weak_pool_runs_ok [OF _ _ this] show "\<not> pool_racy (pool_orders\<lparr>on_success := Relaxed\<rparr>)
     \<lparr>first_load = Relaxed, on_success = Release, on_failure = Relaxed\<rparr> {0}"
    by (force simp: pool_racy_def dest: views_okD(1))
  show "pool_racy (pool_orders\<lparr>first_load := Relaxed\<rparr>) pool_orders {0}"
    by (rule pool_racyI [of _ _ _ freed_then_loaded]) code_simp
  show "pool_racy (pool_orders\<lparr>on_failure := Relaxed\<rparr>) pool_orders {0}"
    by (rule pool_racyI [of _ _ _ freed_elsewhere]) code_simp
  show "pool_racy pool_orders (pool_orders\<lparr>on_success := Acquire\<rparr>) {0}"
    by (rule pool_racyI [of _ _ _ freed_then_loaded]) code_simp
  show "pool_racy pool_orders pool_orders {0, 1}"
    by (rule pool_racyI [of _ _ _ read_while_freed]) code_simp
  obtain r :: "nat pool_run" where "pool_runs {0, 1} 2 r" "pr_live r = [1, 0, 1]" using pool_aba by blast
  with pool_runs_weak [of "{0, 1}" 2 r pool_orders pool_orders]
  show "\<exists>s :: nat weak_pool. weak_pool_runs pool_orders pool_orders {0, 1} 2 s \<and> pr_live (wp_run s) = [1, 0, 1]" by auto
qed

end
