(* ===== verification/Memory_Pool_Progress.thy ===== *)
theory Memory_Pool_Progress
  imports Memory_Pool_Threads
begin

text \<open>
  The progress guarantee of \<^verbatim>\<open>src/src/common/memory_pool.h\<close>, which calls its operations lock-free.
  A thread can lose its compare-exchange any number of times, but only because another thread
  has won one.  Each state gets a potential that every access uses up; \<open>pool_lock_free\<close> bounds the
  accesses of a run by the operations that complete in it.
\<close>

text \<open>The accesses a thread has to make if the head of the free list does not change any more.\<close>

fun rank :: "u32 \<Rightarrow> 'a pool_pc \<Rightarrow> nat" where
  "rank head PIdle = 8"
| "rank head (ALoaded x h) = (if h = head then 5 else 7)"
| "rank head (ARead x h nxt) = (if h = head then 4 else 6)"
| "rank head (AWon x h) = 3"
| "rank head (AMarked x h) = 2"
| "rank head (ACounted x h) = 1"
| "rank head (FStart i) = 4"
| "rank head (FLoaded i h) = (if h = head then 3 else 5)"
| "rank head (FLinked i h) = (if h = head then 2 else 4)"
| "rank head FDone = 1"

text \<open>Whether a thread has won its exchange.\<close>

fun committed :: "'a pool_pc \<Rightarrow> bool" where
  "committed (AWon x h) = True"
| "committed (AMarked x h) = True"
| "committed (ACounted x h) = True"
| "committed FDone = True"
| "committed pc = False"

definition weight :: "nat \<Rightarrow> u32 \<Rightarrow> 'a pool_pc \<Rightarrow> nat" where
  "weight k head pc = rank head pc + (if committed pc then 0 else 2 * k)"

definition potential :: "nat \<Rightarrow> 'a pool_run \<Rightarrow> nat" where
  "potential k s = (\<Sum>t < k. weight k (free_head (pr_pool s)) (pr_pc s t))"

lemma weight_bound: "weight k head pc \<le> 2 * k + 8"
  by (cases pc) (simp_all add: weight_def)

lemma potential_bound: "potential k s \<le> k * (2 * k + 8)"
  using sum_bounded_above [of "{..<k}" "\<lambda>t. weight k (free_head (pr_pool s)) (pr_pc s t)" "2 * k + 8"]
  by (simp add: potential_def weight_bound)

text \<open>A new head costs every other thread at most two accesses.\<close>

lemma weight_new_head: "weight k head' pc \<le> weight k head pc + 2"
  by (cases pc) (simp_all add: weight_def)

definition others :: "nat \<Rightarrow> nat \<Rightarrow> u32 \<Rightarrow> (nat \<Rightarrow> 'a pool_pc) \<Rightarrow> nat" where
  "others k t head pcs = (\<Sum>u \<in> {..<k} - {t}. weight k head (pcs u))"

lemma potential_split:
  "t < k \<Longrightarrow> potential k s = weight k (free_head (pr_pool s)) (pr_pc s t) + others k t (free_head (pr_pool s)) (pr_pc s)"
  by (simp add: potential_def others_def sum.remove)

lemma others_upd [simp]: "others k t head (pcs(t := pc)) = others k t head pcs"
  unfolding others_def by (rule sum.cong) simp_all

lemma others_new_head: "t < k \<Longrightarrow> others k t head' pcs \<le> 2 * k + others k t head pcs"
proof -
  assume t: "t < k"
  have "others k t head' pcs \<le> (\<Sum>u \<in> {..<k} - {t}. weight k head (pcs u) + 2)"
    unfolding others_def by (rule sum_mono) (rule weight_new_head)
  also have "\<dots> = others k t head pcs + 2 * (k - 1)" 
    using t by (simp add: others_def sum.distrib del: add_2_eq_Suc')
  finally show ?thesis by simp
qed

lemma pool_act_potential:
  assumes act: "pool_act A t c s = Some s'" and t: "t < k"
  shows "potential k s' + 1 \<le> potential k s + (if c = Fail then 2 else 0) + (if pr_pc s' t = PIdle then 2 * k + 8 else 0)"
proof -
  note split = potential_split [OF t]
  note act = act [unfolded pool_act_def]
  show ?thesis
    using act unfolding split
    by (cases "pr_pc s t"; cases c) (auto simp: weight_def others_new_head [OF t] split: if_splits)
qed

text \<open>The operations that complete in a run, and the spurious failures in it.\<close>

fun finished :: "nat set \<Rightarrow> (nat \<times> 'a pool_choice) list \<Rightarrow> 'a pool_run \<Rightarrow> nat" where
  "finished A [] s = 0"
| "finished A ((t, c) # cs) s =
     (case pool_act A t c s of None \<Rightarrow> 0
      | Some s' \<Rightarrow> (if pr_pc s' t = PIdle then 1 else 0) + finished A cs s')"

definition fails :: "(nat \<times> 'a pool_choice) list \<Rightarrow> nat" where
  "fails cs = length (filter (\<lambda>(t, c). c = Fail) cs)"

text \<open>C28. The pool is lock-free.  Let any number of the first \<open>k\<close> threads run from any state, in any
  order, allocating and freeing.  The accesses of the run are at most \<open>2 k + 8\<close> for each operation
  that completes, and as many for each thread at the start, besides two for every spurious
  failure: so however the threads are scheduled, operations keep completing.\<close>

theorem pool_lock_free:
  assumes "pool_trace A cs s = Some s'" and "\<forall>(t, c) \<in> set cs. t < k"
  shows "length cs \<le> (2 * k + 8) * (k + finished A cs s) + 2 * fails cs"
proof -
  have "potential k s' + length cs \<le> potential k s + 2 * fails cs + (2 * k + 8) * finished A cs s"
    using assms
  proof (induction A cs s rule: pool_trace.induct)
    case (2 A t c cs s)
    then obtain s1 where s1: "pool_act A t c s = Some s1" by (auto split: option.splits)
    with 2 have "potential k s' + length cs \<le> potential k s1 + 2 * fails cs + (2 * k + 8) * finished A cs s1" by simp
    moreover have "potential k s1 + 1 \<le> potential k s + (if c = Fail then 2 else 0) +
        (if pr_pc s1 t = PIdle then 2 * k + 8 else 0)" using pool_act_potential [OF s1] 2 by simp
    ultimately show ?case by (simp add: s1 fails_def algebra_simps split: if_splits)
  qed (simp add: fails_def)
  with potential_bound [of k s] show ?thesis by (simp add: algebra_simps)
qed

theorem pool_lock_free_witness:
  "length (do_alloc 0 5 @ do_alloc 1 6 @ do_free 0 0) \<le>
     12 * (2 + finished {0, 1} (do_alloc 0 5 @ do_alloc 1 6 @ do_free 0 0) (pool_start 2)) +
     2 * fails (do_alloc 0 5 @ do_alloc 1 6 @ do_free 0 0) \<and>
   finished {0, 1} (do_alloc 0 5 @ do_alloc 1 6 @ do_free 0 0) (pool_start 2) = 3"
proof -
  let ?cs = "do_alloc 0 5 @ do_alloc 1 6 @ do_free 0 0"
  have "map_option (\<lambda>_. ()) (pool_trace {0, 1} ?cs (pool_start 2)) = Some ()"
    "finished {0, 1} ?cs (pool_start 2) = 3" by code_simp+
  then obtain s where s: "pool_trace {0, 1} ?cs (pool_start 2) = Some s"
    and f: "finished {0, 1} ?cs (pool_start 2) = 3" by auto
  have "\<forall>(t, c) \<in> set ?cs. t < 2" by (auto simp: do_alloc_def do_free_def)
  from pool_lock_free [OF s this] f show ?thesis by simp
qed

end
