(* ===== verification/Trade_Profit.thy ===== *)
theory Trade_Profit
  imports Trade_Engine
begin

text \<open>
  How far the profits of \<^verbatim>\<open>src/src/market/trade_engine.cpp\<close> are from the money made.  The average
  price is updated incrementally and the realised profit summed up in doubles, so each fill adds
  rounding errors; \<open>pnl_accurate\<close> bounds them for a position that is built up and then reduced.
\<close>

section \<open>The rounding errors of a fill\<close>

text \<open>The average: \<open>A\<close> is the total the stored average stands for and \<open>C\<close> the true cost.\<close>

lemma average_step:
  fixes A C x e b :: real
  assumes A: "\<bar>A - C\<bar> \<le> e * C" and pos: "0 \<le> C" "0 \<le> x" "0 < b" and e: "0 \<le> e" "e \<le> 1 / 4"
  shows "\<bar>dbl (dbl (dbl A + x) / b) * b - (C + x)\<bar> \<le> (e + 4 / 2 ^ 53) * (C + x)"
proof -
  define u :: real where "u = 1 / 2 ^ 53"
  have u: "0 < u" "u \<le> 1 / 1000" by (simp_all add: u_def)
  have err: "\<bar>dbl y - y\<bar> \<le> u * \<bar>y\<bar>" for y using dbl_error [of y] by (simp add: u_def)
  have absA: "\<bar>A\<bar> \<le> (1 + e) * C" using A pos(1) unfolding distrib_right by linarith
  let ?y1 = "dbl A" let ?y2 = "dbl (?y1 + x)" let ?y3 = "dbl (?y2 / b)"
  have "(1 + e) * C \<le> (5 / 4) * C" using pos(1) e by (intro mult_right_mono) simp_all
  with absA have A54: "\<bar>A\<bar> \<le> 5 / 4 * C" by linarith
  have e1: "\<bar>?y1 - A\<bar> \<le> u * (5 / 4 * C)" using err [of A] mult_left_mono [OF A54, of u] u by linarith
  have uC: "0 \<le> u * C" "u * C \<le> C / 1000" "0 \<le> u * x" "u * x \<le> x / 1000"
    using u pos mult_right_mono [OF u(2), of C] mult_right_mono [OF u(2), of x] by simp_all
  then have y1: "\<bar>?y1\<bar> \<le> 126 / 100 * C" using e1 A54 pos(1) by linarith
  then have s1: "\<bar>?y1 + x\<bar> \<le> 126 / 100 * C + x" using pos(2) by linarith
  have e2: "\<bar>?y2 - (?y1 + x)\<bar> \<le> u * (126 / 100 * C + x)" using err [of "?y1 + x"] mult_left_mono [OF s1, of u] u by linarith
  then have s2: "\<bar>?y2\<bar> \<le> 127 / 100 * C + 101 / 100 * x" using s1 uC pos unfolding distrib_left by linarith
  have "\<bar>?y3 - ?y2 / b\<bar> * b \<le> u * \<bar>?y2 / b\<bar> * b" using err [of "?y2 / b"] pos(3) by (intro mult_right_mono) simp_all
  moreover have "(?y3 - ?y2 / b) * b = ?y3 * b - ?y2" using pos(3) by (simp add: left_diff_distrib)
  then have "\<bar>?y3 - ?y2 / b\<bar> * b = \<bar>?y3 * b - ?y2\<bar>" using pos(3) by (metis abs_mult abs_of_pos)
  moreover have "u * \<bar>?y2 / b\<bar> * b = u * \<bar>?y2\<bar>" using pos(3) by (simp add: abs_divide)
  ultimately have "\<bar>?y3 * b - ?y2\<bar> \<le> u * \<bar>?y2\<bar>" by simp
  moreover have "u * \<bar>?y2\<bar> \<le> u * (127 / 100 * C + 101 / 100 * x)" using s2 u by (intro mult_left_mono) simp_all
  ultimately have e3: "\<bar>?y3 * b - ?y2\<bar> \<le> u * (127 / 100 * C + 101 / 100 * x)" by linarith
  have "\<bar>?y3 * b - (C + x)\<bar> \<le> \<bar>?y3 * b - ?y2\<bar> + \<bar>?y2 - (?y1 + x)\<bar> + \<bar>?y1 - A\<bar> + \<bar>A - C\<bar>" by linarith
  also have "\<dots> \<le> u * (127 / 100 * C + 101 / 100 * x) + u * (126 / 100 * C + x) + u * (5 / 4 * C) + e * C"
    using e1 e2 e3 A by linarith
  also have "\<dots> \<le> 4 * (u * C) + 4 * (u * x) + e * C" using uC unfolding distrib_left by linarith
  also have "\<dots> \<le> (e + 4 * u) * (C + x)" using pos e u by (simp add: distrib_left distrib_right)
  finally show ?thesis by (simp add: u_def)
qed

text \<open>The stored average stays between the bounds of the prices.\<close>

lemma average_bounds:
  assumes a: "0 \<le> a" "a \<le> real_of_int M" and px: "0 \<le> px" "px \<le> M" and q: "0 < q" and b: "0 \<le> b"
    and small: "(b + q) * M \<le> 2 ^ 53"
  shows "0 \<le> dbl (dbl (dbl (a * real_of_int b) + real_of_int (px * q)) / real_of_int (b + q))"
    and "dbl (dbl (dbl (a * real_of_int b) + real_of_int (px * q)) / real_of_int (b + q)) \<le> real_of_int M"
proof -
  have M: "0 \<le> M" using px by linarith
  have int: "px * q \<le> M * q" "0 \<le> px * q" "M * b \<le> (b + q) * M" "0 \<le> M * b" "0 \<le> M * q" "1 * M \<le> (b + q) * M"
    using px q b M mult_left_mono [of b "b + q" M] mult_right_mono [of 1 "b + q" M] by (simp_all add: mult_right_mono mult.commute)
  have "a * real_of_int b \<le> real_of_int (M * b)" using a b by (simp add: mult_right_mono)
  then have y1: "dbl (a * real_of_int b) \<le> real_of_int (M * b)" by (rule dbl_le_int) (use int small in linarith)
  have "dbl (a * real_of_int b) + real_of_int (px * q) \<le> real_of_int (M * b + M * q)"
    using y1 int(1) by (simp flip: of_int_le_iff [where 'a = real])
  then have "dbl (dbl (a * real_of_int b) + real_of_int (px * q)) \<le> real_of_int (M * b + M * q)"
    by (rule dbl_le_int) (use int small in \<open>simp add: algebra_simps\<close>)
  also have "\<dots> = real_of_int M * real_of_int (b + q)" by (simp add: algebra_simps)
  finally have "dbl (dbl (a * real_of_int b) + real_of_int (px * q)) / real_of_int (b + q) \<le> real_of_int M"
    using q b by (simp add: pos_divide_le_eq)
  then show "dbl (dbl (dbl (a * real_of_int b) + real_of_int (px * q)) / real_of_int (b + q)) \<le> real_of_int M"
    by (rule dbl_le_int) (use int small M in linarith)
  have "0 \<le> dbl (a * real_of_int b)" using a b by (intro dbl_nonneg) simp
  with int(2) have "0 \<le> dbl (a * real_of_int b) + real_of_int (px * q)"
    by (simp only: add_nonneg_nonneg of_int_0_le_iff)
  then show "0 \<le> dbl (dbl (dbl (a * real_of_int b) + real_of_int (px * q)) / real_of_int (b + q))"
    using q b by (intro dbl_nonneg divide_nonneg_pos) simp_all
qed

text \<open>The profit on \<open>q\<close> units at a price difference.\<close>

lemma product_step:
  assumes d: "\<bar>d\<bar> \<le> real_of_int M" and q: "0 \<le> q" and small: "q * M \<le> 2 ^ 53" "M \<le> 2 ^ 53"
  shows "\<bar>dbl (real_of_int q * dbl d) - real_of_int q * d\<bar> \<le> 2 * (real_of_int (q * M) / 2 ^ 53)"
    and "\<bar>dbl (real_of_int q * dbl d)\<bar> \<le> real_of_int (q * M)"
proof -
  have "0 \<le> real_of_int M" using d by linarith
  then have M: "0 \<le> M" by simp
  then have "\<bar>M\<bar> \<le> 2 ^ 53" "\<bar>- M\<bar> \<le> 2 ^ 53" using small(2) by simp_all
  note bounds = dbl_le_int [OF _ this(1), of d] dbl_ge_int [OF _ this(2), of d]
  have "d \<le> real_of_int M" "real_of_int (- M) \<le> d" using d unfolding of_int_minus by linarith+
  with bounds have "dbl d \<le> real_of_int M" "- real_of_int M \<le> dbl d" by simp_all
  then have yM: "\<bar>dbl d\<bar> \<le> real_of_int M" by linarith
  have "\<bar>real_of_int q * dbl d\<bar> = real_of_int q * \<bar>dbl d\<bar>" using q by (simp add: abs_mult)
  also have "\<dots> \<le> real_of_int q * real_of_int M" using yM q by (intro mult_left_mono) simp_all
  finally have qy: "\<bar>real_of_int q * dbl d\<bar> \<le> real_of_int (q * M)" by simp
  have "0 \<le> q * M" using q M by simp
  then have qM: "\<bar>q * M\<bar> \<le> 2 ^ 53" "\<bar>- (q * M)\<bar> \<le> 2 ^ 53" using small(1) by simp_all
  have "real_of_int q * dbl d \<le> real_of_int (q * M)" "real_of_int (- (q * M)) \<le> real_of_int q * dbl d"
    using qy unfolding of_int_minus by linarith+
  with dbl_le_int [OF _ qM(1)] dbl_ge_int [OF _ qM(2)]
  have "dbl (real_of_int q * dbl d) \<le> real_of_int (q * M)" "- real_of_int (q * M) \<le> dbl (real_of_int q * dbl d)"
    by (simp_all only: of_int_minus)
  then show "\<bar>dbl (real_of_int q * dbl d)\<bar> \<le> real_of_int (q * M)" by linarith
  have e1: "\<bar>dbl (real_of_int q * dbl d) - real_of_int q * dbl d\<bar> \<le> real_of_int (q * M) / 2 ^ 53"
    by (rule dbl_error_le [OF qy])
  have "\<bar>dbl d - d\<bar> \<le> real_of_int M / 2 ^ 53" by (rule dbl_error_le [OF d])
  then have "real_of_int q * \<bar>dbl d - d\<bar> \<le> real_of_int q * (real_of_int M / 2 ^ 53)" using q by (intro mult_left_mono) simp_all
  moreover have "\<bar>real_of_int q * dbl d - real_of_int q * d\<bar> = real_of_int q * \<bar>dbl d - d\<bar>"
    using q by (simp add: abs_mult flip: right_diff_distrib)
  ultimately have "\<bar>real_of_int q * dbl d - real_of_int q * d\<bar> \<le> real_of_int (q * M) / 2 ^ 53" by simp
  then show "\<bar>dbl (real_of_int q * dbl d) - real_of_int q * d\<bar> \<le> 2 * (real_of_int (q * M) / 2 ^ 53)" using e1 by linarith
qed

section \<open>Building a position up\<close>

text \<open>A long position of \<open>n\<close> out of \<open>b\<close> bought at the average \<open>a\<close>, with \<open>r\<close> realised.\<close>

definition long_at :: "Symbol \<Rightarrow> int \<Rightarrow> int \<Rightarrow> real \<Rightarrow> real \<Rightarrow> Position \<Rightarrow> bool" where
  "long_at s n b a r p \<longleftrightarrow> pos_symbol p = s \<and> net_qty p = n \<and> buy_qty p = b \<and>
     avg_buy_price p = Some a \<and> realized_pnl p = Some r"

text \<open>An average of \<open>b\<close> units that cost \<open>C\<close>, after \<open>k\<close> fills at prices up to \<open>M\<close>.\<close>

definition average_ok :: "int \<Rightarrow> nat \<Rightarrow> int \<Rightarrow> int \<Rightarrow> real \<Rightarrow> bool" where
  "average_ok M k b C a \<longleftrightarrow> 0 \<le> a \<and> a \<le> real_of_int M \<and> 0 \<le> C \<and>
     \<bar>a * real_of_int b - real_of_int C\<bar> \<le> 4 * (real k / 2 ^ 53) * real_of_int C"

definition fills_ok :: "int \<Rightarrow> (Price \<times> Quantity) list \<Rightarrow> bool" where
  "fills_ok M fs \<longleftrightarrow> (\<forall>(px, q) \<in> set fs. 0 \<le> px \<and> px \<le> M \<and> 0 < q)"

lemma fills_ok_simps [simp]:
  "fills_ok M []" "fills_ok M ((px, q) # fs) \<longleftrightarrow> 0 \<le> px \<and> px \<le> M \<and> 0 < q \<and> fills_ok M fs"
  by (simp_all add: fills_ok_def)

lemma fills_ok_total: "fills_ok M fs \<Longrightarrow> 0 \<le> total_qty fs"
  by (induction fs) auto

lemma fills_ok_cash: "fills_ok M fs \<Longrightarrow> total_cash fs \<le> total_qty fs * M"
proof (induction fs)
  case (Cons f fs)
  obtain px q where f: "f = (px, q)" by (cases f)
  have "q * px \<le> q * M" by (rule mult_left_mono) (use Cons.prems in \<open>simp_all add: f\<close>)
  moreover have "total_cash fs \<le> total_qty fs * M" using Cons by (simp add: f)
  ultimately show ?case unfolding f total_simps distrib_right mult.commute [of px] by linarith
qed simp

lemma quantity_small:
  fixes b M :: int
  assumes "0 \<le> b" "0 < M" "b * M \<le> 2 ^ 53"
  shows "b \<le> 2 ^ 53" and "in_i64 b"
proof -
  have "b * 1 \<le> b * M" using assms(1,2) by (intro mult_left_mono) simp_all
  with assms(3) show "b \<le> 2 ^ 53" by linarith
  with assms(1) show "in_i64 b" by (simp add: in_i64_def i64_min_def i64_max_def)
qed

lemma long_buy:
  assumes long: "long_at s b b a 0 p" and a: "average_ok M k b C a" and M: "0 < M" "M \<le> 2 ^ 53" and b: "0 \<le> b"
    and px: "0 \<le> px" "px \<le> M" "0 < q" and small: "(b + q) * M \<le> 2 ^ 53" and k: "k \<le> 2 ^ 49"
  shows "\<exists>a'. long_at s (b + q) (b + q) a' 0 (fill_position Buy q px (p\<lparr>pos_symbol := s\<rparr>)) \<and>
    average_ok M (Suc k) (b + q) (C + px * q) a'"
proof -
  let ?a = "dbl (dbl (dbl (a * real_of_int b) + real_of_int (px * q)) / real_of_int (b + q))"
  have bq: "0 \<le> b + q" using b px by simp
  note sm = quantity_small [OF bq M(1) small]
  have "q * M \<le> (b + q) * M" by (rule mult_right_mono) (use b M in simp_all)
  moreover have "q * px \<le> q * M" by (rule mult_left_mono) (use px in simp_all)
  ultimately have "q * px \<le> 2 ^ 53" using small by linarith
  then have prod: "0 \<le> px * q" "px * q \<le> 2 ^ 53" using px by (simp_all add: mult.commute)
  have dbls: "dbl (real_of_int px) = real_of_int px" "dbl (real_of_int q) = real_of_int q"
    "dbl (real_of_int b) = real_of_int b" "dbl (real_of_int (b + q)) = real_of_int (b + q)"
    by (rule dbl_of_int; use px M b sm(1) in simp)+
  have "dbl (real_of_int px * real_of_int q) = real_of_int (px * q)" using dbl_of_int [of "px * q"] prod by simp
  then have "avg_buy_price (fill_position Buy q px (p\<lparr>pos_symbol := s\<rparr>)) = Some ?a"
    using long b px sm(2) dbls
    by (simp add: long_at_def fill_buy_def Let_def to_double_def i64_id del: of_int_add of_int_mult)
  then have long': "long_at s (b + q) (b + q) ?a 0 (fill_position Buy q px (p\<lparr>pos_symbol := s\<rparr>))"
    using long b sm(2) by (simp add: long_at_def fill_buy_def Let_def i64_id)
  have bounds: "0 \<le> ?a" "?a \<le> real_of_int M"
    using average_bounds [OF _ _ px(1,2,3) b small, of a] a by (simp_all add: average_ok_def)
  have "4 * (real k / 2 ^ 53) \<le> 1 / 4"
  proof -
    have "real k \<le> real (2 ^ 49)" using k by (simp only: of_nat_le_iff)
    then show ?thesis by simp
  qed
  moreover have "0 < real_of_int (b + q)" "0 \<le> real_of_int (px * q)" using b px prod by simp_all
  moreover have "0 \<le> real_of_int C" "\<bar>a * real_of_int b - real_of_int C\<bar> \<le> 4 * (real k / 2 ^ 53) * real_of_int C"
    using a by (simp_all add: average_ok_def)
  ultimately have "\<bar>?a * real_of_int (b + q) - (real_of_int C + real_of_int (px * q))\<bar> \<le>
      (4 * (real k / 2 ^ 53) + 4 / 2 ^ 53) * (real_of_int C + real_of_int (px * q))"
    by (intro average_step) simp_all
  moreover have "4 * (real k / 2 ^ 53) + 4 / 2 ^ 53 = 4 * (real (Suc k) / 2 ^ 53)" by (simp add: add_divide_distrib)
  ultimately have "\<bar>?a * real_of_int (b + q) - real_of_int (C + px * q)\<bar> \<le> 4 * (real (Suc k) / 2 ^ 53) * real_of_int (C + px * q)"
    by (simp only: of_int_add [of C])
  moreover have "0 \<le> C + px * q" using a prod by (simp add: average_ok_def)
  ultimately have "average_ok M (Suc k) (b + q) (C + px * q) ?a"
    unfolding average_ok_def using bounds by blast
  with long' show ?thesis by blast
qed

lemma fill_all_buys:
  assumes "te_get_position tid s e = Some p" "long_at s b b a 0 p" "average_ok M k b C a" "0 \<le> b"
    and M: "0 < M" "M \<le> 2 ^ 53" and "fills_ok M bs" "(b + total_qty bs) * M \<le> 2 ^ 53" "k + length bs \<le> 2 ^ 49"
  shows "\<exists>p' a'. te_get_position tid s (fill_all tid s Buy bs e) = Some p' \<and>
    long_at s (b + total_qty bs) (b + total_qty bs) a' 0 p' \<and>
    average_ok M (k + length bs) (b + total_qty bs) (C + total_cash bs) a'"
  using assms(1-4,7-)
proof (induction bs arbitrary: e p b C a k)
  case Nil
  then show ?case by (auto simp: fill_all_def)
next
  case (Cons f bs)
  obtain px q where f: "f = (px, q)" by (cases f)
  have ok: "0 \<le> px" "px \<le> M" "0 < q" "fills_ok M bs" using Cons.prems(5) by (simp_all add: f)
  note T = fills_ok_total [OF ok(4)]
  have small: "(b + q) * M \<le> 2 ^ 53"
  proof -
    have "(b + q) * M \<le> (b + q + total_qty bs) * M" using T M(1) by (intro mult_right_mono) simp_all
    with Cons.prems(6) show ?thesis by (simp add: f add.assoc)
  qed
  have "k \<le> 2 ^ 49" using Cons.prems(7) by simp
  from long_buy [OF Cons.prems(2,3) M Cons.prems(4) ok(1-3) small this] obtain a' where
    a': "long_at s (b + q) (b + q) a' 0 (fill_position Buy q px (p\<lparr>pos_symbol := s\<rparr>))"
      "average_ok M (Suc k) (b + q) (C + px * q) a'" by blast
  have get: "te_get_position tid s (update_position tid s Buy q px e) = Some (fill_position Buy q px (p\<lparr>pos_symbol := s\<rparr>))"
    using position_update position_at_get [OF Cons.prems(1)] by simp
  have "(b + q + total_qty bs) * M \<le> 2 ^ 53" using Cons.prems(6) by (simp add: f add.assoc)
  with Cons.IH [OF get a' _ ok(4)] Cons.prems(4,7) ok(3) show ?case
    by (simp add: f fill_all_def add.assoc)
qed

section \<open>Reducing it\<close>

lemma long_sell:
  assumes long: "long_at s n b a r p" and a: "0 \<le> a" "a \<le> real_of_int M" and M: "0 < M" "M \<le> 2 ^ 53"
    and px: "0 \<le> px" "px \<le> M" and q: "0 < q" "q \<le> n" "in_i64 n"
    and r: "\<bar>r\<bar> \<le> real_of_int (S * M)" and small: "0 \<le> S" "(S + q) * M \<le> 2 ^ 53"
  shows "\<exists>r'. long_at s (n - q) b a r' (fill_position Sell q px (p\<lparr>pos_symbol := s\<rparr>)) \<and>
    \<bar>r'\<bar> \<le> real_of_int ((S + q) * M) \<and>
    \<bar>r' - (r + real_of_int q * (real_of_int px - a))\<bar> \<le>
      2 * (real_of_int (q * M) / 2 ^ 53) + real_of_int ((S + q) * M) / 2 ^ 53"
proof -
  let ?d = "real_of_int px - a" let ?m = "dbl (real_of_int q * dbl ?d)" let ?r = "dbl (r + ?m)"
  have "real_of_int px \<le> real_of_int M" "0 \<le> real_of_int px" using px by (simp_all only: of_int_le_iff of_int_0_le_iff)
  then have d: "\<bar>?d\<bar> \<le> real_of_int M" using a by linarith
  have "0 \<le> S * M" using small(1) M(1) by simp
  then have qM: "q * M \<le> 2 ^ 53" using small(2) unfolding distrib_right by linarith
  then have q53: "q \<le> 2 ^ 53" using quantity_small(1) [of q M] M(1) q(1) by simp
  have dbls: "dbl (real_of_int px) = real_of_int px" "dbl (real_of_int q) = real_of_int q"
    by (rule dbl_of_int; use px M q(1) q53 in simp)+
  have "i64 (n - q) = n - q" using q by (intro i64_id in_i64_nonneg [of "n - q" n]) simp_all
  then have long': "long_at s (n - q) b a ?r (fill_position Sell q px (p\<lparr>pos_symbol := s\<rparr>))"
    using long q(1,2) dbls by (simp add: long_at_def fill_sell_def Let_def to_double_def min_def)
  note m = product_step [OF d _ qM M(2)]
  have sum: "\<bar>r + ?m\<bar> \<le> real_of_int ((S + q) * M)"
    using r m(2) q(1) unfolding distrib_right of_int_add by linarith
  have K: "\<bar>(S + q) * M\<bar> \<le> 2 ^ 53" "\<bar>- ((S + q) * M)\<bar> \<le> 2 ^ 53" using small M q(1) by simp_all
  have "r + ?m \<le> real_of_int ((S + q) * M)" "real_of_int (- ((S + q) * M)) \<le> r + ?m"
    using sum unfolding of_int_minus by linarith+
  with dbl_le_int [OF _ K(1)] dbl_ge_int [OF _ K(2)]
  have "?r \<le> real_of_int ((S + q) * M)" "- real_of_int ((S + q) * M) \<le> ?r" by (simp_all only: of_int_minus)
  then have bound: "\<bar>?r\<bar> \<le> real_of_int ((S + q) * M)" by linarith
  have "\<bar>?m - real_of_int q * ?d\<bar> \<le> 2 * (real_of_int (q * M) / 2 ^ 53)" using m(1) q(1) by simp
  with dbl_error_le [OF sum]
  have "\<bar>?r - (r + real_of_int q * ?d)\<bar> \<le> 2 * (real_of_int (q * M) / 2 ^ 53) + real_of_int ((S + q) * M) / 2 ^ 53"
    by linarith
  with long' bound show ?thesis by blast
qed

lemma fill_all_sells:
  assumes "te_get_position tid s e = Some p" "long_at s n b a r p" "in_i64 n" "\<bar>r\<bar> \<le> real_of_int (S * M)" "0 \<le> S"
    and a: "0 \<le> a" "a \<le> real_of_int M" and M: "0 < M" "M \<le> 2 ^ 53"
    and "fills_ok M ss" "total_qty ss \<le> n" "(S + total_qty ss) * M \<le> K" "K \<le> 2 ^ 53"
  shows "\<exists>p' r'. te_get_position tid s (fill_all tid s Sell ss e) = Some p' \<and>
    long_at s (n - total_qty ss) b a r' p' \<and>
    \<bar>r' - (r + (real_of_int (total_cash ss) - real_of_int (total_qty ss) * a))\<bar> \<le>
      2 * (real_of_int (total_qty ss * M) / 2 ^ 53) + real (length ss) * (real_of_int K / 2 ^ 53)"
  using assms(1-5,10-)
proof (induction ss arbitrary: e p n r S)
  case Nil
  then show ?case by (auto simp: fill_all_def)
next
  case (Cons f ss)
  obtain px q where f: "f = (px, q)" by (cases f)
  have ok: "0 \<le> px" "px \<le> M" "0 < q" "fills_ok M ss" using Cons.prems(6) by (simp_all add: f)
  note T = fills_ok_total [OF ok(4)]
  have n: "q \<le> n" "total_qty ss \<le> n - q" using Cons.prems(7) T by (simp_all add: f)
  have rng: "in_i64 (n - q)" using ok(3) n(1) Cons.prems(3) by (intro in_i64_nonneg [of "n - q" n]) simp_all
  have K: "(S + q + total_qty ss) * M \<le> K" using Cons.prems(8) by (simp add: f add.assoc)
  have "(S + q) * M \<le> (S + q + total_qty ss) * M" using T M(1) by (intro mult_right_mono) simp_all
  then have SqK: "(S + q) * M \<le> K" using K by linarith
  then have "(S + q) * M \<le> 2 ^ 53" using Cons.prems(9) by linarith
  from long_sell [OF Cons.prems(2) a M ok(1-3) n(1) Cons.prems(3,4,5) this] obtain r1 where
    r1: "long_at s (n - q) b a r1 (fill_position Sell q px (p\<lparr>pos_symbol := s\<rparr>))" "\<bar>r1\<bar> \<le> real_of_int ((S + q) * M)"
      "\<bar>r1 - (r + real_of_int q * (real_of_int px - a))\<bar> \<le> 2 * (real_of_int (q * M) / 2 ^ 53) + real_of_int ((S + q) * M) / 2 ^ 53"
    by blast
  have get: "te_get_position tid s (update_position tid s Sell q px e) = Some (fill_position Sell q px (p\<lparr>pos_symbol := s\<rparr>))"
    using position_update position_at_get [OF Cons.prems(1)] by simp
  from Cons.IH [OF get r1(1) rng r1(2) _ ok(4) n(2) K Cons.prems(9)] Cons.prems(5) ok(3) obtain p' r' where
    r': "te_get_position tid s (fill_all tid s Sell ss (update_position tid s Sell q px e)) = Some p'"
      "long_at s (n - q - total_qty ss) b a r' p'"
      "\<bar>r' - (r1 + (real_of_int (total_cash ss) - real_of_int (total_qty ss) * a))\<bar> \<le>
        2 * (real_of_int (total_qty ss * M) / 2 ^ 53) + real (length ss) * (real_of_int K / 2 ^ 53)" by auto
  have "real_of_int ((S + q) * M) / 2 ^ 53 \<le> real_of_int K / 2 ^ 53"
    using SqK by (intro divide_right_mono) (simp_all only: of_int_le_iff, simp)
  with r1(3) r'(3) have "\<bar>r' - (r + real_of_int q * (real_of_int px - a) + (real_of_int (total_cash ss) - real_of_int (total_qty ss) * a))\<bar> \<le>
      2 * (real_of_int (q * M) / 2 ^ 53) + real_of_int K / 2 ^ 53 +
      (2 * (real_of_int (total_qty ss * M) / 2 ^ 53) + real (length ss) * (real_of_int K / 2 ^ 53))" by linarith
  also have "r + real_of_int q * (real_of_int px - a) + (real_of_int (total_cash ss) - real_of_int (total_qty ss) * a) =
      r + (real_of_int (total_cash (f # ss)) - real_of_int (total_qty (f # ss)) * a)" by (simp add: f algebra_simps)
  also have "2 * (real_of_int (q * M) / 2 ^ 53) + real_of_int K / 2 ^ 53 +
      (2 * (real_of_int (total_qty ss * M) / 2 ^ 53) + real (length ss) * (real_of_int K / 2 ^ 53)) =
      2 * (real_of_int (total_qty (f # ss) * M) / 2 ^ 53) + real (length (f # ss)) * (real_of_int K / 2 ^ 53)"
    by (simp add: f algebra_simps add_divide_distrib)
  finally show ?case using r'(1,2) by (intro exI [of _ p'] exI [of _ r']) (simp add: f fill_all_def diff_diff_eq)
qed

section \<open>The profit of a long cycle\<close>

lemma long_mark:
  assumes long: "long_at s n b a r p" and a: "0 \<le> a" "a \<le> real_of_int M" and M: "0 < M" "M \<le> 2 ^ 53"
    and px: "0 \<le> px" "px \<le> M" and n: "0 \<le> n" "n * M \<le> 2 ^ 53"
  shows "\<exists>u. unrealized_pnl (mark_position px p) = Some u \<and>
    \<bar>u - real_of_int n * (real_of_int px - a)\<bar> \<le> 2 * (real_of_int (n * M) / 2 ^ 53)"
proof -
  have "real_of_int px \<le> real_of_int M" "0 \<le> real_of_int px" using px by (simp_all only: of_int_le_iff of_int_0_le_iff)
  then have d: "\<bar>real_of_int px - a\<bar> \<le> real_of_int M" using a by linarith
  have dbls: "dbl (real_of_int px) = real_of_int px" "dbl (real_of_int n) = real_of_int n"
    by (rule dbl_of_int; use px M n quantity_small(1) [OF n(1) M(1) n(2)] in simp)+
  have "unrealized_pnl (mark_position px p) = Some (dbl (real_of_int n * dbl (real_of_int px - a)))"
    using long n(1) dbls by (cases "n = 0") (simp_all add: long_at_def mark_position_def to_double_def)
  with product_step(1) [OF d n(1,2) M(2)] show ?thesis by blast
qed

text \<open>C30. The profit and loss of one long cycle is the money made, up to the rounding of doubles.  Let a
  trader first buy a symbol in \<open>k\<close> fills and then sell no more than was bought in \<open>l\<close> fills, all
  at prices up to \<open>M\<close>, with the turnover \<open>M\<close> times the quantity bought at most 2^53.  The net
  position is what is left; and the realised plus the unrealised profit after marking differs
  from the cash received less the cash paid plus the value of what is left by at most \<open>4 k + l +
  2\<close> parts in 2^53 of that turnover.\<close>

theorem pnl_accurate:
  assumes bs: "bs \<noteq> []" "fills_ok M bs" "total_qty bs * M \<le> 2 ^ 53" "length bs \<le> 2 ^ 49"
    and ss: "fills_ok M ss" "total_qty ss \<le> total_qty bs" and M: "0 < M"
    and px: "0 \<le> px" "px \<le> M" and fresh: "te_get_position tid s e = None"
  shows "\<exists>p r u. te_get_position tid s (mark_to_market s px (fill_all tid s Sell ss (fill_all tid s Buy bs e))) = Some p \<and>
    net_qty p = total_qty bs - total_qty ss \<and> realized_pnl p = Some r \<and> unrealized_pnl p = Some u \<and>
    \<bar>(r + u) - real_of_int (total_cash ss - total_cash bs + net_qty p * px)\<bar> \<le>
      real (4 * length bs + length ss + 2) * (real_of_int (total_qty bs * M) / 2 ^ 53)"
proof -
  let ?B = "total_qty bs" and ?T = "total_qty ss"
  obtain px0 q0 bs' where b: "bs = (px0, q0) # bs'" using bs(1) by (cases bs) auto
  have q0: "0 \<le> px0" "px0 \<le> M" "0 < q0" "fills_ok M bs'" using bs(2) by (simp_all add: b)
  have T': "0 \<le> total_qty bs'" "0 \<le> ?T" by (rule fills_ok_total, rule q0(4), rule fills_ok_total, rule ss(1))
  then have B: "0 < ?B" using q0(3) by (simp add: b)
  have "1 * M \<le> ?B * M" using B M by (intro mult_right_mono) simp_all
  then have M53: "M \<le> 2 ^ 53" using bs(3) by linarith
  note B53 = quantity_small [OF less_imp_le [OF B] M bs(3)]
  have mono: "x \<le> ?B \<Longrightarrow> x * M \<le> ?B * M" for x using M by (intro mult_right_mono) simp_all
  have new: "position_at (tid, s) e = new_position" using fresh by (simp add: te_get_position_def position_at_def)
  have long0: "long_at s 0 0 0 0 (new_position\<lparr>pos_symbol := s\<rparr>)" by (simp add: long_at_def new_position_def)
  have avg0: "average_ok M 0 0 0 0" using M by (simp add: average_ok_def)
  have "(0 + q0) * M \<le> 2 ^ 53" using mono [of q0] T'(1) bs(3) by (simp add: b)
  from long_buy [OF long0 avg0 M M53 _ q0(1-3) this] obtain a0 where
    a0: "long_at s q0 q0 a0 0 (fill_position Buy q0 px0 ((position_at (tid, s) e)\<lparr>pos_symbol := s\<rparr>))"
      "average_ok M 1 q0 (px0 * q0) a0" by (auto simp: new)
  have "(q0 + total_qty bs') * M \<le> 2 ^ 53" "1 + length bs' \<le> 2 ^ 49" using bs(3,4) by (simp_all add: b)
  from fill_all_buys [OF position_update a0 _ M M53 q0(4) this] q0(3) obtain p1 a where
    p1: "te_get_position tid s (fill_all tid s Buy bs e) = Some p1" "long_at s ?B ?B a 0 p1"
      "average_ok M (length bs) ?B (total_cash bs) a"
    by (auto simp: b fill_all_def)
  then have a: "0 \<le> a" "a \<le> real_of_int M"
    "\<bar>a * real_of_int ?B - real_of_int (total_cash bs)\<bar> \<le> 4 * (real (length bs) / 2 ^ 53) * real_of_int (total_cash bs)"
    by (simp_all add: average_ok_def)
  have "\<bar>0\<bar> \<le> real_of_int (0 * M)" "(0 + ?T) * M \<le> ?B * M" using mono [OF ss(2)] by simp_all
  from fill_all_sells [OF p1(1,2) B53(2) this(1) _ a(1,2) M M53 ss this(2) bs(3)] obtain p2 r where
    p2: "te_get_position tid s (fill_all tid s Sell ss (fill_all tid s Buy bs e)) = Some p2" "long_at s (?B - ?T) ?B a r p2"
      "\<bar>r - (real_of_int (total_cash ss) - real_of_int ?T * a)\<bar> \<le>
        2 * (real_of_int (?T * M) / 2 ^ 53) + real (length ss) * (real_of_int (?B * M) / 2 ^ 53)" by auto
  let ?n = "?B - ?T"
  have n: "0 \<le> ?n" "?n * M \<le> 2 ^ 53" using ss(2) mono [of ?n] T'(2) bs(3) by simp_all
  from long_mark [OF p2(2) a(1,2) M M53 px n] obtain u where
    u: "unrealized_pnl (mark_position px p2) = Some u"
      "\<bar>u - real_of_int ?n * (real_of_int px - a)\<bar> \<le> 2 * (real_of_int (?n * M) / 2 ^ 53)" by blast
  let ?X = "real_of_int (?B * M) / 2 ^ 53" and ?c = "real_of_int (total_cash bs)" and ?d = "real_of_int (total_cash ss)"
  have avg: "\<bar>a * real_of_int ?B - ?c\<bar> \<le> 4 * real (length bs) * ?X"
  proof -
    have "?c \<le> real_of_int (?B * M)" using fills_ok_cash [OF bs(2)] by (simp only: of_int_le_iff)
    then have "4 * (real (length bs) / 2 ^ 53) * ?c \<le> 4 * (real (length bs) / 2 ^ 53) * real_of_int (?B * M)"
      by (intro mult_left_mono) simp_all
    also have "\<dots> = 4 * real (length bs) * ?X" by simp
    finally show ?thesis using a(3) by (rule order_trans [rotated])
  qed
  have "(r + u) - (?d - ?c + real_of_int ?n * real_of_int px) =
      (r - (?d - real_of_int ?T * a)) + (u - real_of_int ?n * (real_of_int px - a)) + (?c - a * real_of_int ?B)"
    by (simp add: algebra_simps)
  then have "\<bar>(r + u) - (?d - ?c + real_of_int ?n * real_of_int px)\<bar> \<le>
      2 * (real_of_int (?T * M) / 2 ^ 53) + real (length ss) * ?X + 2 * (real_of_int (?n * M) / 2 ^ 53) + 4 * real (length bs) * ?X"
    using p2(3) u(2) avg by linarith
  also have "real_of_int (?n * M) / 2 ^ 53 = ?X - real_of_int (?T * M) / 2 ^ 53"
    by (simp add: left_diff_distrib diff_divide_distrib)
  also have "2 * (real_of_int (?T * M) / 2 ^ 53) + real (length ss) * ?X + 2 * (?X - real_of_int (?T * M) / 2 ^ 53) +
      4 * real (length bs) * ?X = real (4 * length bs + length ss + 2) * ?X" by (simp add: distrib_right)
  finally have bound: "\<bar>(r + u) - real_of_int (total_cash ss - total_cash bs + ?n * px)\<bar> \<le>
      real (4 * length bs + length ss + 2) * ?X" by (simp only: of_int_add of_int_diff of_int_mult)
  have net: "net_qty (mark_position px p2) = ?n" "realized_pnl (mark_position px p2) = Some r"
    using p2(2) by (simp_all add: long_at_def mark_position_def)
  show ?thesis
  proof (intro exI conjI)
    show "te_get_position tid s (mark_to_market s px (fill_all tid s Sell ss (fill_all tid s Buy bs e))) = Some (mark_position px p2)"
      by (simp add: mark_get p2(1))
  qed (use net u(1) bound in \<open>simp_all only: net\<close>)
qed

theorem pnl_accurate_witness:
  "\<exists>p r u. te_get_position 9 default_symbol (mark_to_market default_symbol 120
      (fill_all 9 default_symbol Sell [(110, 5)] (fill_all 9 default_symbol Buy [(100, 6), (103, 3)] new_trade_engine))) =
      Some p \<and> net_qty p = 4 \<and> realized_pnl p = Some r \<and> unrealized_pnl p = Some u \<and> \<bar>r + u - 121\<bar> \<le> 1 / 1000000000"
proof -
  have "te_get_position 9 default_symbol new_trade_engine = None"
    by (simp add: te_get_position_def new_trade_engine_def)
  from pnl_accurate [of "[(100, 6), (103, 3)]" 120 "[(110, 5)]" 120, OF _ _ _ _ _ _ _ _ _ this] obtain p r u where
    p: "te_get_position 9 default_symbol (mark_to_market default_symbol 120
      (fill_all 9 default_symbol Sell [(110, 5)] (fill_all 9 default_symbol Buy [(100, 6), (103, 3)] new_trade_engine))) = Some p"
      "net_qty p = 4" "realized_pnl p = Some r" "unrealized_pnl p = Some u" "\<bar>r + u - 121\<bar> \<le> 11 * (1080 / 2 ^ 53)"
    by auto
  moreover have "11 * (1080 / 2 ^ 53) \<le> (1 / 1000000000 :: real)" by simp
  ultimately show ?thesis by (meson order_trans)
qed

end
