(* ===== verification/Latency_Model.thy ===== *)
theory Latency_Model
  imports Latency_Histogram HFT_Types
begin

text \<open>
  The latency model of \<^verbatim>\<open>src/src/latency/latency_model.h\<close> and \<^verbatim>\<open>latency_model.cpp\<close>.

  The random engine and the distribution objects of the standard library are a parameter: a
  seeding function, the initial state \<open>rd_fresh\<close> of the distribution objects, and one draw of
  each distribution, which reads and changes the state of the objects and of the engine.  Like
  the standard, it lets a distribution keep values between draws.  Doubles are rounded with \<open>dbl\<close> in every
  operation and literal.
\<close>

section \<open>State\<close>

record ('g, 'd) random_source =
  rd_seed :: "u64 \<Rightarrow> 'g"
  rd_fresh :: 'd
  rd_uniform :: "'d \<Rightarrow> 'g \<Rightarrow> real \<times> 'd \<times> 'g"
  rd_normal :: "'d \<Rightarrow> 'g \<Rightarrow> real \<times> 'd \<times> 'g"
  rd_exponential :: "'d \<Rightarrow> 'g \<Rightarrow> real \<times> 'd \<times> 'g"

record LatencyProfile =
  mean_ns :: real
  stddev_ns :: real
  p99_ns :: real
  p999_ns :: real
  tail_prob :: real
  min_ns :: real

definition default_profile :: LatencyProfile where
  "default_profile = \<lparr>mean_ns = 5000, stddev_ns = 1000, p99_ns = 30000, p999_ns = 100000,
     tail_prob = dbl (1 / 100), min_ns = 500\<rparr>"

record LatencyBreakdown =
  network_inbound_ns :: u64
  matching_engine_ns :: u64
  network_outbound_ns :: u64
  md_dissemination_ns :: u64
  total_ns :: u64

record ('g, 'd) LatencyModel =
  lm_seed :: u64
  lm_rng :: 'g
  lm_dist :: 'd
  network_profile :: LatencyProfile
  matching_profile :: LatencyProfile
  md_profile :: LatencyProfile
  default_client_profile :: LatencyProfile
  client_profiles :: "TraderId \<Rightarrow> LatencyProfile option"
  samples_generated :: u64

definition new_latency_model :: "('g, 'd) random_source \<Rightarrow> u64 \<Rightarrow> ('g, 'd) LatencyModel" where
  "new_latency_model rs seed = \<lparr>lm_seed = seed, lm_rng = rd_seed rs seed, lm_dist = rd_fresh rs,
     network_profile = \<lparr>mean_ns = 5000, stddev_ns = 1000, p99_ns = 30000, p999_ns = 100000,
       tail_prob = dbl (1 / 100), min_ns = 500\<rparr>,
     matching_profile = \<lparr>mean_ns = 500, stddev_ns = 100, p99_ns = 2000, p999_ns = 10000,
       tail_prob = dbl (5 / 1000), min_ns = 100\<rparr>,
     md_profile = \<lparr>mean_ns = 2000, stddev_ns = 500, p99_ns = 10000, p999_ns = 50000,
       tail_prob = dbl (1 / 100), min_ns = 200\<rparr>,
     default_client_profile = \<lparr>mean_ns = 5000, stddev_ns = 1000, p99_ns = 30000, p999_ns = 100000,
       tail_prob = dbl (1 / 100), min_ns = 500\<rparr>,
     client_profiles = (\<lambda>_. None), samples_generated = 0\<rparr>"

section \<open>Operations\<close>

definition set_client_profile :: "TraderId \<Rightarrow> LatencyProfile \<Rightarrow> ('g, 'd) LatencyModel \<Rightarrow> ('g, 'd) LatencyModel" where
  "set_client_profile tid profile m = m\<lparr>client_profiles := (client_profiles m)(tid \<mapsto> profile)\<rparr>"

definition get_client_profile :: "TraderId \<Rightarrow> ('g, 'd) LatencyModel \<Rightarrow> LatencyProfile" where
  "get_client_profile tid m =
     (case client_profiles m tid of Some profile \<Rightarrow> profile | None \<Rightarrow> default_client_profile m)"

definition set_network_profile :: "LatencyProfile \<Rightarrow> ('g, 'd) LatencyModel \<Rightarrow> ('g, 'd) LatencyModel" where
  "set_network_profile profile m = m\<lparr>network_profile := profile\<rparr>"

definition set_matching_profile :: "LatencyProfile \<Rightarrow> ('g, 'd) LatencyModel \<Rightarrow> ('g, 'd) LatencyModel" where
  "set_matching_profile profile m = m\<lparr>matching_profile := profile\<rparr>"

definition set_md_profile :: "LatencyProfile \<Rightarrow> ('g, 'd) LatencyModel \<Rightarrow> ('g, 'd) LatencyModel" where
  "set_md_profile profile m = m\<lparr>md_profile := profile\<rparr>"

definition set_seed :: "('g, 'd) random_source \<Rightarrow> u64 \<Rightarrow> ('g, 'd) LatencyModel \<Rightarrow> ('g, 'd) LatencyModel" where
  "set_seed rs seed m = m\<lparr>lm_seed := seed, lm_rng := rd_seed rs seed\<rparr>"

definition draw :: "('d \<Rightarrow> 'g \<Rightarrow> real \<times> 'd \<times> 'g) \<Rightarrow> ('g, 'd) LatencyModel \<Rightarrow> real \<times> ('g, 'd) LatencyModel" where
  "draw distr m = (case distr (lm_dist m) (lm_rng m) of (x, d, g) \<Rightarrow> (x, m\<lparr>lm_dist := d, lm_rng := g\<rparr>))"

definition sample_gaussian_tail ::
  "('g, 'd) random_source \<Rightarrow> LatencyProfile \<Rightarrow> ('g, 'd) LatencyModel \<Rightarrow> real \<times> ('g, 'd) LatencyModel" where
  "sample_gaussian_tail rs profile m =
     (case draw (rd_uniform rs) m of (u, m) \<Rightarrow>
        if u > tail_prob profile
        then (case draw (rd_normal rs) m of (z, m) \<Rightarrow> (dbl (mean_ns profile + dbl (z * stddev_ns profile)), m))
        else let tail_scale = dbl (dbl (p99_ns profile - mean_ns profile) / dbl (23 / 10))
             in (case draw (rd_exponential rs) m of (x, m) \<Rightarrow>
                   let tail_val = dbl (x * tail_scale) in (dbl (mean_ns profile + tail_val), m)))"

definition to_u64 :: "real \<Rightarrow> u64" where
  "to_u64 x = word_of_int (trunc_real x)"

definition sample ::
  "('g, 'd) random_source \<Rightarrow> LatencyProfile \<Rightarrow> ('g, 'd) LatencyModel \<Rightarrow> u64 \<times> ('g, 'd) LatencyModel" where
  "sample rs profile m =
     (let m = m\<lparr>samples_generated := samples_generated m + 1\<rparr> in
      case sample_gaussian_tail rs profile m of (val, m) \<Rightarrow> (to_u64 (max val (min_ns profile)), m))"

definition network_profile_for :: "TraderId \<Rightarrow> ('g, 'd) LatencyModel \<Rightarrow> LatencyProfile" where
  "network_profile_for tid m =
     (case client_profiles m tid of Some profile \<Rightarrow> profile | None \<Rightarrow> network_profile m)"

definition sample_network_latency ::
  "('g, 'd) random_source \<Rightarrow> TraderId \<Rightarrow> ('g, 'd) LatencyModel \<Rightarrow> u64 \<times> ('g, 'd) LatencyModel" where
  "sample_network_latency rs tid m =
     sample rs (network_profile_for tid m) m"

definition sample_matching_latency ::
  "('g, 'd) random_source \<Rightarrow> ('g, 'd) LatencyModel \<Rightarrow> u64 \<times> ('g, 'd) LatencyModel" where
  "sample_matching_latency rs m = sample rs (matching_profile m) m"

definition sample_md_latency ::
  "('g, 'd) random_source \<Rightarrow> ('g, 'd) LatencyModel \<Rightarrow> u64 \<times> ('g, 'd) LatencyModel" where
  "sample_md_latency rs m = sample rs (md_profile m) m"

definition sample_round_trip ::
  "('g, 'd) random_source \<Rightarrow> TraderId \<Rightarrow> ('g, 'd) LatencyModel \<Rightarrow> LatencyBreakdown \<times> ('g, 'd) LatencyModel" where
  "sample_round_trip rs tid m =
     (case sample_network_latency rs tid m of (a, m) \<Rightarrow>
      case sample_matching_latency rs m of (b, m) \<Rightarrow>
      case sample_network_latency rs tid m of (c, m) \<Rightarrow>
      case sample_md_latency rs m of (d, m) \<Rightarrow>
        (\<lparr>network_inbound_ns = a, matching_engine_ns = b, network_outbound_ns = c,
          md_dissemination_ns = d, total_ns = a + b + c\<rparr>, m))"

definition add_jitter ::
  "('g, 'd) random_source \<Rightarrow> u64 \<Rightarrow> real \<Rightarrow> ('g, 'd) LatencyModel \<Rightarrow> u64 \<times> ('g, 'd) LatencyModel" where
  "add_jitter rs base_ns jitter_fraction m =
     (case draw (rd_normal rs) m of (z, m) \<Rightarrow>
        let jitter = dbl (dbl (z * dbl (real (unat base_ns))) * jitter_fraction);
            res = dbl (dbl (real (unat base_ns)) + jitter)
        in (to_u64 (max res 0), m))"

text \<open>The literals for the tail probabilities, for evaluation.\<close>

lemma tail_literals:
  "dbl (1 / 100) * 2 < 1" "dbl (1 / 100) < 1" "dbl (1 / 200) < 1"
  using dbl_at_most_twice [of "1 / 100"] dbl_at_most_twice [of "1 / 200"] by simp_all

section \<open>Samples respect their profile\<close>

lemma draw_frame [simp]:
  "client_profiles (snd (draw d m)) = client_profiles m" "network_profile (snd (draw d m)) = network_profile m"
  "matching_profile (snd (draw d m)) = matching_profile m" "md_profile (snd (draw d m)) = md_profile m"
  "default_client_profile (snd (draw d m)) = default_client_profile m" "lm_seed (snd (draw d m)) = lm_seed m"
  "samples_generated (snd (draw d m)) = samples_generated m"
  by (simp_all add: draw_def case_prod_unfold)

lemma sample_gaussian_tail_frame [simp]:
  "client_profiles (snd (sample_gaussian_tail rs p m)) = client_profiles m"
  "network_profile (snd (sample_gaussian_tail rs p m)) = network_profile m"
  "matching_profile (snd (sample_gaussian_tail rs p m)) = matching_profile m"
  "md_profile (snd (sample_gaussian_tail rs p m)) = md_profile m"
  "samples_generated (snd (sample_gaussian_tail rs p m)) = samples_generated m"
  by (simp_all add: sample_gaussian_tail_def case_prod_unfold Let_def)

lemma sample_frame [simp]:
  "client_profiles (snd (sample rs p m)) = client_profiles m" "network_profile (snd (sample rs p m)) = network_profile m"
  "matching_profile (snd (sample rs p m)) = matching_profile m" "md_profile (snd (sample rs p m)) = md_profile m"
  "samples_generated (snd (sample rs p m)) = samples_generated m + 1"
  by (simp_all add: sample_def case_prod_unfold Let_def)

text \<open>The value a sample is rounded from.\<close>

definition raw_sample :: "('g, 'd) random_source \<Rightarrow> LatencyProfile \<Rightarrow> ('g, 'd) LatencyModel \<Rightarrow> real" where
  "raw_sample rs p m = fst (sample_gaussian_tail rs p (m\<lparr>samples_generated := samples_generated m + 1\<rparr>))"

lemma sample_fst: "fst (sample rs p m) = to_u64 (max (raw_sample rs p m) (min_ns p))"
  by (simp add: sample_def raw_sample_def case_prod_unfold Let_def)

lemma unat_to_u64: "0 \<le> x \<Longrightarrow> x < 2 ^ 64 \<Longrightarrow> unat (to_u64 x) = nat \<lfloor>x\<rfloor>"
proof -
  assume "0 \<le> x" "x < 2 ^ 64"
  then have "0 \<le> \<lfloor>x\<rfloor>" "\<lfloor>x\<rfloor> < 2 ^ 64" by (simp_all add: floor_less_iff)
  then have "uint (word_of_int \<lfloor>x\<rfloor> :: u64) = \<lfloor>x\<rfloor>" by (simp add: uint_word_of_int)
  with \<open>0 \<le> x\<close> show ?thesis by (simp add: to_u64_def trunc_real_def unat_eq_nat_uint)
qed

text \<open>Whatever the draws, a sample is the drawn value raised to the floor of its profile and rounded
  down: it is never below the floor, and the floor is what a draw below it gives.\<close>

theorem sample_floor:
  assumes "0 \<le> min_ns p" and "max (raw_sample rs p m) (min_ns p) < 2 ^ 64"
  shows "unat (fst (sample rs p m)) = nat \<lfloor>max (raw_sample rs p m) (min_ns p)\<rfloor> \<and>
    nat \<lfloor>min_ns p\<rfloor> \<le> unat (fst (sample rs p m)) \<and>
    (raw_sample rs p m \<le> min_ns p \<longrightarrow> unat (fst (sample rs p m)) = nat \<lfloor>min_ns p\<rfloor>)"
proof -
  have "0 \<le> max (raw_sample rs p m) (min_ns p)" using assms(1) by simp
  from unat_to_u64 [OF this assms(2)] show ?thesis
    by (auto simp: sample_fst max_absorb2 intro!: nat_mono floor_mono)
qed

text \<open>A source that draws from given lists, for the concrete runs below.\<close>

definition list_draw :: "unit \<Rightarrow> real list \<Rightarrow> real \<times> unit \<times> real list" where
  "list_draw d g = (hd g, d, tl g)"

definition list_source :: "(u64 \<Rightarrow> real list) \<Rightarrow> (real list, unit) random_source" where
  "list_source seeds = \<lparr>rd_seed = seeds, rd_fresh = (), rd_uniform = list_draw, rd_normal = list_draw,
     rd_exponential = list_draw\<rparr>"

theorem sample_floor_witness:
  "unat (fst (sample (list_source (\<lambda>_. [1 / 2, -9])) default_profile
      (new_latency_model (list_source (\<lambda>_. [1 / 2, -9])) 42))) = 500"
proof -
  let ?rs = "list_source (\<lambda>_. [1 / 2, -9])"
  have raw: "raw_sample ?rs default_profile (new_latency_model ?rs 42) = -4000"
    by (simp add: raw_sample_def sample_gaussian_tail_def draw_def list_source_def list_draw_def
        new_latency_model_def default_profile_def tail_literals)
  have "min_ns default_profile = 500" by (simp add: default_profile_def)
  with sample_floor [of default_profile ?rs "new_latency_model ?rs 42"] raw show ?thesis by simp
qed

text \<open>A round trip is two network latencies and one matching latency.  The total is their sum and
  leaves out the dissemination of market data; four samples are counted; the network samples
  come from the profile of the client if it has one, else from the network profile; no
  profile changes; and with every component below \<open>2\<^sup>6\<^sup>2\<close> the sum does not wrap.\<close>

theorem round_trip_total:
  assumes "sample_round_trip rs tid m = (br, m')"
    and "unat (network_inbound_ns br) < 2 ^ 62" "unat (matching_engine_ns br) < 2 ^ 62"
      "unat (network_outbound_ns br) < 2 ^ 62"
  shows "unat (total_ns br) = unat (network_inbound_ns br) + unat (matching_engine_ns br) + unat (network_outbound_ns br) \<and>
    samples_generated m' = samples_generated m + 4 \<and>
    (let p = network_profile_for tid m;
         m1 = snd (sample rs p m); m2 = snd (sample rs (matching_profile m) m1); m3 = snd (sample rs p m2)
     in network_inbound_ns br = fst (sample rs p m) \<and> matching_engine_ns br = fst (sample rs (matching_profile m) m1) \<and>
        network_outbound_ns br = fst (sample rs p m2) \<and> md_dissemination_ns br = fst (sample rs (md_profile m) m3)) \<and>
    client_profiles m' = client_profiles m \<and> matching_profile m' = matching_profile m"
proof -
  have "total_ns br = network_inbound_ns br + matching_engine_ns br + network_outbound_ns br"
    using assms(1) by (auto simp: sample_round_trip_def case_prod_unfold)
  moreover have "unat (a + b + c) = unat a + unat b + unat c"
    if "unat a < 2 ^ 62" "unat b < 2 ^ 62" "unat c < 2 ^ 62" for a b c :: u64
    using that by (simp add: unat_word_ariths)
  ultimately have "unat (total_ns br) = unat (network_inbound_ns br) + unat (matching_engine_ns br) + unat (network_outbound_ns br)"
    using assms(2-4) by simp
  moreover have "network_profile_for tid (snd (sample rs p m0)) = network_profile_for tid m0" for p m0
    by (simp add: network_profile_for_def split: option.split)
  ultimately show ?thesis using assms(1)
    by (auto simp: sample_round_trip_def case_prod_unfold sample_network_latency_def sample_matching_latency_def
        sample_md_latency_def Let_def add.assoc)
qed

theorem round_trip_total_witness:
  "\<exists>br m. sample_round_trip (list_source (\<lambda>_. [1, 0, 1, 1, 1, 2, 1, 3])) 5
      (new_latency_model (list_source (\<lambda>_. [1, 0, 1, 1, 1, 2, 1, 3])) 42) = (br, m) \<and>
    unat (total_ns br) = 5000 + 600 + 7000 \<and> samples_generated m = 4"
proof -
  let ?rs = "list_source (\<lambda>_. [1, 0, 1, 1, 1, 2, 1, 3])"
  let ?m = "new_latency_model ?rs 42"
  obtain br m where run: "sample_round_trip ?rs 5 ?m = (br, m)" by fastforce
  have "fst (sample_round_trip ?rs 5 ?m) = \<lparr>network_inbound_ns = 5000, matching_engine_ns = 600,
      network_outbound_ns = 7000, md_dissemination_ns = 3500, total_ns = 12600\<rparr>"
    by (simp add: sample_round_trip_def sample_network_latency_def network_profile_for_def
        sample_matching_latency_def sample_md_latency_def sample_def sample_gaussian_tail_def draw_def
        list_source_def list_draw_def new_latency_model_def to_u64_def trunc_real_def Let_def tail_literals)
  with run have br: "network_inbound_ns br = 5000" "matching_engine_ns br = 600" "network_outbound_ns br = 7000"
    by simp_all
  have "samples_generated ?m = 0" by (simp add: new_latency_model_def)
  with round_trip_total [OF run] br have "unat (total_ns br) = 5000 + 600 + 7000 \<and> samples_generated m = 4" by simp
  with run show ?thesis by blast
qed

section \<open>The range of the answers\<close>

text \<open>The requests a simulation makes of the model, and what they return.\<close>

datatype latency_request = NetworkReq TraderId | MatchingReq | MDReq | JitterReq u64 real

fun serve :: "('g, 'd) random_source \<Rightarrow> latency_request \<Rightarrow> ('g, 'd) LatencyModel \<Rightarrow> u64 \<times> ('g, 'd) LatencyModel" where
  "serve rs (NetworkReq tid) m = sample_network_latency rs tid m"
| "serve rs MatchingReq m = sample_matching_latency rs m"
| "serve rs MDReq m = sample_md_latency rs m"
| "serve rs (JitterReq base_ns f) m = add_jitter rs base_ns f m"



definition tail_scale :: "LatencyProfile \<Rightarrow> real" where
  "tail_scale p = dbl (dbl (p99_ns p - mean_ns p) / dbl (23 / 10))"


fun request_profile :: "latency_request \<Rightarrow> ('g, 'd) LatencyModel \<Rightarrow> LatencyProfile option" where
  "request_profile (NetworkReq tid) m = Some (network_profile_for tid m)"
| "request_profile MatchingReq m = Some (matching_profile m)"
| "request_profile MDReq m = Some (md_profile m)"
| "request_profile (JitterReq base_ns f) m = None"










lemma serve_profile [simp]: "request_profile r' (snd (serve rs r m)) = request_profile r' m"
  by (cases r; cases r')
    (simp_all add: sample_network_latency_def sample_matching_latency_def sample_md_latency_def add_jitter_def
      network_profile_for_def case_prod_unfold Let_def split: option.split)




section \<open>Reseeding\<close>

text \<open>A normal distribution that makes values in pairs and keeps the second for the next draw, as the
  polar method does.\<close>

definition paired_normal :: "real option \<Rightarrow> nat \<Rightarrow> real \<times> real option \<times> nat" where
  "paired_normal d g = (case d of Some x \<Rightarrow> (x, None, g) | None \<Rightarrow> (real g, Some (- real g), g + 1))"

definition paired_source :: "(nat, real option) random_source" where
  "paired_source = \<lparr>rd_seed = unat, rd_fresh = None, rd_uniform = (\<lambda>d g. (1, d, g)), rd_normal = paired_normal,
     rd_exponential = (\<lambda>d g. (1, d, g))\<rparr>"

text \<open>Reseeding does not replay a run: \<open>set_seed\<close> reseeds the engine but does not reset the distributions,
  so with a normal distribution that keeps a value the first sample after reseeding with the
  same seed differs from the first sample of the first run.\<close>

theorem set_seed_keeps_cached_normal:
  "let m = new_latency_model paired_source 2; (x, m') = sample_matching_latency paired_source m;
       (y, _) = sample_matching_latency paired_source (set_seed paired_source 2 m')
   in x = 700 \<and> y = 300"
  by (simp add: sample_matching_latency_def sample_def sample_gaussian_tail_def draw_def paired_source_def
      paired_normal_def new_latency_model_def set_seed_def to_u64_def trunc_real_def Let_def tail_literals)

end
