(* ===== verification/Scope_Timer.thy ===== *)
theory Scope_Timer
  imports HFT_Prelude
begin

text \<open>
  The timers of \<^verbatim>\<open>src/src/ScopeTimer.hpp\<close>: the scoped timer and the per-thread table of
  labelled timers.  The readings of the steady clock, in nanoseconds, are arguments; a log
  entry is the label and the duration in the unit \<open>T\<close>, given as its number of nanoseconds.
  The variant compiled with \<open>SCOPE_TIMER_DISABLED\<close> does nothing and is not modelled.

  A table of slots is a list.  \<open>slots_end\<close> returns \<open>None\<close> for the duration when no slot matches:
  the source then flows off the end of a function that returns a value.
\<close>

section \<open>The scoped timer\<close>

record ScopeTimer =
  InUse :: bool
  beginTime :: int

definition timer_start :: "int \<Rightarrow> ScopeTimer \<Rightarrow> ScopeTimer" where
  "timer_start ts t = t\<lparr>InUse := True, beginTime := ts\<rparr>"

definition new_timer :: "int \<Rightarrow> bool \<Rightarrow> int \<Rightarrow> ScopeTimer" where
  "new_timer any raii ts =
     (let t = \<lparr>InUse = False, beginTime = any\<rparr> in if raii then timer_start ts t else t)"

definition timer_end :: "int \<Rightarrow> ScopeTimer \<Rightarrow> int \<times> ScopeTimer" where
  "timer_end ts t = (let t = t\<lparr>InUse := False\<rparr> in (i64 (ts - beginTime t), t))"

definition duration_cast :: "int \<Rightarrow> int \<Rightarrow> int" where
  "duration_cast unit d = tdiv d unit"

definition timer_end_and_log :: "int \<Rightarrow> int \<Rightarrow> ScopeTimer \<Rightarrow> int list \<times> ScopeTimer" where
  "timer_end_and_log unit ts t = (case timer_end ts t of (d, t) \<Rightarrow> ([duration_cast unit d], t))"

definition timer_destruct :: "int \<Rightarrow> int \<Rightarrow> ScopeTimer \<Rightarrow> int list" where
  "timer_destruct unit ts t = (if InUse t then fst (timer_end_and_log unit ts t) else [])"

section \<open>The table of labelled timers\<close>

definition SCOPE_TIMER_MAX_SLOTS :: nat where
  "SCOPE_TIMER_MAX_SLOTS = 32"

record TimerSlot =
  slot_label :: string
  slot_timer :: ScopeTimer
  slot_used :: bool

definition new_slots :: "int \<Rightarrow> TimerSlot list" where
  "new_slots any = replicate SCOPE_TIMER_MAX_SLOTS
     \<lparr>slot_label = [], slot_timer = new_timer any False 0, slot_used = False\<rparr>"

fun slots_start :: "string \<Rightarrow> int \<Rightarrow> TimerSlot list \<Rightarrow> TimerSlot list" where
  "slots_start label ts [] = []"
| "slots_start label ts (item # slots) =
     (if \<not> slot_used item
      then item\<lparr>slot_label := label, slot_used := True, slot_timer := timer_start ts (slot_timer item)\<rparr> # slots
      else item # slots_start label ts slots)"

fun slots_end :: "string \<Rightarrow> int \<Rightarrow> TimerSlot list \<Rightarrow> int option \<times> TimerSlot list" where
  "slots_end label ts [] = (None, [])"
| "slots_end label ts (item # slots) =
     (if slot_used item \<and> slot_label item = label
      then (case timer_end ts (slot_timer item) of (d, t) \<Rightarrow>
              (Some d, item\<lparr>slot_used := False, slot_timer := t\<rparr> # slots))
      else (case slots_end label ts slots of (r, slots) \<Rightarrow> (r, item # slots)))"

fun slots_end_and_log ::
  "int \<Rightarrow> string \<Rightarrow> int \<Rightarrow> TimerSlot list \<Rightarrow> (string \<times> int) list \<times> TimerSlot list" where
  "slots_end_and_log unit label ts [] = ([], [])"
| "slots_end_and_log unit label ts (item # slots) =
     (if slot_label item = label
      then (case timer_end ts (slot_timer item) of (d, t) \<Rightarrow>
              ([(slot_label item, duration_cast unit d)], item\<lparr>slot_timer := t\<rparr> # slots))
      else (case slots_end_and_log unit label ts slots of (out, slots) \<Rightarrow> (out, item # slots)))"

section \<open>Correctness\<close>

definition slots_used :: "TimerSlot list \<Rightarrow> nat" where
  "slots_used slots = length (filter slot_used slots)"

lemma slots_start_end:
  assumes "\<not> list_all slot_used slots" "\<forall>item \<in> set slots. slot_used item \<longrightarrow> slot_label item \<noteq> label"
  shows "\<exists>slots'. slots_end label ts1 (slots_start label ts0 slots) = (Some (i64 (ts1 - ts0)), slots') \<and>
    map slot_used slots' = map slot_used slots"
  using assms
proof (induction slots)
  case (Cons item slots)
  show ?case
  proof (cases "slot_used item")
    case False
    then show ?thesis by (simp add: timer_start_def timer_end_def Let_def)
  next
    case True
    with Cons show ?thesis by (auto split: prod.split)
  qed
qed simp

text \<open>A labelled timer measures: on any table with a free slot and no running timer of the label,
  starting it at one time and ending it at another returns the difference, and the same slots
  are free again.\<close>

theorem slot_timer_measures:
  assumes "\<not> list_all slot_used slots" and "\<forall>item \<in> set slots. slot_used item \<longrightarrow> slot_label item \<noteq> label"
    and "in_i64 (ts1 - ts0)"
  shows "\<exists>slots'. slots_end label ts1 (slots_start label ts0 slots) = (Some (ts1 - ts0), slots') \<and>
    map slot_used slots' = map slot_used slots"
  using slots_start_end [OF assms(1,2), of ts1 ts0] assms(3) by (simp add: i64_id)

theorem slot_timer_measures_witness:
  "\<exists>slots'. slots_end ''match'' 170 (slots_start ''match'' 100 (new_slots 0)) = (Some 70, slots')"
proof -
  have "\<not> list_all slot_used (new_slots 0)"
    "\<forall>item \<in> set (new_slots 0). slot_used item \<longrightarrow> slot_label item \<noteq> ''match''"
    by (simp_all add: new_slots_def SCOPE_TIMER_MAX_SLOTS_def numeral_eq_Suc)
  from slot_timer_measures [OF this, of 170 100] show ?thesis by (auto simp: in_i64_def i64_min_def i64_max_def)
qed

lemma slots_start_used:
  "slots_used (slots_start label ts slots) = (if list_all slot_used slots then slots_used slots else slots_used slots + 1)"
  by (induction slots) (simp_all add: slots_used_def)

lemma slots_log_used:
  "map slot_used (snd (slots_end_and_log unit label ts slots)) = map slot_used slots"
  by (induction slots) (auto split: prod.split)

lemma slots_used_cong: "map slot_used xs = map slot_used ys \<Longrightarrow> slots_used xs = slots_used ys \<and>
    list_all slot_used xs = list_all slot_used ys"
proof -
  assume eq: "map slot_used xs = map slot_used ys"
  have u: "slots_used zs = length (filter id (map slot_used zs))" "list_all slot_used zs = list_all id (map slot_used zs)"
    for zs by (induction zs) (simp_all add: slots_used_def)
  show ?thesis by (simp only: u eq)
qed

lemma slots_start_full: "list_all slot_used slots \<Longrightarrow> slots_start label ts slots = slots"
  by (induction slots) simp_all

lemma slots_used_full: "slots_used slots = length slots \<longleftrightarrow> list_all slot_used slots"
proof (induction slots)
  case (Cons item slots)
  have "length (filter slot_used slots) \<noteq> Suc (length slots)" by (metis length_filter_le Suc_n_not_le_n)
  with Cons show ?case by (auto simp: slots_used_def)
qed (simp add: slots_used_def)

lemma slots_used_le: "slots_used slots \<le> length slots"
  by (simp add: slots_used_def)

lemma length_slots_start [simp]: "length (slots_start label ts slots) = length slots"
  by (induction slots) simp_all

lemma length_slots_log [simp]: "length (snd (slots_end_and_log unit label ts slots)) = length slots"
  using slots_log_used [of unit label ts slots] by (metis length_map)

text \<open>One timed section that ends with a log entry.\<close>

definition timed_section :: "int \<Rightarrow> string \<times> int \<times> int \<Rightarrow> TimerSlot list \<Rightarrow> TimerSlot list" where
  "timed_section unit sect slots =
     (case sect of (label, ts0, ts1) \<Rightarrow> snd (slots_end_and_log unit label ts1 (slots_start label ts0 slots)))"

lemma timed_section_used:
  "slots_used (timed_section unit sect slots) = min (length slots) (slots_used slots + 1)"
  "length (timed_section unit sect slots) = length slots"
proof -
  obtain label ts0 ts1 where s: "sect = (label, ts0, ts1)" by (cases sect)
  have "slots_used (timed_section unit sect slots) = slots_used (slots_start label ts0 slots)"
    using slots_used_cong [OF slots_log_used] by (simp add: timed_section_def s)
  then show "slots_used (timed_section unit sect slots) = min (length slots) (slots_used slots + 1)"
    using slots_start_used [of label ts0 slots] slots_used_full [of slots] slots_used_le [of slots] by auto
  show "length (timed_section unit sect slots) = length slots" by (simp add: timed_section_def s)
qed

lemma timed_sections_used:
  "slots_used (fold (timed_section unit) sects slots) = min (length slots) (slots_used slots + length sects) \<and>
   length (fold (timed_section unit) sects slots) = length slots"
  using slots_used_le [of slots]
proof (induction sects arbitrary: slots)
  case (Cons s sects)
  from Cons.IH [of "timed_section unit s slots"] timed_section_used [of unit s slots]
    slots_used_le [of "timed_section unit s slots"]
  show ?case by simp
qed simp

text \<open>\<open>endAndLog\<close> never releases its slot: after 32 timed sections, whatever their labels, the
  table is full and every later \<open>start\<close> is ignored.\<close>

theorem end_and_log_exhausts_slots:
  "length sects = SCOPE_TIMER_MAX_SLOTS \<Longrightarrow>
    slots_start label ts (fold (timed_section unit) sects (new_slots any)) =
      fold (timed_section unit) sects (new_slots any)"
proof -
  assume "length sects = SCOPE_TIMER_MAX_SLOTS"
  moreover have "slots_used (new_slots any) = 0" "length (new_slots any) = SCOPE_TIMER_MAX_SLOTS"
    by (simp_all add: new_slots_def slots_used_def)
  ultimately have "slots_used (fold (timed_section unit) sects (new_slots any)) =
      length (fold (timed_section unit) sects (new_slots any))"
    using timed_sections_used [of unit sects "new_slots any"] by simp
  then show ?thesis by (intro slots_start_full) (simp add: slots_used_full)
qed

theorem end_and_log_exhausts_slots_witness:
  "slots_start ''b'' 9 (fold (timed_section 1) (replicate 32 (''a'', 1, 2)) (new_slots 0)) =
    fold (timed_section 1) (replicate 32 (''a'', 1, 2)) (new_slots 0)"
  by (rule end_and_log_exhausts_slots) (simp add: SCOPE_TIMER_MAX_SLOTS_def)

text \<open>The second section of a label is measured from the start of the first: \<open>endAndLog\<close> looks at
  the label alone and finds the slot that the first section left behind.\<close>

theorem end_and_log_reports_first_start:
  "fst (slots_end_and_log 1 label ts3 (slots_start label ts2 (timed_section 1 (label, ts0, ts1) (new_slots any)))) =
    [(label, i64 (ts3 - ts0))]"
  by (simp add: timed_section_def new_slots_def SCOPE_TIMER_MAX_SLOTS_def numeral_eq_Suc timer_start_def
      timer_end_def duration_cast_def tdiv_def Let_def sgn_mult_abs)

end
