(* ===== verification/Benchmark.thy ===== *)
theory Benchmark
  imports Latency_Histogram "HOL-Library.Multiset"
begin

text \<open>
  The percentile benchmark of \<^verbatim>\<open>src/src/benchmark_p99.hpp\<close>.  The callable and the clock are a
  parameter: \<open>elapsed i\<close> is the duration of the \<open>i\<close>-th measured call.  The result holds the
  statistics, the caller's buffer afterwards and the number of calls made.  The index of a
  percentile is computed in doubles, from a rounded literal and with a rounded product.
\<close>

record BenchStats =
  bs_p99_ns :: int
  bs_p999_ns :: int
  bs_samples :: nat

definition clamp_index :: "nat \<Rightarrow> nat \<Rightarrow> nat" where
  "clamp_index idx sz = (if idx \<ge> sz then (if sz \<noteq> 0 then sz - 1 else 0) else idx)"

definition benchmark_p99 :: "(nat \<Rightarrow> int) \<Rightarrow> int list \<Rightarrow> nat \<Rightarrow> nat \<Rightarrow> BenchStats \<times> int list \<times> nat" where
  "benchmark_p99 elapsed latencies_buffer iterations warmup_iterations =
     (let iterations = (if iterations > length latencies_buffer then length latencies_buffer else iterations);
          calls = warmup_iterations + iterations;
          latencies_buffer = map elapsed [0..<iterations] @ drop iterations latencies_buffer
      in if iterations = 0 then (\<lparr>bs_p99_ns = 0, bs_p999_ns = 0, bs_samples = 0\<rparr>, latencies_buffer, calls)
         else let data = sort (take iterations latencies_buffer);
                  n = iterations;
                  idx_p99 = clamp_index (nat \<lfloor>dbl (dbl (99 / 100) * dbl (real (n - 1)))\<rfloor>) n;
                  idx_p999 = clamp_index (nat \<lfloor>dbl (dbl (999 / 1000) * dbl (real (n - 1)))\<rfloor>) n
              in (\<lparr>bs_p99_ns = data ! idx_p99, bs_p999_ns = data ! idx_p999, bs_samples = n\<rparr>,
                  data @ drop iterations latencies_buffer, calls))"

text \<open>The rounding does not move the index, and the clamp does not take effect.\<close>

lemma percentile_index:
  assumes c: "good_literal c a b" and n: "0 < n" "n \<le> 2 ^ 42"
  shows "clamp_index (nat \<lfloor>dbl (c * dbl (real (n - 1)))\<rfloor>) n = (n - 1) * a div b" and "(n - 1) * a div b < n"
proof -
  have "n - 1 < 2 ^ 42" "n - 1 \<le> 2 ^ 53" using n by simp_all
  with dbl_rank(1) [OF c, of "n - 1"] have idx: "nat \<lfloor>dbl (c * dbl (real (n - 1)))\<rfloor> = (n - 1) * a div b"
    by (simp add: mult.commute)
  have "(n - 1) * a \<le> (n - 1) * b" using c by (simp add: good_literal_def)
  then have "(n - 1) * a div b \<le> (n - 1) * b div b" by (rule div_le_mono)
  also have "\<dots> = n - 1" using c by (simp add: good_literal_def)
  finally show less: "(n - 1) * a div b < n" using n(1) by simp
  show "clamp_index (nat \<lfloor>dbl (c * dbl (real (n - 1)))\<rfloor>) n = (n - 1) * a div b"
    unfolding idx clamp_index_def by (rule if_not_P) (use less in simp)
qed

text \<open>At most \<open>length xs - 1 - i\<close> elements exceed the \<open>i\<close>-th of a sorted list.\<close>

lemma count_above_sorted:
  fixes ys :: "int list"
  assumes "sorted ys" "i < length ys"
  shows "length (filter (\<lambda>y. y > ys ! i) ys) \<le> length ys - 1 - i"
proof -
  have "\<not> ys ! j > ys ! i" if "j \<le> i" for j using sorted_nth_mono [OF assms(1) that assms(2)] by simp
  then have "filter (\<lambda>y. y > ys ! i) (take (Suc i) ys) = []"
    using assms(2) by (auto simp: filter_empty_conv in_set_conv_nth)
  then have "filter (\<lambda>y. y > ys ! i) ys = filter (\<lambda>y. y > ys ! i) (drop (Suc i) ys)"
    by (metis append_self_conv2 append_take_drop_id filter_append)
  then show ?thesis using length_filter_le [of "\<lambda>y. y > ys ! i" "drop (Suc i) ys"] by simp
qed

text \<open>The index of the source is one below the nearest rank, counted from one, for lengths just above a
  multiple of the denominator, and two below it for all others.\<close>

lemma index_rank:
  assumes n: "0 < n" and c: "0 < c"
  shows "(n - 1) * c div Suc c = rank_of c (Suc c) n - (if n mod Suc c \<le> 1 then 1 else 2)"
proof -
  define k r where "k = n div Suc c" and "r = n mod Suc c"
  have nk: "n = k * Suc c + r" and r: "r \<le> c" by (simp_all add: k_def r_def less_Suc_eq_le [symmetric] del: mult_Suc_right)
  have div: "m div Suc c = q" if "m = q * Suc c + d" "d \<le> c" for m q d :: nat
    using that by (intro div_nat_eqI) simp_all
  have "n * c + c = (k * c + r) * Suc c + (c - r)" using r by (simp add: nk algebra_simps)
  then have rank: "rank_of c (Suc c) n = k * c + r" unfolding rank_of_def by (intro div [of _ _ "c - r"]) simp_all
  consider "r = 0" | "r = 1" | q where "r = q + 2" by (metis add_2_eq_Suc' less_2_cases not_less_eq nat_neq_iff old.nat.exhaust One_nat_def)
  then show ?thesis
  proof cases
    case 1
    then obtain j where j: "k = Suc j" using n nk by (cases k) auto
    obtain d where d: "c = Suc d" using c by (cases c) auto
    have "(n - 1) * c = (k * c - 1) * Suc c + 1" by (simp add: nk 1 j d algebra_simps)
    then have "(n - 1) * c div Suc c = k * c - 1" by (rule div) (use c in simp)
    then show ?thesis by (simp add: rank 1 flip: r_def)
  next
    case 2
    then have "(n - 1) * c = (k * c) * Suc c + 0" by (simp add: nk algebra_simps)
    then have "(n - 1) * c div Suc c = k * c" by (rule div) simp
    then show ?thesis by (simp add: rank 2 flip: r_def)
  next
    case (3 q)
    then obtain d where d: "c = q + 2 + d" using r le_Suc_ex [of "q + 2" c] by auto
    have "(n - 1) * c = (k * c + q) * Suc c + (c - q)" by (simp add: nk 3 d algebra_simps)
    then have "(n - 1) * c div Suc c = k * c + q" by (rule div) simp
    then show ?thesis by (simp add: rank 3 flip: r_def)
  qed
qed

lemma benchmark_indices:
  assumes "iterations \<noteq> 0" and "buffer \<noteq> []" and small: "length buffer \<le> 2 ^ 42"
    and run: "benchmark_p99 elapsed buffer iterations warmup = (st, buffer', calls)"
  defines "n \<equiv> min iterations (length buffer)" and "xs \<equiv> map elapsed [0..<min iterations (length buffer)]"
  shows "bs_samples st = n \<and> calls = warmup + n \<and> mset (take n buffer') = mset xs \<and> sorted (take n buffer') \<and>
    drop n buffer' = drop n buffer \<and>
    bs_p99_ns st = sort xs ! ((n - 1) * 99 div 100) \<and> bs_p999_ns st = sort xs ! ((n - 1) * 999 div 1000) \<and>
    bs_p99_ns st \<in> set xs \<and> bs_p999_ns st \<in> set xs \<and> bs_p99_ns st \<le> bs_p999_ns st \<and>
    100 * length (filter (\<lambda>x. x > bs_p99_ns st) xs) < n - 1 + 100 \<and>
    1000 * length (filter (\<lambda>x. x > bs_p999_ns st) xs) < n - 1 + 1000"
proof -
  let ?i = "(n - 1) * 99 div 100" and ?j = "(n - 1) * 999 div 1000"
  have n: "0 < n" "n \<le> length buffer" "n \<le> 2 ^ 42" using assms(1,2) small by (simp_all add: n_def)
  have iter: "(if iterations > length buffer then length buffer else iterations) = n" by (simp add: n_def)
  have xs: "xs = map elapsed [0..<n]" "length xs = n" by (simp_all add: xs_def n_def)
  note idx = percentile_index [OF good_literals(4) n(1,3)] percentile_index [OF good_literals(5) n(1,3)]
  have st: "st = \<lparr>bs_p99_ns = sort xs ! ?i, bs_p999_ns = sort xs ! ?j, bs_samples = n\<rparr>"
    and buf: "buffer' = sort xs @ drop n buffer" and calls: "calls = warmup + n"
    using run n(1) idx(1,3) xs(2) unfolding benchmark_p99_def iter
    by (simp_all add: Let_def xs(1) [symmetric] del: upt_Suc)
  have above: "length (filter (\<lambda>x. x > sort xs ! k) xs) \<le> n - 1 - k" if "k < n" for k
  proof -
    have "length (filter (\<lambda>x. x > sort xs ! k) xs) = length (filter (\<lambda>x. x > sort xs ! k) (sort xs))"
      by (metis mset_filter mset_sort size_mset)
    with count_above_sorted [of "sort xs" k] that xs(2) show ?thesis by simp
  qed
  have "100 * (n - 1 - ?i) < n - 1 + 100" "1000 * (n - 1 - ?j) < n - 1 + 1000" by linarith+
  with above [OF idx(2)] above [OF idx(4)]
  have "100 * length (filter (\<lambda>x. x > sort xs ! ?i) xs) < n - 1 + 100"
    "1000 * length (filter (\<lambda>x. x > sort xs ! ?j) xs) < n - 1 + 1000" by linarith+
  moreover have "sort xs ! ?i \<in> set xs" "sort xs ! ?j \<in> set xs"
    using idx(2,4) xs(2) nth_mem [of _ "sort xs"] by simp_all
  moreover have ij: "?i \<le> ?j" by linarith
  moreover have "sort xs ! ?i \<le> sort xs ! ?j"
    by (rule sorted_nth_mono [OF _ ij]) (use idx(4) in \<open>simp_all only: sorted_sort length_sort xs(2)\<close>)
  ultimately show ?thesis using xs(2) by (simp add: st buf calls)
qed

text \<open>C39. What the benchmark reports, and that it is not the nearest rank its comment promises.  With at
  least one measured call and a buffer of at most 2^42 entries, as many calls are measured as
  asked for or fit the buffer; the front of the buffer ends up holding exactly the measured
  durations in ascending order and the rest is untouched.  The reported values are the durations
  at the indices \<open>(n - 1) * 99 div 100\<close> and \<open>(n - 1) * 999 div 1000\<close> in exact arithmetic, although
  they are computed in doubles.  These are the nearest ranks only for \<open>n\<close> that leave 0 or 1 when
  divided by 100 (by 1000); for all other \<open>n\<close> they are one rank below, so that
  of 2 to 99 measurements the second longest is reported as the p99.\<close>

theorem benchmark_percentiles:
  assumes "iterations \<noteq> 0" and "buffer \<noteq> []" and small: "length buffer \<le> 2 ^ 42"
    and run: "benchmark_p99 elapsed buffer iterations warmup = (st, buffer', calls)"
  defines "n \<equiv> min iterations (length buffer)" and "xs \<equiv> map elapsed [0..<min iterations (length buffer)]"
  shows "bs_samples st = n \<and> calls = warmup + n \<and> mset (take n buffer') = mset xs \<and> sorted (take n buffer') \<and>
    drop n buffer' = drop n buffer \<and>
    bs_p99_ns st = sort xs ! ((n - 1) * 99 div 100) \<and> bs_p999_ns st = sort xs ! ((n - 1) * 999 div 1000) \<and>
    bs_p99_ns st = sort xs ! (rank_of 99 100 n - (if n mod 100 \<le> 1 then 1 else 2)) \<and>
    bs_p999_ns st = sort xs ! (rank_of 999 1000 n - (if n mod 1000 \<le> 1 then 1 else 2)) \<and>
    bs_p99_ns st \<in> set xs \<and> bs_p999_ns st \<in> set xs \<and> bs_p99_ns st \<le> bs_p999_ns st \<and>
    100 * length (filter (\<lambda>x. x > bs_p99_ns st) xs) < n - 1 + 100 \<and>
    1000 * length (filter (\<lambda>x. x > bs_p999_ns st) xs) < n - 1 + 1000"
proof -
  have n: "0 < n" using assms(1,2) by (simp add: n_def)
  have suc: "Suc 99 = 100" "Suc 999 = 1000" by simp_all
  note index = index_rank [OF n, of 99, unfolded suc] index_rank [OF n, of 999, unfolded suc]
  note B = benchmark_indices [OF assms(1-4), folded xs_def, folded n_def]
  have "bs_p99_ns st = sort xs ! (rank_of 99 100 n - (if n mod 100 \<le> 1 then 1 else 2))"
    using B index(1) by (simp only: zero_less_numeral simp_thms)
  moreover have "bs_p999_ns st = sort xs ! (rank_of 999 1000 n - (if n mod 1000 \<le> 1 then 1 else 2))"
    using B index(2) by (simp only: zero_less_numeral simp_thms)
  ultimately show ?thesis using B by blast
qed

theorem benchmark_percentiles_witness:
  "\<exists>st b calls. benchmark_p99 (\<lambda>i. 50 - int i) [0, 0, 0, 77] 3 2 = (st, b, calls) \<and> calls = 5 \<and>
    sorted (take 3 b) \<and> drop 3 b = [77] \<and> bs_p99_ns st = 49 \<and> [48, 49, 50] ! (rank_of 99 100 3 - 1) = (50 :: int)"
proof -
  obtain st b calls where run: "benchmark_p99 (\<lambda>i. 50 - int i) [0, 0, 0, 77] 3 2 = (st, b, calls)"
    by (metis prod_cases3)
  have min: "min 3 (length [0, 0, 0, 77 :: int]) = 3" by simp
  have xs: "map (\<lambda>i. 50 - int i) [0..<3] = [50, 49, 48]" by (simp add: upt_rec)
  have sort: "sort [50, 49, 48 :: int] ! ((3 - 1) * 99 div 100) = 49" by simp
  from benchmark_percentiles [OF _ _ _ run, unfolded min xs sort] have
    "calls = 2 + 3" "sorted (take 3 b)" "drop 3 b = drop 3 [0, 0, 0, 77]" "bs_p99_ns st = 49" by simp_all
  moreover have "rank_of 99 100 3 - 1 = 2" by (simp add: rank_of_def)
  ultimately show ?thesis using run by simp
qed

end
