(* ===== verification/Spec2Isabelle.thy ===== *)
theory Spec2Isabelle
  imports Loop_Progress Exchange_Views Risk_Spec Books_Agree Memory_Pool_Orders Memory_Pool_Progress Trade_Profit Latency_Model Scope_Timer Benchmark
begin

text \<open>
  HFTToolset is a C++ library of the parts of an electronic exchange: order books, a matching
  engine with a pre-trade risk engine, market data, position keeping, and the queues, pools,
  clocks and metrics around them.  This development models its sources under
  \<^verbatim>\<open>src/src\<close> and proves what makes each part correct and how the parts work together, and
  where the code does less than it promises.  This theory imports all others and holds the
  properties that span several components.

  \<^bold>\<open>How the parts interact.\<close>  A new order enters the \<^verbatim>\<open>MatchingEngine\<close>, directly or through a
  ring buffer of events that a consumer loop drains.  The engine looks the symbol up, asks the
  \<^verbatim>\<open>RiskEngine\<close>, and hands the order to the \<^verbatim>\<open>L3OrderBook\<close> of the symbol, which matches it
  against the resting orders and lets the rest of it rest.  Trades and tops of book come back
  through the callbacks of the book; the engine counts the trades, feeds the \<^verbatim>\<open>L1Feed\<close>, books
  the fill of the aggressor with the risk engine, and publishes reports and \<^verbatim>\<open>L2Aggregator\<close>
  snapshots through callbacks of its own.  Those feed the \<^verbatim>\<open>MarketDataEngine\<close> (which throttles,
  queues and delivers), the \<^verbatim>\<open>TradeEngine\<close> (positions, profit and loss) and the \<^verbatim>\<open>Telemetry\<close>.

  \<^bold>\<open>Theories and sources.\<close>
  \<^item> \<open>HFT_Prelude\<close>, \<open>HFT_Types\<close>, \<open>Engine_Types\<close>: machine integers, and the types and constants
    of \<^verbatim>\<open>common/types.h\<close> and \<^verbatim>\<open>common/constants.h\<close>, with \<open>symbol_roundtrip\<close> and the injective
    symbol hash.
  \<^item> \<open>Binary64\<close>: the rounding of doubles; its error, monotonicity and exact cases, and the ranks and
    quotients that survive it.
  \<^item> \<open>Price_Levels\<close>, \<open>L3_Book\<close>: the maps of price levels with stable list iterators, and
    every operation of \<^verbatim>\<open>orderbook/l3_order_book.cpp\<close>.  \<open>L3_Match\<close> computes the matching loops in
    closed form; \<open>L3_Invariant\<close> and \<open>L3_Operations\<close> prove the well-formedness invariant over all
    reachable books; \<open>L3_Properties\<close> and \<open>L3_Reports\<close> state what the book promises (priority,
    limits, conservation, fill-or-kill, cancels as deletion from an abstract map, reports);
    \<open>L3_Service\<close> is the contract on which the engine rests, a locale interpreted on the book.
  \<^item> \<open>Market_Views\<close>: \<^verbatim>\<open>orderbook/l2_aggregator.cpp\<close> and \<^verbatim>\<open>orderbook/l1_feed.cpp\<close>.
  \<^item> \<open>Risk_Engine\<close>, \<open>Risk_Properties\<close>, \<open>Risk_Spec\<close>: \<^verbatim>\<open>risk/risk_engine.cpp\<close>, with the rate-limit
    window, the position bounds, the kill switches and the wrap-arounds; and its verdicts as a
    function of the history of events alone.
  \<^item> \<open>Clock\<close>: \<^verbatim>\<open>common/clock.cpp\<close>.
  \<^item> \<open>Matching_Engine\<close>, \<open>Engine_Properties\<close>, \<open>Engine_Claims\<close>: \<^verbatim>\<open>market/matching_engine.cpp\<close>, the
    invariant of its reachable states, and its properties.
  \<^item> \<open>Bounded_Queue\<close>, \<open>Ring_Buffer\<close>: the contract of a bounded queue as a locale, and
    \<^verbatim>\<open>HPRingBuffer.hpp\<close> as its interpretation; then its operations split at their atomic accesses.
  \<^item> \<open>Weak_Memory\<close>, \<open>Ring_Orders\<close>: the C++ memory orders as views, and the ring buffer under the
    orders its accesses ask for; loads may return old values, slots are checked for data races.
    \<open>ring_orders_suffice\<close> reduces the buffer to the interleaving, \<open>ring_orders_needed\<close> shows that
    no order can be relaxed.
  \<^item> \<open>Market_Data\<close>: \<^verbatim>\<open>market/market_data_engine.cpp\<close> and \<^verbatim>\<open>market/market_data_publisher.cpp\<close>.
  \<^item> \<open>Trade_Engine\<close>, \<open>Trade_Profit\<close>: \<^verbatim>\<open>market/trade_engine.cpp\<close>, positions and profit and loss, and
    how far rounding takes the profit from the money made.
  \<^item> \<open>Simple_Book\<close>, \<open>Simple_Book_Claims\<close>: the lightweight book of \<^verbatim>\<open>market/order_book.cpp\<close>.
  \<^item> \<open>Book_Spec\<close>, \<open>Books_Agree\<close>: the abstract price-time priority book, the L3 book as its
    implementation, and the equivalence of the two order books.
  \<^item> \<open>Exchange_Spec\<close>: an abstract exchange (quotes per symbol and side, a routing directory, the risk
    engine) with three commands, which the matching engine refines along every run.
  \<^item> \<open>Exchange_Views\<close>: the depth and the top of book that the engine shows, as functions of the quotes of
    the exchange; an invariant of the reachable engines says that the feed is never stale.
  \<^item> \<open>Memory_Pool\<close>, \<open>Memory_Pool_Threads\<close>, \<open>Memory_Pool_Orders\<close>, \<open>Memory_Pool_Progress\<close>:
    \<^verbatim>\<open>common/memory_pool.h\<close>, run alone, by threads, and by threads under its memory orders; and a
    potential that bounds the accesses per completed operation.  \<open>pool_orders_suffice\<close> is its safety with
    one allocating thread; with two, \<open>pool_orders_needed\<close> has a data race and a slot handed out twice.
  \<^item> \<open>Latency_Histogram\<close>, \<open>Telemetry\<close>: \<^verbatim>\<open>metrics/latency_histogram.h\<close> and
    \<^verbatim>\<open>metrics/telemetry.cpp\<close>; the collector refines the log of what was recorded.
  \<^item> \<open>Latency_Model\<close>: \<^verbatim>\<open>latency/latency_model.cpp\<close> over an abstract source of random numbers.
  \<^item> \<open>Scope_Timer\<close>, \<open>Benchmark\<close>: \<^verbatim>\<open>ScopeTimer.hpp\<close> and \<^verbatim>\<open>benchmark_p99.hpp\<close>.
  \<^item> \<open>Pipeline\<close>: the engine wired to its sinks and its queue, after \<^verbatim>\<open>market/README.md\<close>.
  \<^item> \<open>Threaded_Loop\<close>, \<open>Loop_Progress\<close>: a gateway thread that pushes and a matching thread that runs the
    consumer loop.  \<open>Loop_Progress\<close> adds the exit of the loop at an empty queue: left alone it
    processes everything and returns (\<open>matching_loop_finishes\<close>), but it can also return with orders
    pending (\<open>matching_loop_returns_early\<close>).

  \<^bold>\<open>Conventions.\<close>  Classes and structs are records, one function per operation; the two overloads
  or mirrored branches of an operation are one function when they do the same.  Unsigned
  integers are words; signed 64-bit values are integers on which \<open>i64\<close> writes the wrap-around
  out.  Errors, missing entries and undefined behaviour are values: \<open>None\<close> or \<open>Inl\<close>.  Callback
  invocations are logged in their order.  Clock readings, random numbers and values that C++
  leaves indeterminate are arguments.  Doubles are real numbers with every operation, conversion
  and literal rounded to 53 bits (\<open>Binary64\<close>), and \<open>None\<close> for the result of a division by zero.
  Unordered maps are functions to \<open>option\<close>, or association lists where the code iterates over
  them.

  \<^bold>\<open>Loops and bounds.\<close>  No model runs on fuel.  The matching loops are structural recursions over
  levels and queues, or have a measure (the lightweight book); the delivery and consumer loops
  are the partial function \<open>drain\<close>, whose termination on every well-formed queue is part of
  \<open>pending_all_delivered\<close> and \<open>matching_loop_in_order\<close>.  The retry loops of the memory pool are
  steps of an interleaving; a thread alone ends within seven (\<open>pool_solo_finishes\<close>), the number
  of accesses of the longest operation, and \<open>k\<close> threads make at most \<open>2 k + 8\<close> accesses for each
  operation that completes (\<open>pool_lock_free\<close>).  The matching loop on its own thread returns after at
  most four accesses per pending order and two more (\<open>matching_loop_finishes\<close>).

  \<^bold>\<open>What the properties of this theory show.\<close>  \<open>metrics_follow_engine\<close>: counters of three components
  agree along every run.  \<open>risk_forgets_resting_traders\<close>: the positions of the risk engine and of
  the trade engine drift apart by exactly the resting fills.  \<open>order_market_data\<close>: what a
  throttled market data engine makes of one order.  \<open>matching_loop_in_order\<close>: the consumer loop.

  \<^bold>\<open>Not modelled.\<close>  Console output beyond the numbers it shows; overflow and
  underflow of doubles; the memory orders of the clock, the kill switch and the telemetry, whose atomics
  are independent of each other and single steps of an interleaving; address arithmetic inside the memory pool; the
  variant of the scope timer that is compiled out; the empty
  \<^verbatim>\<open>library_anchor.cpp\<close>; \<^verbatim>\<open>latency_histogram.cpp\<close>, which only instantiates the template; and the usage example under \<^verbatim>\<open>src/examples\<close>.
\<close>

section \<open>The components together\<close>

text \<open>C20. The metrics agree with the engine.  Along every run of an engine whose trade and execution
  handlers feed the telemetry and the trade engine, both sinks have counted exactly the trades
  the engine and its books have counted, and the same quantity; the telemetry has counted as
  many orders as the engine has processed, plus one for every cancel or replace request of a
  known symbol; and the positions of the trade engine still cancel.\<close>

theorem metrics_follow_engine:
  assumes "watched n e"
  shows "let tel = fold telemetry_output (me_log e) new_telemetry;
             te = fold position_output (me_log e) new_trade_engine
    in tel_trades tel = trades_generated e \<and> te_total_trades te = trades_generated e \<and>
       trades_generated e = (\<Sum>s \<in> symbols e. trade_count (the (get_book s e))) \<and>
       total_fill_qty tel = word_of_int (te_total_volume te) \<and>
       tel_orders tel = orders_processed e + word_of_nat n \<and>
       (\<forall>s. i64 (net_total s (positions te)) = 0)"
proof -
  have gaps: "trade_outs (me_log e) = trades_generated e" "report_outs (me_log e) = orders_processed e + word_of_nat n"
    using watched_gaps [OF assms] by (simp_all add: trade_gap_def report_gap_def algebra_simps)
  note inv = engine_reach_inv [OF watched_reach [OF assms]]
  have "known e = symbols e" by (auto simp: known_def symbols_def get_book_def)
  then have "trades_generated e = (\<Sum>s \<in> symbols e. trade_count (the (get_book s e)))"
    using inv by (simp add: engine_inv_def trades_in_books_def)
  moreover have "te_total_volume (fold position_output (me_log e) new_trade_engine) = i64 (traded_qty (me_log e))"
    using position_volume [of new_trade_engine "me_log e"] by (simp add: new_trade_engine_def)
  moreover have "tel_trades new_telemetry = 0" "tel_orders new_telemetry = 0" "total_fill_qty new_telemetry = 0"
    "te_total_trades new_trade_engine = 0" by (simp_all add: new_telemetry_def new_trade_engine_def)
  moreover note te_reach_inv [OF position_reach [OF te_reach.new]]
  ultimately show ?thesis
    by (simp add: tel_trade_counter.counted_all tel_order_counter.counted_all tel_qty_counter.counted_all
        te_trade_counter.counted_all word_of_traded_qty gaps [unfolded trade_outs_def report_outs_def] Let_def)
qed

definition demo_watched :: MatchingEngine where
  "demo_watched = snd (process_new_order (eng_order 2 9 Buy 101 4) 2 2
     (snd (process_new_order (eng_order 1 8 Sell 101 10) 1 1
       (add_symbol zero_level zero_level demo_symbol (me_on_execution (me_on_trade new_engine))))))"

lemma demo_watched: "watched 0 demo_watched"
  unfolding demo_watched_def
  by (intro watched.new_order watched.symbol watched.start)
    (simp_all add: eng_order_def in_i64_def i64_min_def i64_max_def)

theorem metrics_follow_engine_witness:
  "tel_trades (fold telemetry_output (me_log demo_watched) new_telemetry) = 1 \<and>
   te_total_trades (fold position_output (me_log demo_watched) new_trade_engine) = 1 \<and>
   tel_orders (fold telemetry_output (me_log demo_watched) new_telemetry) = 2"
proof -
  have "(trades_generated demo_watched, orders_processed demo_watched) = (1, 2)" by code_simp
  with metrics_follow_engine [OF demo_watched] show ?thesis by (simp add: Let_def)
qed

text \<open>C21. Two books of positions drift apart.  Let the trade engine be fed with the trades of the
  matching engine, and let it agree with the attached risk engine on all positions in a symbol.
  After an accepted order, not fill-or-kill, the two differ for each trader by exactly the
  quantity the order took from resting orders of that trader, which only the trade engine
  books; so they agree again exactly where nothing was taken.\<close>

theorem risk_forgets_resting_traders:
  assumes reach: "engine_reach e" and q: "in_i64 (ord_quantity order)" and tif: "ord_tif order \<noteq> FOK"
    and b: "get_book (ord_symbol order) e = Some b"
    and risk: "risk_engine e = Some risk" "fst (check_order order risk) = NoReject"
    and agree: "\<forall>t. in_i64 (get_position t (ord_symbol order) risk) \<and>
      net_qty (position_at (t, ord_symbol order) te) = get_position t (ord_symbol order) risk"
    and hook: "me_trade_cb e" and step: "process_new_order order ts ts' e = (rpt, e')"
  shows "\<exists>risk'. risk_engine e' = Some risk' \<and>
    (\<forall>t. net_qty (position_at (t, ord_symbol order) (fold position_output (new_outputs e e') te)) =
      i64 (get_position t (ord_symbol order) risk' -
        signed_qty (ord_side order) (taken_from t (trades_of order ts b))))"
proof -
  let ?s = "ord_symbol order" and ?sum = "sum_list (map trd_qty (trades_of order ts b))"
  from agree have rng: "in_i64 (get_position (ord_trader_id order) ?s risk)" by blast
  obtain risk' where risk': "risk_engine e' = Some risk'" "\<And>t. get_position t ?s risk' =
      (if t = ord_trader_id order then i64 (get_position t ?s risk + signed_qty (ord_side order) ?sum)
       else get_position t ?s risk)"
    using positions_follow_aggressor [OF reach q tif b risk rng step] by auto
  have "net_qty (position_at (t, ?s) (fold position_output (new_outputs e e') te)) =
      i64 (get_position t ?s risk' - signed_qty (ord_side order) (taken_from t (trades_of order ts b)))" for t
  proof -
    have "in_i64 (net_qty (position_at (t, ?s) te))" using agree by simp
    note net = new_order_positions [OF reach q b _ hook step this]
    moreover have "i64 (i64 x - y) = i64 (x - y)" for x y using i64_add_left [of x "- y"] by simp
    ultimately show ?thesis
      using agree risk(2) by (simp add: risk(1) risk'(2) add_diff_eq)
  qed
  with risk'(1) show ?thesis by blast
qed

definition demo_fresh_risk :: MatchingEngine where
  "demo_fresh_risk = set_risk_engine (Some new_risk_engine) demo_me"

lemma demo_fresh_risk_reach: "engine_reach demo_fresh_risk"
  using engine_reach.step [OF demo_me_reach engine_step.tune, of "set_risk_engine (Some new_risk_engine)"]
  by (auto simp: demo_fresh_risk_def tune_def)

theorem risk_forgets_resting_traders_witness:
  "\<exists>risk'. risk_engine (snd (process_new_order (eng_order 2 9 Buy 101 4) 5 6 demo_fresh_risk)) = Some risk' \<and>
     net_qty (position_at (8, demo_symbol) (fold position_output
       (new_outputs demo_fresh_risk (snd (process_new_order (eng_order 2 9 Buy 101 4) 5 6 demo_fresh_risk)))
       new_trade_engine)) = i64 (get_position 8 demo_symbol risk' - 4)"
proof -
  let ?o = "eng_order 2 9 Buy 101 4"
  obtain rpt e' where step: "process_new_order ?o 5 6 demo_fresh_risk = (rpt, e')" by fastforce
  have o: "ord_symbol ?o = demo_symbol" "ord_side ?o = Buy" "in_i64 (ord_quantity ?o)" "ord_tif ?o \<noteq> FOK"
    by (simp_all add: eng_order_def default_order_def in_i64_def i64_min_def i64_max_def)
  have "map_option (\<lambda>b. taken_from 8 (trades_of ?o 5 b)) (get_book demo_symbol demo_fresh_risk) = Some 4" by code_simp
  then obtain b where b: "get_book (ord_symbol ?o) demo_fresh_risk = Some b" "taken_from 8 (trades_of ?o 5 b) = 4"
    by (auto simp: o)
  have risk: "risk_engine demo_fresh_risk = Some new_risk_engine" by (simp add: demo_fresh_risk_def set_risk_engine_def)
  have free: "fst (check_order ?o new_risk_engine) = NoReject" "me_trade_cb demo_fresh_risk" by code_simp+
  have agree: "in_i64 (get_position t demo_symbol new_risk_engine) \<and>
      net_qty (position_at (t, demo_symbol) new_trade_engine) = get_position t demo_symbol new_risk_engine" for t
    by (simp add: get_position_def new_risk_engine_def net_position_at new_trade_engine_def)
  from risk_forgets_resting_traders [OF demo_fresh_risk_reach o(3,4) b(1) risk free(1) _ free(2) step, of new_trade_engine]
    agree b(2) show ?thesis by (auto simp: o step signed_qty_def)
qed

text \<open>C22. Market data of one order.  Let the callbacks of the matching engine feed a throttled market
  data engine at one reading of a shared clock, with room in its queue.  An accepted order that
  trades or is reported new then queues all its trades, never throttled, followed by its top of
  book unless that is throttled; its depth snapshot is never queued but counted as throttled.\<close>

theorem order_market_data:
  assumes reach: "engine_reach e" and q: "in_i64 (ord_quantity order)"
    and b: "get_book (ord_symbol order) e = Some b"
    and risk: "\<forall>risk. risk_engine e = Some risk \<longrightarrow> fst (check_order order risk) = NoReject"
    and hooks: "me_trade_cb e" "l1_cb e" "l2_cb e"
    and step: "process_new_order order ts ts' e = (rpt, e')"
    and news: "trades_of order ts b \<noteq> [] \<or> rpt_status rpt = New"
    and md: "md_inv md" "throttle_ns md \<noteq> 0" "length (md_pending md) + length (trades_of order ts b) < 16383"
  shows "let md' = fold (market_data_output now) (new_outputs e e') md;
             skip = fst (should_throttle (ord_symbol order) now md)
    in md_pending md' = md_pending md @
         map (TradeMessage (ord_symbol order) now) (trades_of order ts b) @
         (if skip then [] else [TobMessage (ord_symbol order) now
           (top_of_book ts (the (get_book (ord_symbol order) e')))]) \<and>
       messages_throttled md' = messages_throttled md + (if skip then 2 else 1)"
proof -
  let ?s = "ord_symbol order" and ?trs = "trades_of order ts b"
  let ?tob = "top_of_book ts (the (get_book ?s e'))" and ?depth = "get_depth ?s ts' e'"
  let ?md = "fold (market_data_output now) (map TradeOut ?trs) md"
  note book = engine_book [OF reach b]
  have "engine_inv e'" using engine_inv_new_order [OF engine_reach_inv [OF reach] q, of ts ts'] step by simp
  moreover have "get_book ?s e' \<noteq> None" using new_order_keeps_symbols [OF step, of ?s] b by simp
  ultimately obtain b' where b': "get_book ?s e' = Some b'" "bk_symbol b' = ?s"
    by (auto simp: engine_inv_def book_ok_def)
  then have sym: "tob_symbol ?tob = ?s" "dep_symbol ?depth = ?s"
    by (simp_all add: get_depth_symbol top_of_book_symbol)
  have outs: "new_outputs e e' = map TradeOut ?trs @ [L1Out ?tob] @ (if exec_cb e then [ExecutionOut rpt] else []) @ [L2Out ?depth]"
    using hooks news by (simp add: new_outputs_def new_order_log(1) [OF reach q b risk step])
  from market_data_trades [OF md(1), of ?trs now] md(3) have trs: "md_inv ?md"
    "md_pending ?md = md_pending md @ map (\<lambda>tr. TradeMessage (trd_symbol tr) now tr) ?trs"
    "throttle_ns ?md = throttle_ns md" "last_publish_time ?md = last_publish_time md"
    "messages_throttled ?md = messages_throttled md" by auto
  have skip: "fst (should_throttle ?s now ?md) = fst (should_throttle ?s now md)"
    using trs(3,4) by (simp add: should_throttle_def split: option.split)
  have "length (md_pending ?md) < 16383" using md(3) by (simp add: trs(2))
  note tob = tob_update_pending [where tob = ?tob and ts = now, OF trs(1) this refl]
  have "fold (market_data_output now) (new_outputs e e') md = count_throttled (on_tob_update now ?tob ?md)"
    using depth_after_tob [of ?md ?depth ?tob now] md(2) trs(3) sym by (simp add: outs)
  moreover have "map (\<lambda>tr. TradeMessage (trd_symbol tr) now tr) ?trs = map (TradeMessage ?s now) ?trs"
    using trades_of_member [OF book(1) q, of _ ts] book(5) by simp
  ultimately show ?thesis
    using tob sym skip trs(2,5) by (simp add: count_throttled_def md_pending_def Let_def)
qed

theorem order_market_data_witness:
  "\<exists>e'. process_new_order (eng_order 2 9 Buy 101 4) 5 6 demo_me =
      (fst (process_new_order (eng_order 2 9 Buy 101 4) 5 6 demo_me), e') \<and>
    messages_throttled (fold (market_data_output 9) (new_outputs demo_me e')
      (set_throttle_interval_ns 5 (new_md_engine (TradeMessage default_symbol 0 demo_trade)))) = 1"
proof -
  let ?o = "eng_order 2 9 Buy 101 4"
  let ?md = "set_throttle_interval_ns 5 (new_md_engine (TradeMessage default_symbol 0 demo_trade))"
  obtain rpt e' where step: "process_new_order ?o 5 6 demo_me = (rpt, e')" by fastforce
  have o: "ord_symbol ?o = demo_symbol" "in_i64 (ord_quantity ?o)"
    by (simp_all add: eng_order_def in_i64_def i64_min_def i64_max_def)
  have "map_option (\<lambda>b. length (trades_of ?o 5 b)) (get_book demo_symbol demo_me) = Some 1" by code_simp
  then obtain b where b: "get_book (ord_symbol ?o) demo_me = Some b" "length (trades_of ?o 5 b) = 1"
    by (auto simp: o)
  have hooks: "me_trade_cb demo_me" "l1_cb demo_me" "l2_cb demo_me" by code_simp+
  have "map_option (\<lambda>r. fst (check_order ?o r)) (risk_engine demo_me) = Some NoReject" by code_simp
  then have risk: "\<forall>risk. risk_engine demo_me = Some risk \<longrightarrow> fst (check_order ?o risk) = NoReject" by auto
  have md: "md_inv ?md" "md_pending ?md = []" "throttle_ns ?md = 5" "messages_throttled ?md = 0"
    "last_publish_time ?md = (\<lambda>_. None)"
    using md_inv_new by (simp_all add: set_throttle_interval_ns_def md_inv_def md_pending_def new_md_engine_def)
  then have "\<not> fst (should_throttle (ord_symbol ?o) 9 ?md)" by (simp add: should_throttle_def)
  moreover have "trades_of ?o 5 b \<noteq> []" using b(2) by auto
  ultimately show ?thesis
    using order_market_data [OF demo_me_reach o(2) b(1) risk hooks step, of ?md 9] md b(2) step
    by (simp add: Let_def)
qed

text \<open>The matching loop.  Events pushed in any number below the size of an order queue are taken
  out in the order they were pushed; the loop ends with the queue empty, having processed
  exactly the new orders among them, each once and in that order, and the engine is again a
  reachable one that counted them all.\<close>

theorem matching_loop_in_order:
  assumes "size_ok Size" "length events < unat Size" "list_all order_event_ok events" "engine_reach e"
  shows "\<exists>q e'. drain (pop Size) (matching_step clk)
      (fold (\<lambda>event q. snd (push Size event q)) events (new_ring any Size)) (Some (0, e)) =
        Some (q, Some (length (orders_of events), e')) \<and>
    ring_empty q \<and> e' = process_all clk 0 (orders_of events) e \<and> engine_reach e' \<and>
    orders_processed e' = orders_processed e + word_of_nat (length (orders_of events))"
proof -
  let ?q = "fold (\<lambda>event q. snd (push Size event q)) events (new_ring any Size)"
  from ring.push_all [OF ring_inv_new [OF assms(1)], of events any] assms(2)
  have q: "ring_inv Size ?q" "contents Size ?q = events" by (simp_all add: contents_new)
  from ring.drain_all [OF q(1), of "matching_step clk" "Some (0, e)"] obtain q' where
    "drain (pop Size) (matching_step clk) ?q (Some (0, e)) =
      Some (q', Some (length (orders_of events), process_all clk 0 (orders_of events) e))"
    "ring_inv Size q'" "contents Size q' = []"
    using matching_fold [OF assms(3), of clk 0 e] by (auto simp: q(2))
  moreover have "engine_reach (process_all clk 0 (orders_of events) e)"
    by (rule process_all_reach [OF assms(4) orders_of_range [OF assms(3)]])
  ultimately show ?thesis
    by (auto simp: process_all_counted contents_empty ring_empty_def)
qed

definition demo_events :: "EngineEvent list" where
  "demo_events = [order_event (eng_order 2 9 Buy 101 4), default_event\<lparr>ev_type := EventShutdown\<rparr>,
     order_event (eng_order 3 9 Buy 101 2)]"

theorem matching_loop_in_order_witness:
  "\<exists>q e'. drain (pop SIM_QUEUE_SIZE) (matching_step (\<lambda>k. (5, 6)))
      (fold (\<lambda>event q. snd (push SIM_QUEUE_SIZE event q)) demo_events (new_ring default_event SIM_QUEUE_SIZE))
      (Some (0, demo_me)) = Some (q, Some (2, e')) \<and>
    ring_empty q \<and> trades_generated e' = 2"
proof -
  have orders: "orders_of demo_events = [eng_order 2 9 Buy 101 4, eng_order 3 9 Buy 101 2]"
    by (simp add: demo_events_def order_event_def default_event_def)
  have "list_all order_event_ok demo_events"
    by (simp add: demo_events_def order_event_ok_def order_event_def default_event_def eng_order_def
        in_i64_def i64_min_def i64_max_def)
  moreover have "length demo_events < unat SIM_QUEUE_SIZE" by (simp add: demo_events_def SIM_QUEUE_SIZE_def)
  moreover have "trades_generated (process_all (\<lambda>k. (5, 6)) 0 (orders_of demo_events) demo_me) = 2"
    unfolding orders by code_simp
  ultimately show ?thesis
    using matching_loop_in_order [OF queue_sizes_ok(4) _ _ demo_me_reach, of demo_events "\<lambda>k. (5, 6)" default_event]
    by (auto simp: orders simp del: process_all.simps)
qed

end
